(* ===== verification/Prelude.thy ===== *)
theory Prelude
  imports Main "HOL-Library.Word" "HOL-Library.AList"
begin

text \<open>
  The shared vocabulary of the development: machine integers at their Rust widths, the
  reading of a Rust \<^verbatim>\<open>String\<close> as the list of the bytes of its UTF-8 encoding (an Isabelle
  \<^typ>\<open>char\<close> is one byte), \<^verbatim>\<open>Result\<close> as a sum whose left side is the error, and the
  generic list and association-list facts that several components use.
\<close>

unbundle bit_operations_syntax

section \<open>Types\<close>

type_synonym u8 = "8 word"
type_synonym u16 = "16 word"
type_synonym u32 = "32 word"
type_synonym u64 = "64 word"

text \<open>An \<^verbatim>\<open>i32\<close> is a 32-bit word read through \<^const>\<open>sint\<close>.\<close>

type_synonym i32 = "32 word"

type_synonym bytes = "u8 list"

text \<open>\<^verbatim>\<open>Result<'a, 'e>\<close>: \<^const>\<open>Inl\<close> is \<^verbatim>\<open>Err\<close>, \<^const>\<open>Inr\<close> is \<^verbatim>\<open>Ok\<close>.\<close>

type_synonym ('a, 'e) result = "'e + 'a"

text \<open>A map such as a \<^verbatim>\<open>HashMap\<close>, kept as an association list so that iteration computes.\<close>

type_synonym ('k, 'v) table = "('k \<times> 'v) list"

section \<open>Collections of facts\<close>

named_theorems byte_simps \<open>conversions between bytes, characters and machine words\<close>
named_theorems table_simps \<open>lookups in updated tables\<close>
named_theorems step_simps \<open>one-step unfoldings of the components' operations\<close>

section \<open>Bytes and characters\<close>

definition char_byte :: "char \<Rightarrow> u8" where
  "char_byte c = of_nat (of_char c)"

definition byte_char :: "u8 \<Rightarrow> char" where
  "byte_char b = char_of (unat b)"

definition str_bytes :: "string \<Rightarrow> bytes" where
  "str_bytes s = map char_byte s"

definition bytes_str :: "bytes \<Rightarrow> string" where
  "bytes_str bs = map byte_char bs"

lemma byte_char_char_byte [simp]: "byte_char (char_byte c) = c"
  by (simp add: byte_char_def char_byte_def unat_of_nat)

lemma char_byte_byte_char [simp]: "char_byte (byte_char b) = b"
proof -
  have "unat b < 256"
    using unsigned_less [of b] by simp
  then show ?thesis
    by (simp add: byte_char_def char_byte_def)
qed

lemma bytes_str_str_bytes [simp]: "bytes_str (str_bytes s) = s"
  by (simp add: bytes_str_def str_bytes_def comp_def)

lemma str_bytes_bytes_str [simp]: "str_bytes (bytes_str bs) = bs"
  by (simp add: bytes_str_def str_bytes_def comp_def)

lemma length_str_bytes [simp]: "length (str_bytes s) = length s"
  by (simp add: str_bytes_def)

lemma length_bytes_str [simp]: "length (bytes_str bs) = length bs"
  by (simp add: bytes_str_def)

lemma str_bytes_eq_iff [simp]: "str_bytes s = str_bytes t \<longleftrightarrow> s = t"
  by (metis bytes_str_str_bytes)

lemma bytes_str_eq_iff [simp]: "bytes_str a = bytes_str b \<longleftrightarrow> a = b"
  by (metis str_bytes_bytes_str)

lemma str_bytes_append [simp]: "str_bytes (s @ t) = str_bytes s @ str_bytes t"
  by (simp add: str_bytes_def)

lemma bytes_str_Nil [simp]: "bytes_str [] = []"
  by (simp add: bytes_str_def)

lemma bytes_str_eq_Nil [simp]: "bytes_str bs = [] \<longleftrightarrow> bs = []"
  by (simp add: bytes_str_def)

section \<open>Results\<close>

text \<open>The \<^verbatim>\<open>?\<close> operator: an error leaves the function at once.\<close>

definition and_then :: "('a, 'e) result \<Rightarrow> ('a \<Rightarrow> ('b, 'e) result) \<Rightarrow> ('b, 'e) result" where
  "and_then r f = (case r of Inl e \<Rightarrow> Inl e | Inr a \<Rightarrow> f a)"

lemma and_then_simps [simp]:
  "and_then (Inl e) f = Inl e"
  "and_then (Inr a) f = f a"
  by (simp_all add: and_then_def)

lemma and_then_Inr_iff: "and_then r f = Inr b \<longleftrightarrow> (\<exists>a. r = Inr a \<and> f a = Inr b)"
  by (cases r) auto

section \<open>Tables\<close>

text \<open>
  Lookup, insertion and removal are those of the library's association lists; a table is
  well formed when no key occurs twice.
\<close>

definition table_wf :: "('k, 'v) table \<Rightarrow> bool" where
  "table_wf t = distinct (map fst t)"

lemma table_lookup_update [table_simps]:
  "map_of (AList.update k v t) j = (if j = k then Some v else map_of t j)"
  by (simp add: update_conv')

lemma table_lookup_delete [table_simps]:
  "map_of (AList.delete k t) j = (if j = k then None else map_of t j)"
  by (simp add: delete_conv')

lemma table_wf_Nil [simp]: "table_wf []"
  by (simp add: table_wf_def)

lemma table_wf_update [simp]: "table_wf t \<Longrightarrow> table_wf (AList.update k v t)"
  by (simp add: table_wf_def distinct_update)

lemma table_wf_delete [simp]: "table_wf t \<Longrightarrow> table_wf (AList.delete k t)"
  by (simp add: table_wf_def distinct_delete)

lemma map_of_in_set: "map_of t k = Some v \<Longrightarrow> (k, v) \<in> set t"
  by (rule map_of_SomeD)

lemma set_update_subset: "set (AList.update k v t) \<subseteq> insert (k, v) (set t)"
  by (induction t) auto

lemma set_delete_subset: "set (AList.delete k t) \<subseteq> set t"
  by (auto simp: AList.delete_eq)

lemma delete_absent [simp]: "map_of t k = None \<Longrightarrow> AList.delete k t = t"
  by (simp add: delete_idem map_of_eq_None_iff)

end
