(* ===== verification/Rust_Std.thy ===== *)
theory Rust_Std
  imports Prelude
begin

text \<open>
  The parts of the Rust standard library that the program computes with, as HOL functions:
  big-endian byte conversions, \<^verbatim>\<open>saturating_add\<close>, \<^verbatim>\<open>String::from_utf8_lossy\<close> (the
  maximal-subpart replacement of \<^verbatim>\<open>core::str::lossy\<close>), and the string operations
  \<^verbatim>\<open>replace\<close>, \<^verbatim>\<open>split\<close>, \<^verbatim>\<open>split_once\<close>, \<^verbatim>\<open>lines\<close>, \<^verbatim>\<open>trim\<close>, \<^verbatim>\<open>join\<close>, integer parsing
  and integer display. A string is the byte list of its UTF-8 encoding, so all of them work
  on bytes; the separators the program uses are ASCII, and an ASCII byte is never part of a
  longer UTF-8 sequence.
\<close>

section \<open>Integers\<close>

definition u32_to_be_bytes :: "u32 \<Rightarrow> bytes" where
  "u32_to_be_bytes w = [ucast (drop_bit 24 w), ucast (drop_bit 16 w), ucast (drop_bit 8 w), ucast w]"

definition u32_from_be_bytes :: "u8 \<Rightarrow> u8 \<Rightarrow> u8 \<Rightarrow> u8 \<Rightarrow> u32" where
  "u32_from_be_bytes a b c d =
     push_bit 24 (ucast a) OR push_bit 16 (ucast b) OR push_bit 8 (ucast c) OR ucast d"

definition usize_max :: nat where
  "usize_max = 2 ^ 64 - 1"

definition saturating_add :: "nat \<Rightarrow> nat \<Rightarrow> nat" where
  "saturating_add a b = min usize_max (a + b)"

text \<open>Display of an unsigned integer, of a signed one and of a boolean.\<close>

fun nat_digits :: "nat \<Rightarrow> string" where
  "nat_digits n = (if n < 10 then [char_of (48 + n)] else nat_digits (n div 10) @ [char_of (48 + n mod 10)])"

declare nat_digits.simps [simp del]

definition u32_to_string :: "u32 \<Rightarrow> string" where
  "u32_to_string w = nat_digits (unat w)"

definition u64_to_string :: "u64 \<Rightarrow> string" where
  "u64_to_string w = nat_digits (unat w)"

definition bool_to_string :: "bool \<Rightarrow> string" where
  "bool_to_string b = (if b then ''true'' else ''false'')"

text \<open>\<^verbatim>\<open>str::parse\<close> for integers: one optional sign, then at least one decimal digit, no overflow.\<close>

definition digit_val :: "char \<Rightarrow> nat option" where
  "digit_val c = (let n = of_char c in if 48 \<le> n \<and> n \<le> 57 then Some (n - 48) else (None :: nat option))"

fun parse_digits :: "nat \<Rightarrow> string \<Rightarrow> nat option" where
  "parse_digits acc [] = Some acc"
| "parse_digits acc (c # cs) =
     (case digit_val c of None \<Rightarrow> None | Some d \<Rightarrow> parse_digits (10 * acc + d) cs)"

definition parse_nat :: "string \<Rightarrow> nat option" where
  "parse_nat s = (if s = [] then None else parse_digits 0 s)"

definition parse_unsigned :: "nat \<Rightarrow> string \<Rightarrow> nat option" where
  "parse_unsigned bound s =
     (case parse_nat (if s \<noteq> [] \<and> hd s = CHR ''+'' then tl s else s) of
        None \<Rightarrow> None
      | Some n \<Rightarrow> (if n < bound then Some n else None))"

definition parse_u16 :: "string \<Rightarrow> u16 option" where
  "parse_u16 s = map_option of_nat (parse_unsigned (2 ^ 16) s)"

definition parse_u32 :: "string \<Rightarrow> u32 option" where
  "parse_u32 s = map_option of_nat (parse_unsigned (2 ^ 32) s)"

definition parse_u64 :: "string \<Rightarrow> u64 option" where
  "parse_u64 s = map_option of_nat (parse_unsigned (2 ^ 64) s)"

definition parse_usize :: "string \<Rightarrow> nat option" where
  "parse_usize s = parse_unsigned (2 ^ 64) s"

definition parse_i32 :: "string \<Rightarrow> i32 option" where
  "parse_i32 s =
     (if s \<noteq> [] \<and> hd s = CHR ''-'' then
        (case parse_nat (tl s) of
           None \<Rightarrow> None
         | Some n \<Rightarrow> (if n \<le> 2 ^ 31 then Some (- of_nat n) else None))
      else map_option of_nat (parse_unsigned (2 ^ 31) s))"

section \<open>UTF-8\<close>

definition is_cont :: "u8 \<Rightarrow> bool" where
  "is_cont b = (b AND 0xC0 = 0x80)"

definition in_range :: "u8 \<Rightarrow> u8 \<Rightarrow> u8 \<Rightarrow> bool" where
  "in_range lo hi b = (lo \<le> b \<and> b \<le> hi)"

text \<open>
  One decoding step of \<^verbatim>\<open>Utf8Chunks\<close> on a non-empty input: the number of bytes consumed and
  whether they are one well-formed scalar value. Reading past the end yields the byte 0,
  as the library's \<^verbatim>\<open>safe_get\<close> does, which is never a continuation byte.
\<close>

definition safe_get :: "bytes \<Rightarrow> nat \<Rightarrow> u8" where
  "safe_get bs i = (if i < length bs then bs ! i else 0)"

definition second_ok :: "u8 \<Rightarrow> u8 \<Rightarrow> bool" where
  "second_ok b c =
     (if in_range 0xC2 0xDF b then is_cont c
      else if b = 0xE0 then in_range 0xA0 0xBF c
      else if in_range 0xE1 0xEC b then in_range 0x80 0xBF c
      else if b = 0xED then in_range 0x80 0x9F c
      else if in_range 0xEE 0xEF b then in_range 0x80 0xBF c
      else if b = 0xF0 then in_range 0x90 0xBF c
      else if in_range 0xF1 0xF3 b then in_range 0x80 0xBF c
      else if b = 0xF4 then in_range 0x80 0x8F c
      else False)"

definition utf8_char_width :: "u8 \<Rightarrow> nat" where
  "utf8_char_width b =
     (if b < 0x80 then 1
      else if in_range 0xC2 0xDF b then 2
      else if in_range 0xE0 0xEF b then 3
      else if in_range 0xF0 0xF4 b then 4
      else 0)"

definition utf8_step :: "bytes \<Rightarrow> nat \<times> bool" where
  "utf8_step bs =
     (let b = safe_get bs 0; w = utf8_char_width b in
      if w = 1 then (1, True)
      else if w = 0 \<or> \<not> second_ok b (safe_get bs 1) then (1, False)
      else if w = 2 then (2, True)
      else if \<not> is_cont (safe_get bs 2) then (2, False)
      else if w = 3 then (3, True)
      else if \<not> is_cont (safe_get bs 3) then (3, False)
      else (4, True))"

definition replacement_character :: bytes where
  "replacement_character = [0xEF, 0xBF, 0xBD]"

lemma utf8_step_pos: "0 < fst (utf8_step bs)"
  by (simp add: utf8_step_def Let_def)

function utf8_valid :: "bytes \<Rightarrow> bool" where
  "utf8_valid bs =
     (if bs = [] then True
      else let (n, ok) = utf8_step bs in ok \<and> utf8_valid (drop n bs))"
  by pat_completeness auto
termination
  by (relation "measure length") (auto, metis utf8_step_pos fst_conv length_greater_0_conv diff_less)

function from_utf8_lossy :: "bytes \<Rightarrow> bytes" where
  "from_utf8_lossy bs =
     (if bs = [] then []
      else let (n, ok) = utf8_step bs in
           (if ok then take n bs else replacement_character) @ from_utf8_lossy (drop n bs))"
  by pat_completeness auto
termination
  by (relation "measure length") (auto, metis utf8_step_pos fst_conv length_greater_0_conv diff_less)

declare utf8_valid.simps [simp del] from_utf8_lossy.simps [simp del]

section \<open>Strings\<close>

definition starts_with :: "string \<Rightarrow> string \<Rightarrow> bool" where
  "starts_with p s = (take (length p) s = p)"

text \<open>
  \<^verbatim>\<open>str::replace\<close> with a non-empty pattern (the program passes only such patterns): the
  non-overlapping occurrences from left to right; the replacement text is not searched again.
\<close>

function str_replace :: "string \<Rightarrow> string \<Rightarrow> string \<Rightarrow> string" where
  "str_replace pat to s =
     (if s = [] \<or> pat = [] then s
      else if starts_with pat s then to @ str_replace pat to (drop (length pat) s)
      else hd s # str_replace pat to (tl s))"
  by pat_completeness auto
termination
  by (relation "measure (\<lambda>(p, t, s). length s)") auto

declare str_replace.simps [simp del]

fun str_contains :: "string \<Rightarrow> string \<Rightarrow> bool" where
  "str_contains pat [] = (pat = [])"
| "str_contains pat (c # cs) = (starts_with pat (c # cs) \<or> str_contains pat cs)"

text \<open>\<^verbatim>\<open>split\<close> at a separator character: always at least one piece.\<close>

fun str_split :: "char \<Rightarrow> string \<Rightarrow> string list" where
  "str_split sep [] = [[]]"
| "str_split sep (c # cs) =
     (if c = sep then [] # str_split sep cs
      else case str_split sep cs of [] \<Rightarrow> [[c]] | p # ps \<Rightarrow> (c # p) # ps)"

text \<open>\<^verbatim>\<open>split_once\<close> at the first occurrence of a pattern.\<close>

fun str_split_once :: "string \<Rightarrow> string \<Rightarrow> (string \<times> string) option" where
  "str_split_once pat [] = (if pat = [] then Some ([], []) else None)"
| "str_split_once pat (c # cs) =
     (if starts_with pat (c # cs) then Some ([], drop (length pat) (c # cs))
      else map_option (\<lambda>(a, b). (c # a, b)) (str_split_once pat cs))"

text \<open>\<^verbatim>\<open>lines\<close>: a line ends at a line feed, a carriage return before it is dropped, and no
  empty line follows a final line feed.\<close>

definition strip_cr :: "string \<Rightarrow> string" where
  "strip_cr l = (if l \<noteq> [] \<and> last l = CHR 0x0D then butlast l else l)"

definition str_lines :: "string \<Rightarrow> string list" where
  "str_lines s =
     (let ps = str_split (CHR 0x0A) s in
      map strip_cr (butlast ps) @ (if last ps = [] then [] else [last ps]))"

text \<open>
  \<^verbatim>\<open>trim\<close>: the number of bytes of a leading Unicode white-space character, and the same
  read from the end (on the reversed list).
\<close>

definition ws_seqs :: "bytes list" where
  "ws_seqs =
     [[0x09], [0x0A], [0x0B], [0x0C], [0x0D], [0x20], [0xC2, 0x85], [0xC2, 0xA0],
      [0xE1, 0x9A, 0x80], [0xE2, 0x80, 0x80], [0xE2, 0x80, 0x81], [0xE2, 0x80, 0x82],
      [0xE2, 0x80, 0x83], [0xE2, 0x80, 0x84], [0xE2, 0x80, 0x85], [0xE2, 0x80, 0x86],
      [0xE2, 0x80, 0x87], [0xE2, 0x80, 0x88], [0xE2, 0x80, 0x89], [0xE2, 0x80, 0x8A],
      [0xE2, 0x80, 0xA8], [0xE2, 0x80, 0xA9], [0xE2, 0x80, 0xAF], [0xE2, 0x81, 0x9F],
      [0xE3, 0x80, 0x80]]"

definition ws_len :: "string list \<Rightarrow> string \<Rightarrow> nat" where
  "ws_len seqs s = (case find (\<lambda>w. starts_with w s) seqs of None \<Rightarrow> 0 | Some w \<Rightarrow> length w)"

function strip_ws :: "string list \<Rightarrow> string \<Rightarrow> string" where
  "strip_ws seqs s = (if s = [] \<or> ws_len seqs s = 0 then s else strip_ws seqs (drop (ws_len seqs s) s))"
  by pat_completeness auto
termination
  by (relation "measure (\<lambda>(q, s). length s)") auto

declare strip_ws.simps [simp del]

definition str_trim :: "string \<Rightarrow> string" where
  "str_trim s =
     (let fwd = map bytes_str ws_seqs; bwd = map (rev \<circ> bytes_str) ws_seqs in
      rev (strip_ws bwd (rev (strip_ws fwd s))))"

definition not_ws :: "char \<Rightarrow> bool" where
  "not_ws c = list_all (\<lambda>w. w \<noteq> [] \<and> hd w \<noteq> char_byte c \<and> last w \<noteq> char_byte c) ws_seqs"

lemma ws_len_zero: "list_all (\<lambda>w. w \<noteq> [] \<and> hd w \<noteq> c) seqs \<Longrightarrow> ws_len seqs (c # s) = 0"
  by (induction seqs) (auto simp: ws_len_def starts_with_def take_Cons split: nat.splits option.splits)

text \<open>A string that neither starts nor ends with the bytes of a white-space character is trimmed already.\<close>

lemma str_trim_id:
  assumes "s \<noteq> []" "not_ws (hd s)" "not_ws (last s)"
  shows "str_trim s = s"
proof -
  obtain c t where c: "s = c # t" using assms by (cases s) auto
  obtain d u where d: "rev s = d # u" "last s = d" using assms by (cases "rev s") auto
  have "ws_len (map bytes_str ws_seqs) s = 0"
    unfolding c by (rule ws_len_zero)
      (use assms c in \<open>auto simp: not_ws_def list_all_iff bytes_str_def hd_map\<close>)
  moreover have "ws_len (map (rev \<circ> bytes_str) ws_seqs) (rev s) = 0"
    unfolding d by (rule ws_len_zero)
      (use assms d in \<open>auto simp: not_ws_def list_all_iff bytes_str_def hd_rev last_map\<close>)
  ultimately show ?thesis
    by (simp add: str_trim_def strip_ws.simps [of _ s] strip_ws.simps [of _ "rev s"])
qed

fun str_join :: "string \<Rightarrow> string list \<Rightarrow> string" where
  "str_join sep [] = []"
| "str_join sep [x] = x"
| "str_join sep (x # y # xs) = x @ sep @ str_join sep (y # xs)"

section \<open>Facts about byte conversions\<close>

lemma length_u32_to_be_bytes [simp]: "length (u32_to_be_bytes w) = 4"
  by (simp add: u32_to_be_bytes_def)

lemma u32_from_to_be_bytes [byte_simps]:
  "u32_from_be_bytes (ucast (drop_bit 24 w)) (ucast (drop_bit 16 w)) (ucast (drop_bit 8 w)) (ucast w) = w"
proof (rule bit_word_eqI)
  fix n :: nat
  assume "n < LENGTH(32)"
  then consider "n < 8" | "8 \<le> n" "n < 16" | "16 \<le> n" "n < 24" | "24 \<le> n" "n < 32"
    by fastforce
  then show "bit (u32_from_be_bytes (ucast (drop_bit 24 w)) (ucast (drop_bit 16 w))
      (ucast (drop_bit 8 w)) (ucast w)) n = bit w n"
    by cases (auto simp: u32_from_be_bytes_def bit_simps)
qed

lemma u8_bit_high: "8 \<le> n \<Longrightarrow> \<not> bit (b :: u8) n"
  by (auto dest: bit_imp_le_length)

lemma u32_to_from_be_bytes [byte_simps]:
  "u32_to_be_bytes (u32_from_be_bytes a b c d) = [a, b, c, d]"
  unfolding u32_to_be_bytes_def u32_from_be_bytes_def
  by (auto intro!: bit_word_eqI simp: bit_simps u8_bit_high)

lemma u32_be_bytes_roundtrip:
  assumes "u32_to_be_bytes w = [a, b, c, d]"
  shows "u32_from_be_bytes a b c d = w"
  using assms by (auto simp: u32_to_be_bytes_def u32_from_to_be_bytes)

section \<open>Facts about UTF-8\<close>

text \<open>A step looks at no byte beyond those it consumes, apart from the first one it rejects.\<close>

lemma safe_get_take_append: "i < n \<Longrightarrow> n \<le> length bs \<Longrightarrow> safe_get (take n bs @ cs) i = safe_get bs i"
  by (simp add: safe_get_def nth_append)

lemma safe_get_cont_length: "is_cont (safe_get bs i) \<Longrightarrow> i < length bs"
  by (cases "i < length bs") (auto simp: safe_get_def is_cont_def)

lemma second_ok_zero: "\<not> second_ok b 0"
  by (simp add: second_ok_def in_range_def is_cont_def)

lemma second_ok_length: "second_ok b (safe_get bs i) \<Longrightarrow> i < length bs"
  by (cases "i < length bs") (auto simp: safe_get_def second_ok_zero)

lemma utf8_step_True_iff:
  "utf8_step bs = (n, True) \<longleftrightarrow>
     utf8_char_width (safe_get bs 0) = n \<and> n \<in> {1, 2, 3, 4} \<and>
     (2 \<le> n \<longrightarrow> second_ok (safe_get bs 0) (safe_get bs 1)) \<and>
     (3 \<le> n \<longrightarrow> is_cont (safe_get bs 2)) \<and> (4 \<le> n \<longrightarrow> is_cont (safe_get bs 3))"
proof -
  have "utf8_char_width (safe_get bs 0) \<in> {0, 1, 2, 3, 4}"
    by (simp add: utf8_char_width_def)
  then show ?thesis
    by (auto simp: utf8_step_def Let_def)
qed

lemma utf8_step_valid_length:
  assumes "utf8_step bs = (n, True)" and "bs \<noteq> []"
  shows "n \<le> length bs"
proof -
  have "n \<in> {1, 2, 3, 4}" and s: "2 \<le> n \<Longrightarrow> second_ok (safe_get bs 0) (safe_get bs 1)"
    and c2: "3 \<le> n \<Longrightarrow> is_cont (safe_get bs 2)" and c3: "4 \<le> n \<Longrightarrow> is_cont (safe_get bs 3)"
    using assms(1) unfolding utf8_step_True_iff by blast+
  then consider "n = 1" | "n = 2" "1 < length bs" | "n = 3" "2 < length bs" | "n = 4" "3 < length bs"
    using safe_get_cont_length second_ok_length by fastforce
  then show ?thesis
    using assms(2) by cases (auto simp: Suc_le_eq)
qed

lemma utf8_step_take_append:
  assumes "utf8_step bs = (n, True)" and "bs \<noteq> []"
  shows "utf8_step (take n bs @ cs) = (n, True)"
proof -
  have "n \<le> length bs"
    using assms by (rule utf8_step_valid_length)
  then have get: "safe_get (take n bs @ cs) i = safe_get bs i" if "i < n" for i
    using that by (simp add: safe_get_take_append)
  have "0 < n" using assms(1) by (auto simp: utf8_step_True_iff)
  then have "safe_get (take n bs @ cs) 0 = safe_get bs 0" by (rule get)
  with assms(1) show ?thesis
    unfolding utf8_step_True_iff by (simp add: get)
qed

lemma utf8_valid_char_append:
  assumes "utf8_step bs = (n, True)" and "bs \<noteq> []" and "utf8_valid cs"
  shows "utf8_valid (take n bs @ cs)"
proof -
  have "n \<le> length bs" and "0 < n"
    using assms(1,2) utf8_step_valid_length utf8_step_pos [of bs] by auto
  then have "drop n (take n bs @ cs) = cs" by simp
  with assms \<open>0 < n\<close> show ?thesis
    by (subst utf8_valid.simps) (simp add: utf8_step_take_append)
qed

lemma utf8_valid_ascii: "(\<And>b. b \<in> set bs \<Longrightarrow> b < 0x80) \<Longrightarrow> utf8_valid bs"
proof (induction bs)
  case (Cons b bs)
  have "utf8_step (b # bs) = (1, True)"
    using Cons.prems [of b] by (simp add: utf8_step_def safe_get_def utf8_char_width_def in_range_def)
  with Cons show ?case by (subst utf8_valid.simps) simp
qed (simp add: utf8_valid.simps)

lemma utf8_valid_replacement: "utf8_valid cs \<Longrightarrow> utf8_valid (replacement_character @ cs)"
  by (subst utf8_valid.simps)
    (simp add: replacement_character_def utf8_step_def safe_get_def utf8_char_width_def
      second_ok_def in_range_def is_cont_def)

lemma from_utf8_lossy_valid: "utf8_valid (from_utf8_lossy bs)"
proof (induction bs rule: from_utf8_lossy.induct)
  case (1 bs)
  show ?case
  proof (cases "bs = []")
    case True
    then show ?thesis by (simp add: from_utf8_lossy.simps utf8_valid.simps)
  next
    case False
    obtain n ok where st: "utf8_step bs = (n, ok)" by fastforce
    with 1 False have IH: "utf8_valid (from_utf8_lossy (drop n bs))" by simp
    show ?thesis
    proof (cases ok)
      case True
      with st False IH show ?thesis
        by (subst from_utf8_lossy.simps) (simp add: utf8_valid_char_append)
    next
      case bad: False
      with st False IH show ?thesis
        by (subst from_utf8_lossy.simps) (simp add: utf8_valid_replacement)
    qed
  qed
qed

lemma from_utf8_lossy_id: "utf8_valid bs \<Longrightarrow> from_utf8_lossy bs = bs"
proof (induction bs rule: from_utf8_lossy.induct)
  case (1 bs)
  show ?case
  proof (cases "bs = []")
    case False
    obtain n ok where st: "utf8_step bs = (n, ok)" by fastforce
    with 1(2) False have "ok" and "utf8_valid (drop n bs)"
      by (simp_all add: utf8_valid.simps [of bs])
    with 1(1) st False show ?thesis
      by (subst from_utf8_lossy.simps) simp
  qed (simp add: from_utf8_lossy.simps)
qed

lemma from_utf8_lossy_eq_Nil [simp]: "from_utf8_lossy bs = [] \<longleftrightarrow> bs = []"
proof
  assume nil: "from_utf8_lossy bs = []"
  show "bs = []"
  proof (rule ccontr)
    assume "bs \<noteq> []"
    with nil utf8_step_pos [of bs] show False
      by (subst (asm) from_utf8_lossy.simps)
        (auto simp: replacement_character_def split: prod.splits if_splits)
  qed
qed (simp add: from_utf8_lossy.simps)

section \<open>Facts about strings\<close>

lemma starts_with_append [simp]: "starts_with p (p @ s)"
  by (simp add: starts_with_def)

lemma starts_with_longer: "length s < length p \<Longrightarrow> \<not> starts_with p s"
  by (auto simp: starts_with_def)

text \<open>A pattern that does not occur is not replaced.\<close>

lemma str_replace_absent: "pat \<noteq> [] \<Longrightarrow> \<not> str_contains pat s \<Longrightarrow> str_replace pat to s = s"
proof (induction s)
  case Nil
  then show ?case by (simp add: str_replace.simps)
next
  case (Cons c cs)
  then show ?case by (subst str_replace.simps) auto
qed

lemma str_split_nonempty [simp]: "str_split sep s \<noteq> []"
  by (induction s) (auto split: list.splits)

text \<open>Joining the pieces with the separator gives the string back.\<close>

lemma str_join_split: "str_join [sep] (str_split sep s) = s"
proof (induction s)
  case (Cons c cs)
  obtain p ps where sp: "str_split sep cs = p # ps"
    by (cases "str_split sep cs") auto
  with Cons show ?case
    by (cases ps) auto
qed simp

lemma str_split_no_sep: "\<forall>p\<in>set (str_split sep s). sep \<notin> set p"
  by (induction s) (auto split: list.splits)

lemma str_split_append_sep:
  "sep \<notin> set p \<Longrightarrow> str_split sep (p @ sep # s) = p # str_split sep s"
  by (induction p) auto

lemma str_split_atom: "sep \<notin> set p \<Longrightarrow> str_split sep p = [p]"
  by (induction p) auto

text \<open>Splitting a joined list gives the list back, if no piece contains the separator.\<close>

lemma str_split_join:
  "ps \<noteq> [] \<Longrightarrow> \<forall>p\<in>set ps. sep \<notin> set p \<Longrightarrow> str_split sep (str_join [sep] ps) = ps"
  by (induction "[sep]" ps rule: str_join.induct) (simp_all add: str_split_append_sep str_split_atom)

lemma str_split_once_Some:
  "str_split_once pat s = Some (a, b) \<Longrightarrow> s = a @ pat @ b"
proof (induction s arbitrary: a)
  case Nil
  then show ?case by (auto split: if_splits)
next
  case (Cons c cs)
  show ?case
  proof (cases "starts_with pat (c # cs)")
    case True
    with Cons.prems have "a = []" and "b = drop (length pat) (c # cs)" by auto
    then show ?thesis
      using True by (metis append_Nil append_take_drop_id starts_with_def)
  next
    case False
    with Cons show ?thesis by auto
  qed
qed

text \<open>Parsing the display of a number gives the number back.\<close>

lemma digit_val_char_of: "n < 10 \<Longrightarrow> digit_val (char_of (48 + n)) = Some n"
  by (simp add: digit_val_def Let_def)

lemma parse_digits_append:
  "parse_digits acc (s @ t) = (case parse_digits acc s of None \<Rightarrow> None | Some n \<Rightarrow> parse_digits n t)"
  by (induction s arbitrary: acc) (auto split: option.splits)

lemma parse_digits_nat_digits: "parse_digits 0 (nat_digits n) = Some n"
proof (induction n rule: nat_digits.induct)
  case (1 n)
  show ?case
  proof (cases "n < 10")
    case True
    then show ?thesis by (simp add: nat_digits.simps [of n] digit_val_char_of)
  next
    case False
    with 1 have "parse_digits 0 (nat_digits (n div 10)) = Some (n div 10)" by simp
    with False show ?thesis
      by (simp add: nat_digits.simps [of n] parse_digits_append digit_val_char_of)
  qed
qed

lemma nat_digits_not_Nil [simp]: "nat_digits n \<noteq> []"
  by (subst nat_digits.simps) simp

lemma nat_digits_digit: "c \<in> set (nat_digits n) \<Longrightarrow> digit_val c \<noteq> None"
  by (induction n rule: nat_digits.induct)
    (subst (asm) (2) nat_digits.simps, auto simp: digit_val_char_of split: if_splits)

lemma parse_unsigned_nat_digits: "n < bound \<Longrightarrow> parse_unsigned bound (nat_digits n) = Some n"
proof -
  assume b: "n < bound"
  have "hd (nat_digits n) \<noteq> CHR ''+''"
    using nat_digits_digit [of "hd (nat_digits n)" n] by (auto simp: digit_val_def)
  with b show ?thesis
    by (simp add: parse_unsigned_def parse_nat_def parse_digits_nat_digits)
qed

lemma parse_unsigned_bound: "parse_unsigned bound s = Some n \<Longrightarrow> n < bound"
  by (auto simp: parse_unsigned_def split: option.splits if_splits)

end
