(* ===== verification/Models.thy ===== *)
theory Models
  imports Rust_Std
begin

text \<open>
  \<^verbatim>\<open>server/src/models.rs\<close>: the request and response types of the HTTP interface. A JSON value of
  \<^verbatim>\<open>serde_json\<close> is a datatype; a derived \<^verbatim>\<open>Serialize\<close> turns a struct into the object of its
  fields, and a derived \<^verbatim>\<open>Deserialize\<close> reads an object whose fields marked
  \<^verbatim>\<open>#[serde(default)]\<close> may be absent.
\<close>

section \<open>Model\<close>

datatype json =
    JNull
  | JBool bool
  | JNum int
  | JStr string
  | JArr "json list"
  | JObj "(string \<times> json) list"

record runner_options =
  opt_enable_network :: bool

record run_code_request =
  req_language :: string
  req_code :: string
  req_preload :: string
  req_options :: runner_options

record update_dependency_request =
  upd_language :: string

record api_response =
  resp_code :: i32
  resp_message :: string
  resp_data :: "json option"

record run_code_data =
  rcd_stdout :: string
  rcd_stderr :: string

record dependency =
  dep_name :: string
  dep_version :: string

text \<open>What the deserializer finds: the optional fields may be missing.\<close>

record raw_runner_options =
  raw_enable_network :: "bool option"

record raw_run_code_request =
  raw_language :: string
  raw_code :: string
  raw_preload :: "string option"
  raw_options :: "raw_runner_options option"

definition default_runner_options :: runner_options where
  "default_runner_options = \<lparr>opt_enable_network = False\<rparr>"

definition runner_options_of_raw :: "raw_runner_options \<Rightarrow> runner_options" where
  "runner_options_of_raw r =
     \<lparr>opt_enable_network = (case raw_enable_network r of None \<Rightarrow> False | Some b \<Rightarrow> b)\<rparr>"

definition run_code_request_of_raw :: "raw_run_code_request \<Rightarrow> run_code_request" where
  "run_code_request_of_raw r =
     \<lparr>req_language = raw_language r, req_code = raw_code r,
      req_preload = (case raw_preload r of None \<Rightarrow> [] | Some p \<Rightarrow> p),
      req_options = (case raw_options r of
         None \<Rightarrow> default_runner_options | Some q \<Rightarrow> runner_options_of_raw q)\<rparr>"

definition json_of_run_code_data :: "run_code_data \<Rightarrow> json" where
  "json_of_run_code_data d = JObj [(''stdout'', JStr (rcd_stdout d)), (''stderr'', JStr (rcd_stderr d))]"

definition json_of_dependency :: "dependency \<Rightarrow> json" where
  "json_of_dependency d = JObj [(''name'', JStr (dep_name d)), (''version'', JStr (dep_version d))]"

text \<open>The constructors; the argument of the first is the value that \<^verbatim>\<open>to_value\<close> gives.\<close>

definition api_success :: "json \<Rightarrow> api_response" where
  "api_success data = \<lparr>resp_code = 0, resp_message = ''success'', resp_data = Some data\<rparr>"

definition api_error :: "i32 \<Rightarrow> string \<Rightarrow> api_response" where
  "api_error code message = \<lparr>resp_code = code, resp_message = message, resp_data = None\<rparr>"

definition json_of_api_response :: "api_response \<Rightarrow> json" where
  "json_of_api_response r =
     JObj [(''code'', JNum (sint (resp_code r))), (''message'', JStr (resp_message r)),
           (''data'', case resp_data r of None \<Rightarrow> JNull | Some d \<Rightarrow> d)]"

section \<open>Facts\<close>

lemma api_simps [simp]:
  "resp_code (api_success d) = 0" "resp_message (api_success d) = ''success''" "resp_data (api_success d) = Some d"
  "resp_code (api_error c m) = c" "resp_message (api_error c m) = m" "resp_data (api_error c m) = None"
  by (simp_all add: api_success_def api_error_def)

lemma api_success_inject [simp]: "api_success a = api_success b \<longleftrightarrow> a = b"
  by (simp add: api_success_def)

lemma api_error_inject [simp]: "api_error c m = api_error d n \<longleftrightarrow> c = d \<and> m = n"
  by (simp add: api_error_def)

lemma api_success_neq_error [simp]: "api_success d \<noteq> api_error c m" "api_error c m \<noteq> api_success d"
  by (simp_all add: api_success_def api_error_def)

lemma json_of_run_code_data_inject [simp]: "json_of_run_code_data a = json_of_run_code_data b \<longleftrightarrow> a = b"
  by (auto simp: json_of_run_code_data_def intro: run_code_data.equality)

text \<open>Network access is off unless the request asks for it.\<close>

lemma network_default_off:
  "opt_enable_network (req_options (run_code_request_of_raw r)) \<longleftrightarrow>
     (\<exists>q. raw_options r = Some q \<and> raw_enable_network q = Some True)"
  by (auto simp: run_code_request_of_raw_def default_runner_options_def runner_options_of_raw_def
      split: option.splits)

end
