(* ===== verification/Services.thy ===== *)
theory Services
  imports Models
begin

text \<open>
  \<^verbatim>\<open>server/src/services.rs\<close>: the result of an execution, the reading of a process exit status,
  and the recognition of a seccomp kill. An \<^verbatim>\<open>ExitStatus\<close> is the raw status word that
  \<^verbatim>\<open>waitpid\<close> returns, read as the POSIX macros that the standard library uses read it.
\<close>

section \<open>Model\<close>

record execution_result =
  ex_stdout :: string
  ex_stderr :: string
  ex_exit_code :: i32

definition LIB_PATH :: string where
  "LIB_PATH = ''/usr/local/share/sandbox''"

text \<open>\<^verbatim>\<open>ExitStatusExt::signal\<close>: the low seven bits, unless they mean exited (0) or stopped (127).\<close>

definition status_signal :: "i32 \<Rightarrow> i32 option" where
  "status_signal st = (let s = st AND 0x7F in if s \<noteq> 0 \<and> s \<noteq> 0x7F then Some s else None)"

text \<open>\<^verbatim>\<open>ExitStatus::code\<close>: the second byte, for a normal exit.\<close>

definition status_code :: "i32 \<Rightarrow> i32 option" where
  "status_code st = (if st AND 0x7F = 0 then Some (drop_bit 8 st AND 0xFF) else None)"

definition status_success :: "i32 \<Rightarrow> bool" where
  "status_success st = (st = 0)"

definition exit_code_from_status :: "i32 \<Rightarrow> i32" where
  "exit_code_from_status status =
     (case status_signal status of
        Some signal \<Rightarrow> - signal
      | None \<Rightarrow> (case status_code status of Some c \<Rightarrow> c | None \<Rightarrow> - 1))"

definition SIGSYS_RAW :: i32 where "SIGSYS_RAW = 159"
definition SIGSYS_NEG :: i32 where "SIGSYS_NEG = - 31"

definition is_seccomp_violation :: "i32 \<Rightarrow> bool" where
  "is_seccomp_violation exit_code = (exit_code = SIGSYS_RAW \<or> exit_code = SIGSYS_NEG)"

section \<open>Facts\<close>

lemma status_signal_range:
  assumes "status_signal st = Some s"
  shows "0 < s \<and> s < 0x7F"
proof -
  from assms have s: "s = st AND 0x7F" "s \<noteq> 0" "s \<noteq> 0x7F"
    by (auto simp: status_signal_def Let_def split: if_splits)
  have "s \<le> 0x7F" unfolding s(1) by (rule word_and_le1)
  with s(3) have "s < 0x7F" by (simp add: order_less_le)
  moreover have "0 < s" using s(2) word_gt_0 by blast
  ultimately show ?thesis by blast
qed

lemma status_code_range: "status_code st = Some c \<Longrightarrow> c \<le> 0xFF"
  by (auto simp: status_code_def word_and_le1 split: if_splits)

lemma status_signal_code: "status_signal st = Some s \<Longrightarrow> status_code st = None"
  by (auto simp: status_signal_def status_code_def Let_def split: if_splits)

text \<open>A signal makes the result negative, an exit code does not: the two are told apart.\<close>

lemma sint_small: "uint (w :: i32) < 2 ^ 31 \<Longrightarrow> sint w = uint w"
  using uint_ge_0 [of w] by (simp add: sint_uint signed_take_bit_int_eq_self_iff order_trans [of _ 0])

lemma uint_nonneg_bound: "- uint (w :: i32) < 2147483648" and uint_not_neg: "uint (w :: i32) \<noteq> - 31"
  using uint_ge_0 [of w] by linarith+

lemma sint_minus_small:
  fixes w :: i32
  assumes "uint w < 2 ^ 31"
  shows "sint (- w) = - uint w"
proof -
  have "sint (word_of_int (- uint w) :: i32) = signed_take_bit 31 (- uint w)"
    by (simp only: signed_of_int) simp
  also have "\<dots> = - uint w"
    using assms uint_nonneg_bound [of w] by (simp add: signed_take_bit_int_eq_self_iff)
  finally have "sint (word_of_int (- uint w) :: i32) = - uint w" .
  moreover have "word_of_int (- uint w) = - w" by simp
  ultimately show ?thesis by (simp only:)
qed

lemma exit_code_signal: "status_signal st = Some s \<Longrightarrow> exit_code_from_status st = - s"
  by (simp add: exit_code_from_status_def)

lemma exit_code_exited: "status_code st = Some c \<Longrightarrow> exit_code_from_status st = c"
  using status_signal_code [of st] by (cases "status_signal st") (simp_all add: exit_code_from_status_def)

lemma exit_code_cases:
  obtains (signal) s where "status_signal st = Some s" "uint s < 127" "0 < uint s"
      "sint (exit_code_from_status st) = - uint s"
    | (exited) c where "status_code st = Some c" "uint c < 256"
      "sint (exit_code_from_status st) = uint c"
    | (stopped) "status_signal st = None" "status_code st = None" "sint (exit_code_from_status st) = - 1"
proof (cases "status_signal st")
  case (Some s)
  then have "0 < uint s" "uint s < 127"
    using status_signal_range [OF Some] by (simp_all add: word_less_def)
  then show ?thesis
    using signal [OF Some] Some by (simp add: exit_code_signal sint_minus_small)
next
  case None
  note no_signal = None
  show ?thesis
  proof (cases "status_code st")
    case (Some c)
    then have "uint c < 256"
      using status_code_range [OF Some] by (simp add: word_le_def)
    then show ?thesis
      using exited [OF Some] Some by (simp add: exit_code_exited sint_small)
  next
    case None
    then show ?thesis
      using stopped no_signal by (simp add: exit_code_from_status_def)
  qed
qed

lemma seccomp_verdict_iff:
  "is_seccomp_violation (exit_code_from_status st) \<longleftrightarrow>
     status_signal st = Some 31 \<or> status_code st = Some 159"
proof -
  have eq: "is_seccomp_violation e \<longleftrightarrow> sint e = 159 \<or> sint e = - 31" for e
    by (auto simp: is_seccomp_violation_def SIGSYS_RAW_def SIGSYS_NEG_def simp flip: signed_word_eqI)
  show ?thesis
  proof (cases st rule: exit_code_cases)
    case (signal s)
    then show ?thesis by (auto simp: eq status_signal_code word_uint_eq_iff)
  next
    case (exited c)
    moreover from exited have "status_signal st = None"
      using status_signal_code by (cases "status_signal st") auto
    ultimately show ?thesis
      by (simp add: eq word_uint_eq_iff uint_not_neg)
  next
    case stopped
    then show ?thesis by (simp add: eq)
  qed
qed

section \<open>Properties\<close>

text \<open>The exit code of a finished process follows the \<^verbatim>\<open>returncode\<close> convention: a death by
  signal gives minus the signal, in \<open>-126..-1\<close>, a normal exit gives its code, in \<open>0..255\<close>, so the
  sign alone tells which of the two happened.\<close>

theorem exit_code_convention:
  "(case status_signal st of
      Some s \<Rightarrow> sint (exit_code_from_status st) = - uint s \<and> uint s \<in> {1..126}
    | None \<Rightarrow> (case status_code st of
        Some c \<Rightarrow> sint (exit_code_from_status st) = uint c \<and> uint c \<in> {0..255}
      | None \<Rightarrow> exit_code_from_status st = - 1))"
  by (cases st rule: exit_code_cases)
    (auto simp: status_signal_code exit_code_from_status_def split: option.splits)

text \<open>The verdict ``seccomp violation'' on the exit code of a process is given exactly when the
  process was killed by signal 31 (SIGSYS), or itself exited with the code 159.\<close>

theorem seccomp_verdict:
  "is_seccomp_violation (exit_code_from_status st) \<longleftrightarrow>
     status_signal st = Some 31 \<or> status_code st = Some 159"
  by (rule seccomp_verdict_iff)

end
