(* ===== verification/Config.thy ===== *)
theory Config
  imports Rust_Std
begin

text \<open>
  \<^verbatim>\<open>server/src/config.rs\<close>: the configuration file with its defaults, the environment variables
  that override it, and the proxy variables handed to child processes.

  \<^verbatim>\<open>toml::from_str\<close> is third-party code. It is a parameter that gives a \<open>raw_config\<close>: every
  field marked \<^verbatim>\<open>#[serde(default...)]\<close> is optional there, and the defaults are applied as the
  attributes say. The file system and the environment are parameters too; \<open>env v = None\<close> stands
  for \<^verbatim>\<open>Err\<close> of \<^verbatim>\<open>std::env::var\<close> (unset, or not Unicode).
\<close>

section \<open>Model\<close>

record app_config =
  app_port :: u16
  app_debug :: bool
  app_key :: string

record proxy_config =
  proxy_socks5 :: string
  proxy_http :: string
  proxy_https :: string

definition non_empty :: "string \<Rightarrow> string option" where
  "non_empty s = (if s = [] then None else Some s)"

definition socks5_option :: "proxy_config \<Rightarrow> string option" where
  "socks5_option p = non_empty (proxy_socks5 p)"

definition http_option :: "proxy_config \<Rightarrow> string option" where
  "http_option p = non_empty (proxy_http p)"

definition https_option :: "proxy_config \<Rightarrow> string option" where
  "https_option p = non_empty (proxy_https p)"

definition push_var :: "string \<Rightarrow> string option \<Rightarrow> (string \<times> string) list \<Rightarrow> (string \<times> string) list" where
  "push_var name value vars = (case value of None \<Rightarrow> vars | Some v \<Rightarrow> vars @ [(name, v)])"

definition proxy_env_vars :: "proxy_config \<Rightarrow> (string \<times> string) list" where
  "proxy_env_vars p =
     (case socks5_option p of
        Some socks5 \<Rightarrow> [(''HTTPS_PROXY'', socks5), (''HTTP_PROXY'', socks5)]
      | None \<Rightarrow> push_var ''HTTP_PROXY'' (http_option p) (push_var ''HTTPS_PROXY'' (https_option p) []))"

record config =
  cfg_app :: app_config
  cfg_max_workers :: nat
  cfg_worker_timeout :: u64
  cfg_enable_network :: bool
  cfg_enable_preload :: bool
  cfg_privilege :: bool
  cfg_python_zygote :: bool
  cfg_python_zygote_preload_modules :: "string list"
  cfg_python_path :: string
  cfg_nodejs_path :: string
  cfg_python_lib_paths :: "string list"
  cfg_nodejs_lib_paths :: "string list"
  cfg_sandbox_user :: string
  cfg_sandbox_uid :: u32
  cfg_sandbox_gid :: u32
  cfg_python_max_as_bytes :: u64
  cfg_nodejs_max_as_bytes :: u64
  cfg_nodejs_max_old_space_mb :: u32
  cfg_proxy :: proxy_config

subsection \<open>What the file says\<close>

record raw_app_config =
  raw_port :: u16
  raw_debug :: "bool option"
  raw_key :: string

record raw_proxy_config =
  raw_socks5 :: "string option"
  raw_http :: "string option"
  raw_https :: "string option"

record raw_config =
  raw_app :: raw_app_config
  raw_max_workers :: "nat option"
  raw_worker_timeout :: "u64 option"
  raw_cfg_enable_network :: "bool option"
  raw_enable_preload :: "bool option"
  raw_privilege :: "bool option"
  raw_python_zygote :: "bool option"
  raw_python_zygote_preload_modules :: "string list option"
  raw_python_path :: "string option"
  raw_nodejs_path :: "string option"
  raw_python_lib_paths :: "string list option"
  raw_nodejs_lib_paths :: "string list option"
  raw_sandbox_user :: "string option"
  raw_sandbox_uid :: "u32 option"
  raw_sandbox_gid :: "u32 option"
  raw_python_max_as_bytes :: "u64 option"
  raw_nodejs_max_as_bytes :: "u64 option"
  raw_nodejs_max_old_space_mb :: "u32 option"
  raw_proxy :: "raw_proxy_config option"

subsection \<open>Defaults\<close>

definition or_default :: "'a \<Rightarrow> 'a option \<Rightarrow> 'a" where
  "or_default d x = (case x of None \<Rightarrow> d | Some v \<Rightarrow> v)"

definition default_max_workers :: nat where "default_max_workers = 4"
definition default_worker_timeout :: u64 where "default_worker_timeout = 30"
definition default_true :: bool where "default_true = True"
definition default_python_path :: string where "default_python_path = ''/usr/local/bin/python3''"
definition default_nodejs_path :: string where "default_nodejs_path = ''/usr/bin/node''"

definition default_zygote_modules :: "string list" where
  "default_zygote_modules =
     [''json'', ''re'', ''math'', ''datetime'', ''collections'', ''itertools'',
      ''functools'', ''base64'', ''hashlib'', ''random'', ''decimal'', ''string'', ''orjson'']"

definition default_sandbox_uid :: u32 where "default_sandbox_uid = 65537"
definition default_sandbox_gid :: u32 where "default_sandbox_gid = 65537"
definition default_python_max_as_bytes :: u64 where "default_python_max_as_bytes = 256 * 1024 * 1024"
definition default_nodejs_max_as_bytes :: u64 where "default_nodejs_max_as_bytes = 512 * 1024 * 1024"
definition default_nodejs_max_old_space_mb :: u32 where "default_nodejs_max_old_space_mb = 256"

definition default_python_lib_paths :: "string list" where
  "default_python_lib_paths =
     [''/usr/local/lib/python3.12'', ''/usr/lib/python3'', ''/usr/lib/x86_64-linux-gnu'',
      ''/etc/ssl/certs/ca-certificates.crt'', ''/etc/nsswitch.conf'', ''/etc/hosts'',
      ''/etc/resolv.conf'', ''/etc/localtime'']"

definition default_nodejs_lib_paths :: "string list" where
  "default_nodejs_lib_paths =
     [''/etc/ssl/certs/ca-certificates.crt'', ''/etc/nsswitch.conf'', ''/etc/resolv.conf'',
      ''/etc/hosts'']"

definition app_of_raw :: "raw_app_config \<Rightarrow> app_config" where
  "app_of_raw r =
     \<lparr>app_port = raw_port r, app_debug = or_default False (raw_debug r), app_key = raw_key r\<rparr>"

definition proxy_of_raw :: "raw_proxy_config \<Rightarrow> proxy_config" where
  "proxy_of_raw r =
     \<lparr>proxy_socks5 = or_default [] (raw_socks5 r), proxy_http = or_default [] (raw_http r),
      proxy_https = or_default [] (raw_https r)\<rparr>"

definition default_proxy :: proxy_config where
  "default_proxy = \<lparr>proxy_socks5 = [], proxy_http = [], proxy_https = []\<rparr>"

definition config_of_raw :: "raw_config \<Rightarrow> config" where
  "config_of_raw r =
     \<lparr>cfg_app = app_of_raw (raw_app r),
      cfg_max_workers = or_default default_max_workers (raw_max_workers r),
      cfg_worker_timeout = or_default default_worker_timeout (raw_worker_timeout r),
      cfg_enable_network = or_default default_true (raw_cfg_enable_network r),
      cfg_enable_preload = or_default False (raw_enable_preload r),
      cfg_privilege = or_default default_true (raw_privilege r),
      cfg_python_zygote = or_default False (raw_python_zygote r),
      cfg_python_zygote_preload_modules =
        or_default default_zygote_modules (raw_python_zygote_preload_modules r),
      cfg_python_path = or_default default_python_path (raw_python_path r),
      cfg_nodejs_path = or_default default_nodejs_path (raw_nodejs_path r),
      cfg_python_lib_paths = or_default default_python_lib_paths (raw_python_lib_paths r),
      cfg_nodejs_lib_paths = or_default default_nodejs_lib_paths (raw_nodejs_lib_paths r),
      cfg_sandbox_user = or_default [] (raw_sandbox_user r),
      cfg_sandbox_uid = or_default default_sandbox_uid (raw_sandbox_uid r),
      cfg_sandbox_gid = or_default default_sandbox_gid (raw_sandbox_gid r),
      cfg_python_max_as_bytes = or_default default_python_max_as_bytes (raw_python_max_as_bytes r),
      cfg_nodejs_max_as_bytes = or_default default_nodejs_max_as_bytes (raw_nodejs_max_as_bytes r),
      cfg_nodejs_max_old_space_mb =
        or_default default_nodejs_max_old_space_mb (raw_nodejs_max_old_space_mb r),
      cfg_proxy = (case raw_proxy r of None \<Rightarrow> default_proxy | Some p \<Rightarrow> proxy_of_raw p)\<rparr>"

subsection \<open>Environment overrides\<close>

type_synonym environment = "string \<Rightarrow> string option"

text \<open>\<^verbatim>\<open>if let Ok(v) = env::var(name) { if let Ok(p) = v.parse() { field = p; } }\<close>\<close>

definition env_parse :: "environment \<Rightarrow> string \<Rightarrow> (string \<Rightarrow> 'a option) \<Rightarrow> ('a \<Rightarrow> config \<Rightarrow> config) \<Rightarrow> config \<Rightarrow> config" where
  "env_parse env name parse assign c =
     (case env name of
        None \<Rightarrow> c
      | Some v \<Rightarrow> (case parse v of None \<Rightarrow> c | Some p \<Rightarrow> assign p c))"

text \<open>\<^verbatim>\<open>matches!(v.as_str(), "1" | "true" | "yes")\<close>\<close>

definition is_truthy :: "string \<Rightarrow> bool" where
  "is_truthy v = (v = ''1'' \<or> v = ''true'' \<or> v = ''yes'')"

definition split_paths :: "string \<Rightarrow> string list" where
  "split_paths v = map str_trim (str_split CHR '','' v)"

definition override_with_env :: "environment \<Rightarrow> config \<Rightarrow> config" where
  "override_with_env env c0 = (
     let c = env_parse env ''SANDBOX_PORT'' parse_u16 (\<lambda>p. cfg_app_update (app_port_update (\<lambda>u. p))) c0;
         c = env_parse env ''MAX_WORKERS'' parse_usize (\<lambda>p. cfg_max_workers_update (\<lambda>u. p)) c;
         c = env_parse env ''WORKER_TIMEOUT'' parse_u64 (\<lambda>p. cfg_worker_timeout_update (\<lambda>u. p)) c;
         c = env_parse env ''SANDBOX_API_KEY'' Some (\<lambda>v. cfg_app_update (app_key_update (\<lambda>u. v))) c;
         c = env_parse env ''PYTHON_PATH'' Some (\<lambda>v. cfg_python_path_update (\<lambda>u. v)) c;
         c = env_parse env ''NODEJS_PATH'' Some (\<lambda>v. cfg_nodejs_path_update (\<lambda>u. v)) c;
         c = env_parse env ''ENABLE_NETWORK'' Some (\<lambda>v. cfg_enable_network_update (\<lambda>u. is_truthy v)) c;
         c = env_parse env ''ENABLE_PRELOAD'' Some (\<lambda>v. cfg_enable_preload_update (\<lambda>u. is_truthy v)) c;
         c = env_parse env ''PRIVILEGE'' Some (\<lambda>v. cfg_privilege_update (\<lambda>u. is_truthy v)) c;
         c = env_parse env ''PYTHON_ZYGOTE'' Some (\<lambda>v. cfg_python_zygote_update (\<lambda>u. is_truthy v)) c;
         c = env_parse env ''PYTHON_LIB_PATH'' Some (\<lambda>v. cfg_python_lib_paths_update (\<lambda>u. split_paths v)) c;
         c = env_parse env ''NODEJS_LIB_PATH'' Some (\<lambda>v. cfg_nodejs_lib_paths_update (\<lambda>u. split_paths v)) c;
         c = env_parse env ''PYTHON_MAX_AS_BYTES'' parse_u64 (\<lambda>n. cfg_python_max_as_bytes_update (\<lambda>u. n)) c;
         c = env_parse env ''NODEJS_MAX_AS_BYTES'' parse_u64 (\<lambda>n. cfg_nodejs_max_as_bytes_update (\<lambda>u. n)) c;
         c = env_parse env ''NODEJS_MAX_OLD_SPACE_MB'' parse_u32
               (\<lambda>n. cfg_nodejs_max_old_space_mb_update (\<lambda>u. n)) c;
         c = env_parse env ''NODE_MAX_OLD_SPACE_MB'' parse_u32
               (\<lambda>n. cfg_nodejs_max_old_space_mb_update (\<lambda>u. n)) c;
         c = env_parse env ''SOCKS5_PROXY'' Some (\<lambda>v. cfg_proxy_update (proxy_socks5_update (\<lambda>u. v))) c;
         c = env_parse env ''HTTP_PROXY'' Some (\<lambda>v. cfg_proxy_update (proxy_http_update (\<lambda>u. v))) c;
         c = env_parse env ''HTTPS_PROXY'' Some (\<lambda>v. cfg_proxy_update (proxy_https_update (\<lambda>u. v))) c
     in c)"

text \<open>\<^verbatim>\<open>Config::load\<close>: read, parse, override; the first failure is returned.\<close>

definition load_config ::
  "(string \<Rightarrow> (string, 'e) result) \<Rightarrow> (string \<Rightarrow> (raw_config, 'e) result) \<Rightarrow> environment \<Rightarrow> string
     \<Rightarrow> (config, 'e) result" where
  "load_config read_to_string toml_from_str env path =
     and_then (read_to_string path) (\<lambda>content.
     and_then (toml_from_str content) (\<lambda>raw.
       Inr (override_with_env env (config_of_raw raw))))"

section \<open>Facts\<close>

text \<open>
  What one override does to one field: the field it assigns takes the value, if there is a
  valid one; every other field is left alone.
\<close>

definition env_value :: "environment \<Rightarrow> string \<Rightarrow> (string \<Rightarrow> 'a option) \<Rightarrow> 'a option" where
  "env_value env name parse = Option.bind (env name) parse"

lemma env_parse_conv:
  "env_parse env name parse assign c = (case env_value env name parse of None \<Rightarrow> c | Some p \<Rightarrow> assign p c)"
  by (simp add: env_parse_def env_value_def split: option.splits)

lemma field_env_parse:
  assumes "\<And>p c d. f (assign p c) = f (assign p d)"
  shows "f (env_parse env name parse assign c) =
    or_default (f c) (map_option (\<lambda>p. f (assign p c)) (env_value env name parse))"
  by (simp add: env_parse_conv or_default_def split: option.splits)

lemma field_env_parse_other:
  assumes "\<And>p c. f (assign p c) = f c"
  shows "f (env_parse env name parse assign c) = f c"
  using assms by (simp add: env_parse_conv split: option.splits)

lemmas own_field =
  field_env_parse [where f = "\<lambda>c. app_port (cfg_app c)"] field_env_parse [where f = "\<lambda>c. app_key (cfg_app c)"]
  field_env_parse [where f = cfg_max_workers] field_env_parse [where f = cfg_worker_timeout]
  field_env_parse [where f = cfg_enable_network] field_env_parse [where f = cfg_enable_preload]
  field_env_parse [where f = cfg_privilege] field_env_parse [where f = cfg_python_zygote]
  field_env_parse [where f = cfg_python_path] field_env_parse [where f = cfg_nodejs_path]
  field_env_parse [where f = cfg_python_lib_paths] field_env_parse [where f = cfg_nodejs_lib_paths]
  field_env_parse [where f = cfg_python_max_as_bytes] field_env_parse [where f = cfg_nodejs_max_as_bytes]
  field_env_parse [where f = cfg_nodejs_max_old_space_mb]
  field_env_parse [where f = "\<lambda>c. proxy_socks5 (cfg_proxy c)"]
  field_env_parse [where f = "\<lambda>c. proxy_http (cfg_proxy c)"]
  field_env_parse [where f = "\<lambda>c. proxy_https (cfg_proxy c)"]

lemmas other_field =
  field_env_parse_other [where f = "\<lambda>c. app_port (cfg_app c)"]
  field_env_parse_other [where f = "\<lambda>c. app_debug (cfg_app c)"]
  field_env_parse_other [where f = "\<lambda>c. app_key (cfg_app c)"]
  field_env_parse_other [where f = cfg_max_workers] field_env_parse_other [where f = cfg_worker_timeout]
  field_env_parse_other [where f = cfg_enable_network] field_env_parse_other [where f = cfg_enable_preload]
  field_env_parse_other [where f = cfg_privilege] field_env_parse_other [where f = cfg_python_zygote]
  field_env_parse_other [where f = cfg_python_zygote_preload_modules]
  field_env_parse_other [where f = cfg_python_path] field_env_parse_other [where f = cfg_nodejs_path]
  field_env_parse_other [where f = cfg_python_lib_paths] field_env_parse_other [where f = cfg_nodejs_lib_paths]
  field_env_parse_other [where f = cfg_sandbox_user] field_env_parse_other [where f = cfg_sandbox_uid]
  field_env_parse_other [where f = cfg_sandbox_gid] field_env_parse_other [where f = cfg_python_max_as_bytes]
  field_env_parse_other [where f = cfg_nodejs_max_as_bytes]
  field_env_parse_other [where f = cfg_nodejs_max_old_space_mb]
  field_env_parse_other [where f = "\<lambda>c. proxy_socks5 (cfg_proxy c)"]
  field_env_parse_other [where f = "\<lambda>c. proxy_http (cfg_proxy c)"]
  field_env_parse_other [where f = "\<lambda>c. proxy_https (cfg_proxy c)"]

text \<open>The first of several sources that has a value gives it.\<close>

fun first_of :: "'a option list \<Rightarrow> 'a \<Rightarrow> 'a" where
  "first_of [] d = d"
| "first_of (Some v # xs) d = v"
| "first_of (None # xs) d = first_of xs d"

lemma or_default_first_of: "or_default (first_of xs d) x = first_of (x # xs) d"
  by (cases x) (simp_all add: or_default_def)

lemma or_default_raw: "or_default d x = first_of [x] d"
  by (cases x) (simp_all add: or_default_def)

lemma override_fields:
  "app_port (cfg_app (override_with_env env c)) = or_default (app_port (cfg_app c)) (env_value env ''SANDBOX_PORT'' parse_u16)"
  "app_debug (cfg_app (override_with_env env c)) = app_debug (cfg_app c)"
  "app_key (cfg_app (override_with_env env c)) = or_default (app_key (cfg_app c)) (env ''SANDBOX_API_KEY'')"
  "cfg_max_workers (override_with_env env c) = or_default (cfg_max_workers c) (env_value env ''MAX_WORKERS'' parse_usize)"
  "cfg_worker_timeout (override_with_env env c) = or_default (cfg_worker_timeout c) (env_value env ''WORKER_TIMEOUT'' parse_u64)"
  "cfg_enable_network (override_with_env env c) = or_default (cfg_enable_network c) (map_option is_truthy (env ''ENABLE_NETWORK''))"
  "cfg_enable_preload (override_with_env env c) = or_default (cfg_enable_preload c) (map_option is_truthy (env ''ENABLE_PRELOAD''))"
  "cfg_privilege (override_with_env env c) = or_default (cfg_privilege c) (map_option is_truthy (env ''PRIVILEGE''))"
  "cfg_python_zygote (override_with_env env c) = or_default (cfg_python_zygote c) (map_option is_truthy (env ''PYTHON_ZYGOTE''))"
  "cfg_python_zygote_preload_modules (override_with_env env c) = cfg_python_zygote_preload_modules c"
  "cfg_python_path (override_with_env env c) = or_default (cfg_python_path c) (env ''PYTHON_PATH'')"
  "cfg_nodejs_path (override_with_env env c) = or_default (cfg_nodejs_path c) (env ''NODEJS_PATH'')"
  "cfg_python_lib_paths (override_with_env env c) = or_default (cfg_python_lib_paths c) (map_option split_paths (env ''PYTHON_LIB_PATH''))"
  "cfg_nodejs_lib_paths (override_with_env env c) = or_default (cfg_nodejs_lib_paths c) (map_option split_paths (env ''NODEJS_LIB_PATH''))"
  "cfg_sandbox_user (override_with_env env c) = cfg_sandbox_user c"
  "cfg_sandbox_uid (override_with_env env c) = cfg_sandbox_uid c"
  "cfg_sandbox_gid (override_with_env env c) = cfg_sandbox_gid c"
  "cfg_python_max_as_bytes (override_with_env env c) = or_default (cfg_python_max_as_bytes c) (env_value env ''PYTHON_MAX_AS_BYTES'' parse_u64)"
  "cfg_nodejs_max_as_bytes (override_with_env env c) = or_default (cfg_nodejs_max_as_bytes c) (env_value env ''NODEJS_MAX_AS_BYTES'' parse_u64)"
  "cfg_nodejs_max_old_space_mb (override_with_env env c) =
     or_default (or_default (cfg_nodejs_max_old_space_mb c) (env_value env ''NODEJS_MAX_OLD_SPACE_MB'' parse_u32))
       (env_value env ''NODE_MAX_OLD_SPACE_MB'' parse_u32)"
  "proxy_socks5 (cfg_proxy (override_with_env env c)) = or_default (proxy_socks5 (cfg_proxy c)) (env ''SOCKS5_PROXY'')"
  "proxy_http (cfg_proxy (override_with_env env c)) = or_default (proxy_http (cfg_proxy c)) (env ''HTTP_PROXY'')"
  "proxy_https (cfg_proxy (override_with_env env c)) = or_default (proxy_https (cfg_proxy c)) (env ''HTTPS_PROXY'')"
  by (simp_all add: override_with_env_def own_field other_field env_value_def bind_map_option option.map_id0 option.map_ident)

lemmas raw_fields =
  config_of_raw_def app_of_raw_def proxy_of_raw_def default_proxy_def

text \<open>The environment of a configuration file without a \<^verbatim>\<open>[proxy]\<close> table.\<close>

definition raw_proxy_field :: "(raw_proxy_config \<Rightarrow> string option) \<Rightarrow> raw_config \<Rightarrow> string option" where
  "raw_proxy_field f r = Option.bind (raw_proxy r) f"

lemma load_config_Inr_iff:
  "load_config rd toml env path = Inr c \<longleftrightarrow>
     (\<exists>content raw. rd path = Inr content \<and> toml content = Inr raw \<and> c = override_with_env env (config_of_raw raw))"
  by (auto simp: load_config_def and_then_Inr_iff)

lemma config_equality:
  assumes "app_port (cfg_app a) = app_port (cfg_app b)" "app_debug (cfg_app a) = app_debug (cfg_app b)"
    "app_key (cfg_app a) = app_key (cfg_app b)" "cfg_max_workers a = cfg_max_workers b"
    "cfg_worker_timeout a = cfg_worker_timeout b" "cfg_enable_network a = cfg_enable_network b"
    "cfg_enable_preload a = cfg_enable_preload b" "cfg_privilege a = cfg_privilege b"
    "cfg_python_zygote a = cfg_python_zygote b"
    "cfg_python_zygote_preload_modules a = cfg_python_zygote_preload_modules b"
    "cfg_python_path a = cfg_python_path b" "cfg_nodejs_path a = cfg_nodejs_path b"
    "cfg_python_lib_paths a = cfg_python_lib_paths b" "cfg_nodejs_lib_paths a = cfg_nodejs_lib_paths b"
    "cfg_sandbox_user a = cfg_sandbox_user b" "cfg_sandbox_uid a = cfg_sandbox_uid b"
    "cfg_sandbox_gid a = cfg_sandbox_gid b" "cfg_python_max_as_bytes a = cfg_python_max_as_bytes b"
    "cfg_nodejs_max_as_bytes a = cfg_nodejs_max_as_bytes b"
    "cfg_nodejs_max_old_space_mb a = cfg_nodejs_max_old_space_mb b"
    "proxy_socks5 (cfg_proxy a) = proxy_socks5 (cfg_proxy b)"
    "proxy_http (cfg_proxy a) = proxy_http (cfg_proxy b)" "proxy_https (cfg_proxy a) = proxy_https (cfg_proxy b)"
  shows "a = (b :: config)"
proof -
  have "cfg_app a = cfg_app b" by (rule app_config.equality) (use assms in simp_all)
  moreover have "cfg_proxy a = cfg_proxy b" by (rule proxy_config.equality) (use assms in simp_all)
  ultimately show ?thesis by (intro config.equality) (use assms in simp_all)
qed

lemma override_unset: "(\<And>v. env v = None) \<Longrightarrow> override_with_env env c = c"
  by (rule config_equality) (simp_all add: override_fields or_default_def env_value_def)

lemma proxy_env_vars_lookup:
  "map_of (proxy_env_vars p) ''HTTPS_PROXY'' =
     (if proxy_socks5 p \<noteq> [] then Some (proxy_socks5 p) else non_empty (proxy_https p))"
  "map_of (proxy_env_vars p) ''HTTP_PROXY'' =
     (if proxy_socks5 p \<noteq> [] then Some (proxy_socks5 p) else non_empty (proxy_http p))"
  by (simp_all add: proxy_env_vars_def socks5_option_def http_option_def https_option_def non_empty_def
      push_var_def)

text \<open>The configuration file shipped with the program, and an environment that overrides parts of it.\<close>

definition shipped_config :: raw_config where
  "shipped_config =
     \<lparr>raw_app = \<lparr>raw_port = 8194, raw_debug = Some False, raw_key = ''sandbox''\<rparr>,
      raw_max_workers = Some 4, raw_worker_timeout = Some 15, raw_cfg_enable_network = Some True,
      raw_enable_preload = Some False, raw_privilege = Some True, raw_python_zygote = Some True,
      raw_python_zygote_preload_modules = None,
      raw_python_path = Some ''/usr/local/bin/python3'', raw_nodejs_path = Some ''/usr/bin/node'',
      raw_python_lib_paths = None, raw_nodejs_lib_paths = None,
      raw_sandbox_user = Some ''sandbox'', raw_sandbox_uid = Some 65537, raw_sandbox_gid = Some 65537,
      raw_python_max_as_bytes = Some 268435456, raw_nodejs_max_as_bytes = Some 536870912,
      raw_nodejs_max_old_space_mb = Some 256,
      raw_proxy = Some \<lparr>raw_socks5 = Some [], raw_http = Some [], raw_https = Some []\<rparr>\<rparr>"

lemma shipped_fields:
  "raw_max_workers shipped_config = Some 4" "raw_worker_timeout shipped_config = Some 15"
  "raw_sandbox_uid shipped_config = Some 65537" "raw_sandbox_gid shipped_config = Some 65537"
  by (simp_all add: shipped_config_def)

definition example_env :: environment where
  "example_env = map_of [(''MAX_WORKERS'', ''8''), (''WORKER_TIMEOUT'', ''soon''), (''ENABLE_NETWORK'', ''on''),
     (''PYTHON_LIB_PATH'', ''/opt/lib, /opt/share'')]"

lemma example_loads:
  "load_config (\<lambda>p. Inr ''text'') (\<lambda>s. Inr shipped_config) example_env ''config.toml'' =
     (Inr (override_with_env example_env (config_of_raw shipped_config)) :: (config, string) result)"
  by (simp add: load_config_def)

section \<open>Properties\<close>

text \<open>Precedence of the sources of a configuration. A configuration that loads takes every value
  from the environment if a valid one is there, else from the file, else from the default; the
  old name \<^verbatim>\<open>NODE_MAX_OLD_SPACE_MB\<close> goes before the new one. A number that does not parse is
  ignored; a switch that is set to anything but \<^verbatim>\<open>1\<close>, \<^verbatim>\<open>true\<close> or \<^verbatim>\<open>yes\<close> is off.\<close>

theorem config_precedence:
  assumes "load_config rd toml env path = Inr c"
  shows "\<exists>content r. rd path = Inr content \<and> toml content = Inr r
    \<and> app_port (cfg_app c) = first_of [env_value env ''SANDBOX_PORT'' parse_u16] (raw_port (raw_app r))
    \<and> app_key (cfg_app c) = first_of [env ''SANDBOX_API_KEY''] (raw_key (raw_app r))
    \<and> cfg_max_workers c = first_of [env_value env ''MAX_WORKERS'' parse_usize, raw_max_workers r] 4
    \<and> cfg_worker_timeout c = first_of [env_value env ''WORKER_TIMEOUT'' parse_u64, raw_worker_timeout r] 30
    \<and> cfg_enable_network c = first_of [map_option is_truthy (env ''ENABLE_NETWORK''), raw_cfg_enable_network r] True
    \<and> cfg_enable_preload c = first_of [map_option is_truthy (env ''ENABLE_PRELOAD''), raw_enable_preload r] False
    \<and> cfg_privilege c = first_of [map_option is_truthy (env ''PRIVILEGE''), raw_privilege r] True
    \<and> cfg_python_zygote c = first_of [map_option is_truthy (env ''PYTHON_ZYGOTE''), raw_python_zygote r] False
    \<and> cfg_python_path c = first_of [env ''PYTHON_PATH'', raw_python_path r] ''/usr/local/bin/python3''
    \<and> cfg_nodejs_path c = first_of [env ''NODEJS_PATH'', raw_nodejs_path r] ''/usr/bin/node''
    \<and> cfg_python_lib_paths c =
        first_of [map_option split_paths (env ''PYTHON_LIB_PATH''), raw_python_lib_paths r] default_python_lib_paths
    \<and> cfg_nodejs_lib_paths c =
        first_of [map_option split_paths (env ''NODEJS_LIB_PATH''), raw_nodejs_lib_paths r] default_nodejs_lib_paths
    \<and> cfg_python_max_as_bytes c =
        first_of [env_value env ''PYTHON_MAX_AS_BYTES'' parse_u64, raw_python_max_as_bytes r] (256 * 1024 * 1024)
    \<and> cfg_nodejs_max_as_bytes c =
        first_of [env_value env ''NODEJS_MAX_AS_BYTES'' parse_u64, raw_nodejs_max_as_bytes r] (512 * 1024 * 1024)
    \<and> cfg_nodejs_max_old_space_mb c =
        first_of [env_value env ''NODE_MAX_OLD_SPACE_MB'' parse_u32,
                  env_value env ''NODEJS_MAX_OLD_SPACE_MB'' parse_u32, raw_nodejs_max_old_space_mb r] 256
    \<and> proxy_socks5 (cfg_proxy c) = first_of [env ''SOCKS5_PROXY'', raw_proxy_field raw_socks5 r] []
    \<and> proxy_http (cfg_proxy c) = first_of [env ''HTTP_PROXY'', raw_proxy_field raw_http r] []
    \<and> proxy_https (cfg_proxy c) = first_of [env ''HTTPS_PROXY'', raw_proxy_field raw_https r] []"
proof -
  obtain content r where r: "rd path = Inr content" "toml content = Inr r"
      and c: "c = override_with_env env (config_of_raw r)"
    using assms by (auto simp: load_config_Inr_iff)
  have proxy: "proxy_socks5 (cfg_proxy (config_of_raw r)) = first_of [raw_proxy_field raw_socks5 r] []"
    "proxy_http (cfg_proxy (config_of_raw r)) = first_of [raw_proxy_field raw_http r] []"
    "proxy_https (cfg_proxy (config_of_raw r)) = first_of [raw_proxy_field raw_https r] []"
    by (cases "raw_proxy r"; simp add: raw_fields raw_proxy_field_def or_default_raw)+
  show ?thesis
    unfolding c override_fields proxy
    by (intro exI conjI; (rule r | simp add: raw_fields or_default_raw or_default_first_of
        default_max_workers_def default_worker_timeout_def default_true_def default_python_path_def
        default_nodejs_path_def default_python_max_as_bytes_def default_nodejs_max_as_bytes_def
        default_nodejs_max_old_space_mb_def del: first_of.simps)?)
      (simp_all add: or_default_raw [symmetric] or_default_def split: option.splits)
qed

theorem config_precedence_witness:
  "\<exists>c. load_config (\<lambda>p. Inr ''text'') (\<lambda>s. Inr shipped_config) example_env ''config.toml'' =
      (Inr c :: (config, string) result)
     \<and> cfg_max_workers c = 8 \<and> cfg_worker_timeout c = 15 \<and> \<not> cfg_enable_network c"
proof -
  let ?c = "override_with_env example_env (config_of_raw shipped_config)"
  have parsed: "env_value example_env ''MAX_WORKERS'' parse_usize = Some 8"
    "env_value example_env ''WORKER_TIMEOUT'' parse_u64 = None"
    "map_option is_truthy (example_env ''ENABLE_NETWORK'') = Some False"
    by (simp_all add: env_value_def example_env_def parse_usize_def parse_u64_def parse_unsigned_def
        parse_nat_def digit_val_def usize_max_def is_truthy_def)
  show ?thesis
    by (rule exI [of _ ?c], rule exE [OF config_precedence [OF example_loads]], elim exE conjE Inr_inject [elim_format],
        hypsubst, simp only: parsed example_loads shipped_fields) simp
qed

text \<open>The environment cannot change the identity the sandboxed code runs under: user and group
  come from the file alone, and a file that does not name a group gives the non-root group
  65537.\<close>

theorem sandbox_identity_from_file:
  assumes "load_config rd toml env path = Inr c"
  shows "\<exists>content r. rd path = Inr content \<and> toml content = Inr r
    \<and> cfg_sandbox_uid c = first_of [raw_sandbox_uid r] 65537
    \<and> cfg_sandbox_gid c = first_of [raw_sandbox_gid r] 65537
    \<and> (raw_sandbox_gid r = None \<longrightarrow> cfg_sandbox_gid c \<noteq> 0)"
  using assms
  by (auto simp: load_config_Inr_iff override_fields raw_fields or_default_raw default_sandbox_uid_def
      default_sandbox_gid_def)

theorem sandbox_identity_from_file_witness:
  "\<exists>c. load_config (\<lambda>p. Inr ''text'') (\<lambda>s. Inr shipped_config) example_env ''config.toml'' =
      (Inr c :: (config, string) result)
     \<and> cfg_sandbox_uid c = 65537 \<and> cfg_sandbox_gid c = 65537"
  using sandbox_identity_from_file [OF example_loads] example_loads
  by (auto simp: shipped_config_def)

text \<open>The proxy variables of a child process: a SOCKS5 proxy serves both protocols; without it each
  protocol has its own proxy. No variable is set twice, none is set to the empty string, and
  nothing else is set.\<close>

theorem proxy_vars_precedence:
  "map_of (proxy_env_vars p) ''HTTPS_PROXY'' = (case socks5_option p of Some s \<Rightarrow> Some s | None \<Rightarrow> https_option p)
   \<and> map_of (proxy_env_vars p) ''HTTP_PROXY'' = (case socks5_option p of Some s \<Rightarrow> Some s | None \<Rightarrow> http_option p)
   \<and> distinct (map fst (proxy_env_vars p))
   \<and> set (map fst (proxy_env_vars p)) \<subseteq> {''HTTPS_PROXY'', ''HTTP_PROXY''}
   \<and> [] \<notin> set (map snd (proxy_env_vars p))"
  by (auto simp: proxy_env_vars_lookup socks5_option_def http_option_def https_option_def non_empty_def
      proxy_env_vars_def push_var_def)

text \<open>A list of library paths is handed over intact by the environment: joining paths that contain no
  comma and no surrounding white space gives a variable that the server reads back as the same
  list.\<close>

theorem lib_paths_roundtrip:
  assumes "ps \<noteq> []" and "\<forall>p\<in>set ps. CHR '','' \<notin> set p \<and> str_trim p = p"
    and "env ''PYTHON_LIB_PATH'' = Some (str_join '','' ps)"
  shows "cfg_python_lib_paths (override_with_env env c) = ps"
proof -
  have "split_paths (str_join '','' ps) = ps"
    using assms(1,2) by (simp add: split_paths_def str_split_join map_idI)
  with assms(3) show ?thesis
    by (simp add: override_fields or_default_def)
qed

theorem lib_paths_roundtrip_witness:
  "cfg_python_lib_paths (override_with_env (map_of [(''PYTHON_LIB_PATH'', ''/usr/lib,/opt/lib'')])
     (config_of_raw shipped_config)) = [''/usr/lib'', ''/opt/lib'']"
proof -
  have "not_ws (CHR ''/'')" "not_ws (CHR ''b'')"
    by (simp_all add: not_ws_def ws_seqs_def char_byte_def)
  then have trim: "str_trim ''/usr/lib'' = ''/usr/lib''" "str_trim ''/opt/lib'' = ''/opt/lib''"
    by (simp_all add: str_trim_id)
  show ?thesis
    by (rule lib_paths_roundtrip) (simp_all add: trim)
qed

end
