(* ===== verification/Process.thy ===== *)
theory Process
  imports Services Config
begin

text \<open>
  Child processes as the server uses them: the builder \<^verbatim>\<open>tokio::process::Command\<close> as a record, and
  the ways in which starting a child, feeding it and waiting for it can end. The operating system
  is the parameter \<open>os\<close>: it maps a command, the bytes written to the standard input and a time
  limit in seconds to an outcome.
\<close>

section \<open>Model\<close>

record command =
  cmd_program :: string
  cmd_args :: "string list"
  cmd_env_clear :: bool
  cmd_envs :: "(string, string) table"
  cmd_dir :: "string option"
  cmd_stdin_piped :: bool
  cmd_stdin_null :: bool
  cmd_stdout_piped :: bool
  cmd_stderr_piped :: bool
  cmd_kill_on_drop :: bool

definition command_new :: "string \<Rightarrow> command" where
  "command_new prog =
     \<lparr>cmd_program = prog, cmd_args = [], cmd_env_clear = False, cmd_envs = [], cmd_dir = None,
      cmd_stdin_piped = False, cmd_stdin_null = False, cmd_stdout_piped = False, cmd_stderr_piped = False,
      cmd_kill_on_drop = False\<rparr>"

definition with_args :: "string list \<Rightarrow> command \<Rightarrow> command" where
  "with_args as c = c\<lparr>cmd_args := cmd_args c @ as\<rparr>"

definition with_env :: "string \<Rightarrow> string \<Rightarrow> command \<Rightarrow> command" where
  "with_env k v c = c\<lparr>cmd_envs := AList.update k v (cmd_envs c)\<rparr>"

definition with_envs :: "(string \<times> string) list \<Rightarrow> command \<Rightarrow> command" where
  "with_envs kvs c = fold (\<lambda>(k, v). with_env k v) kvs c"

definition env_clear :: "command \<Rightarrow> command" where
  "env_clear c = c\<lparr>cmd_env_clear := True, cmd_envs := []\<rparr>"

text \<open>\<^verbatim>\<open>if let Ok(path) = std::env::var("PATH") { cmd.env("PATH", &path); }\<close>\<close>

definition pass_path :: "environment \<Rightarrow> command \<Rightarrow> command" where
  "pass_path env c = (case env ''PATH'' of None \<Rightarrow> c | Some p \<Rightarrow> with_env ''PATH'' p c)"

definition piped_all :: "command \<Rightarrow> command" where
  "piped_all c = c\<lparr>cmd_stdin_piped := True, cmd_stdout_piped := True, cmd_stderr_piped := True\<rparr>"

definition piped_output :: "command \<Rightarrow> command" where
  "piped_output c = c\<lparr>cmd_stdout_piped := True, cmd_stderr_piped := True\<rparr>"

definition stdin_null :: "command \<Rightarrow> command" where
  "stdin_null c = c\<lparr>cmd_stdin_null := True\<rparr>"

definition in_dir :: "string \<Rightarrow> command \<Rightarrow> command" where
  "in_dir d c = c\<lparr>cmd_dir := Some d\<rparr>"

definition kill_on_drop :: "command \<Rightarrow> command" where
  "kill_on_drop c = c\<lparr>cmd_kill_on_drop := True\<rparr>"

text \<open>The environment a child starts with, given that of the server.\<close>

definition child_env :: "environment \<Rightarrow> command \<Rightarrow> environment" where
  "child_env env c = (\<lambda>k. case map_of (cmd_envs c) k of
      Some v \<Rightarrow> Some v
    | None \<Rightarrow> if cmd_env_clear c then None else env k)"

datatype outcome =
    Spawn_failed string
  | Stdin_failed string
  | Timed_out
  | Wait_failed string
  | Exited bytes bytes i32

type_synonym os = "command \<Rightarrow> bytes \<Rightarrow> u64 option \<Rightarrow> outcome"

text \<open>\<^verbatim>\<open>wait_with_output\<close> collects a stream only if it is piped.\<close>

definition captured :: "bool \<Rightarrow> bytes \<Rightarrow> bytes" where
  "captured piped bs = (if piped then bs else [])"

text \<open>
  What both runners do with their child: write the script to its standard input, wait for it within
  the time limit, and read its output leniently as UTF-8. The messages of the errors that
  \<^verbatim>\<open>map_err\<close> builds differ in the name of the program only.
\<close>

definition run_child :: "os \<Rightarrow> string \<Rightarrow> command \<Rightarrow> bytes \<Rightarrow> u64 \<Rightarrow> (execution_result, string) result" where
  "run_child os name cmd script timeout_secs =
     (case os cmd script (Some timeout_secs) of
        Spawn_failed e \<Rightarrow> Inl (''spawn '' @ name @ '': '' @ e)
      | Stdin_failed e \<Rightarrow> Inl (''stdin write: '' @ e)
      | Timed_out \<Rightarrow> Inl ''Execution timeout''
      | Wait_failed e \<Rightarrow> Inl (''process: '' @ e)
      | Exited out err status \<Rightarrow> Inr
          \<lparr>ex_stdout = bytes_str (from_utf8_lossy (captured (cmd_stdout_piped cmd) out)),
           ex_stderr = bytes_str (from_utf8_lossy (captured (cmd_stderr_piped cmd) err)),
           ex_exit_code = exit_code_from_status status\<rparr>)"

text \<open>Both runners ignore the preload unless it is enabled, and grant network access only if the request
  and the configuration both do.\<close>

definition checked_preload :: "config \<Rightarrow> string \<Rightarrow> string" where
  "checked_preload config preload = (if cfg_enable_preload config then preload else [])"

definition network_enabled :: "config \<Rightarrow> runner_options \<Rightarrow> bool" where
  "network_enabled config options = (opt_enable_network options \<and> cfg_enable_network config)"

section \<open>Facts\<close>

lemmas command_defs =
  command_new_def with_args_def with_env_def env_clear_def pass_path_def piped_all_def piped_output_def
  stdin_null_def in_dir_def kill_on_drop_def

lemma with_envs_fields [simp]:
  "cmd_program (with_envs kvs c) = cmd_program c" "cmd_args (with_envs kvs c) = cmd_args c"
  "cmd_env_clear (with_envs kvs c) = cmd_env_clear c" "cmd_dir (with_envs kvs c) = cmd_dir c"
  "cmd_stdin_piped (with_envs kvs c) = cmd_stdin_piped c" "cmd_stdin_null (with_envs kvs c) = cmd_stdin_null c"
  "cmd_stdout_piped (with_envs kvs c) = cmd_stdout_piped c"
  "cmd_stderr_piped (with_envs kvs c) = cmd_stderr_piped c"
  "cmd_kill_on_drop (with_envs kvs c) = cmd_kill_on_drop c"
  by (induction kvs arbitrary: c) (auto simp: with_envs_def with_env_def)

lemma map_of_with_envs:
  "map_of (cmd_envs (with_envs kvs c)) k = (case map_of (rev kvs) k of Some v \<Rightarrow> Some v | None \<Rightarrow> map_of (cmd_envs c) k)"
proof (induction kvs arbitrary: c)
  case (Cons kv kvs)
  then show ?case
    by (cases kv) (auto simp: with_envs_def with_env_def table_simps map_add_def split: option.splits)
qed (simp add: with_envs_def)

lemma with_envs_other: "k \<notin> set (map fst kvs) \<Longrightarrow> map_of (cmd_envs (with_envs kvs c)) k = map_of (cmd_envs c) k"
  by (simp add: map_of_with_envs map_of_eq_None_iff [THEN iffD2])

lemma proxy_vars_rev: "map_of (rev (proxy_env_vars p)) = map_of (proxy_env_vars p)"
  by (simp add: proxy_env_vars_def push_var_def fun_eq_iff split: option.split)

lemma proxy_vars_keys: "k \<noteq> ''HTTP_PROXY'' \<Longrightarrow> k \<noteq> ''HTTPS_PROXY'' \<Longrightarrow> map_of (proxy_env_vars p) k = None"
  by (simp add: proxy_env_vars_def push_var_def split: option.split)

end
