(* ===== verification/Template.thy ===== *)
theory Template
  imports Rust_Std
begin

text \<open>
  The two scripts \<^verbatim>\<open>runtime/prescript.py\<close> and \<^verbatim>\<open>runtime/prescript.js\<close>, which the server embeds at
  compile time (\<^verbatim>\<open>include_str!\<close>), and what \<^verbatim>\<open>str::replace\<close> does to them. A script is a list of
  literal pieces and holes; its text has \<^verbatim>\<open>{{name}}\<close> for each hole.
\<close>

section \<open>Pieces\<close>

datatype piece = Lit string | Hole string

definition hole :: "string \<Rightarrow> string" where
  "hole h = ''{{'' @ h @ ''}}''"

fun piece_text :: "piece \<Rightarrow> string" where
  "piece_text (Lit s) = s"
| "piece_text (Hole h) = hole h"

definition template_text :: "piece list \<Rightarrow> string" where
  "template_text ps = concat (map piece_text ps)"

definition unlines :: "string list \<Rightarrow> string" where
  "unlines ls = str_join [CHR 0x0A] ls"

fun fill :: "string \<Rightarrow> string \<Rightarrow> piece \<Rightarrow> piece" where
  "fill h v (Lit s) = Lit s"
| "fill h v (Hole k) = (if k = h then Lit v else Hole k)"

section \<open>The scripts\<close>

definition prescript_py :: "piece list" where
  \<open>prescript_py =
     [Lit (unlines
         [''import ctypes'',
          ''import os'',
          ''import sys'',
          ''import traceback'',
          ''from base64 import b64decode'',
          [],
          [],
          ''# Setup exception hook'',
          ''def excepthook(etype, value, tb):'',
          ''    sys.stderr.write("".join(traceback.format_exception(etype, value, tb)))'',
          ''    sys.stderr.flush()'',
          ''    sys.exit(-1)'',
          [],
          [],
          ''sys.excepthook = excepthook'',
          [],
          ''# Load security library if available'',
          ''lib = ctypes.CDLL("./libpython.so")'',
          ''lib.init_seccomp.argtypes = [ctypes.c_uint32, ctypes.c_uint32, ctypes.c_bool, ctypes.c_uint64, ctypes.c_bool]'',
          ''lib.init_seccomp.restype = ctypes.c_int'',
          [],
          ''lib.apply_landlock.argtypes = [ctypes.POINTER(ctypes.c_char_p)]'',
          ''lib.apply_landlock.restype = ctypes.c_int'',
          [],
          ''# Get running path'',
          ''running_path = sys.argv[1]'',
          ''if not running_path:'',
          ''    exit(-1)'',
          [],
          ''# Get decrypt key'',
          ''key = sys.argv[2]'',
          ''if not key:'',
          ''    exit(-1)'',
          [],
          ''key = b64decode(key)'',
          [],
          ''os.chdir(running_path)'',
          [],
          ''# Drop empty / relative entries from sys.path before applying the sandbox.'',
          ''# Resolving an empty "" entry (cwd) during import calls getcwd(), which is not'',
          ''# in the seccomp allowlist and would kill the process with SIGSYS. The remaining'',
          ''# absolute entries (stdlib, etc.) resolve fine after chroot, so we keep only'',
          ''# non-empty absolute paths.'',
          ''sys.path = [p for p in sys.path if p]'',
          [],
          ''# Apply security if library is available'',
          ''privilege = '']),
      Hole ''privilege'',
      Lit (unlines
         [[],
          ''if not privilege:'',
          ''    # Non-privileged mode: apply Landlock for all allowed paths before seccomp'',
          ''    import json'',
          ''    allowed = json.loads("""'']),
      Hole ''allowed_paths'',
      Lit (unlines
         [''""")'',
          ''    arr = (ctypes.c_char_p * (len(allowed) + 1))()'',
          ''    for i, p in enumerate(allowed):'',
          ''        arr[i] = p.encode()'',
          ''    arr[-1] = None'',
          ''    rc = lib.apply_landlock(arr)'',
          ''    if rc != 0:'',
          ''        raise Exception(f"Landlock failed - {str(rc)}")'',
          ''init_status = lib.init_seccomp('']),
      Hole ''uid'',
      Lit (unlines
         ['', '']),
      Hole ''gid'',
      Lit (unlines
         ['', '']),
      Hole ''enable_network'',
      Lit (unlines
         ['', '']),
      Hole ''max_as'',
      Lit (unlines
         ['', privilege)'',
          ''if init_status != 0:'',
          ''    raise Exception(f"code executor err - {str(init_status)}")'',
          ''del lib'',
          [],
          ''# Preload code'',
          []]),
      Hole ''preload'',
      Lit (unlines
         [[],
          ''# Decrypt and execute code'',
          ''code = b64decode("'']),
      Hole ''code'',
      Lit (unlines
         [''")'',
          [],
          [],
          ''def decrypt(code, key):'',
          ''    key_len = len(key)'',
          ''    code_len = len(code)'',
          ''    code = bytearray(code)'',
          ''    for i in range(code_len):'',
          ''        code[i] = code[i] ^ key[i % key_len]'',
          ''    return bytes(code)'',
          [],
          [],
          ''code = decrypt(code, key)'',
          ''exec(code)'',
          []])]\<close>

definition prescript_js :: "piece list" where
  \<open>prescript_js =
     [Lit (unlines
         [''let argv = process.argv'',
          [],
          ''let koffi = require('' @ [CHR 0x27] @ ''koffi'' @ [CHR 0x27] @ '')'',
          [],
          ''process.chdir(argv[2])'',
          [],
          ''let lib = koffi.load("./libnodejs.so")'',
          ''/** @type {(uid: number, gid: number, enableNetwork: boolean, maxAs: number, privilege: boolean) => number} */'',
          ''let initSeccomp = lib.func('' @ [CHR 0x27] @ ''int init_seccomp(int, int, bool, uint64_t, bool)'' @ [CHR 0x27] @ '')'',
          ''/** @type {(path: string) => number} */'',
          ''let applyLandlock = lib.func('' @ [CHR 0x27] @ ''int apply_landlock_one(char*)'' @ [CHR 0x27] @ '')'',
          [],
          ''let uid = parseInt(argv[3])'',
          ''let gid = parseInt(argv[4])'',
          [],
          ''let options = JSON.parse(argv[5])'',
          [],
          ''let privilege = options['' @ [CHR 0x27] @ ''privilege'' @ [CHR 0x27] @ ''] !== false'',
          ''if (!privilege) {'',
          ''    let ll_rc = applyLandlock(argv[2])'',
          ''    if (ll_rc !== 0) {'',
          ''        throw `Landlock failed - ${ll_rc}`'',
          ''    }'',
          ''}'',
          ''// Force initialization of stdout/stderr streams before seccomp blocks ioctl.'',
          ''// Node.js lazily creates these SyncWriteStream wrappers on first access; the'',
          ''// internal setup calls ioctl(fd, TCGETS) to check TTY status.  Doing it now'',
          ''// ensures user code can write to stdout/stderr after seccomp is applied.'',
          ''void process.stdout.isTTY'',
          ''void process.stderr.isTTY'',
          [],
          ''let seccomp_init = initSeccomp(uid, gid, options['' @ [CHR 0x27] @ ''enable_network'' @ [CHR 0x27] @ ''], options['' @ [CHR 0x27] @ ''max_as'' @ [CHR 0x27] @ ''], privilege)'',
          ''if (seccomp_init !== 0) {'',
          ''    throw `code executor err - ${seccomp_init}`'',
          ''}'',
          [],
          ''delete process.argv'',
          ''argv = undefined'',
          ''koffi = undefined'',
          ''lib = undefined'',
          ''initSeccomp = undefined'',
          ''applyLandlock = undefined'',
          ''uid = undefined'',
          ''gid = undefined'',
          ''options = undefined'',
          ''seccomp_init = undefined'',
          [],
          []]),
      Hole ''code'',
      Lit (unlines
         [[],
          []])]\<close>

definition PYTHON_PRESCRIPT :: string where
  "PYTHON_PRESCRIPT = template_text prescript_py"

definition NODEJS_PRESCRIPT :: string where
  "NODEJS_PRESCRIPT = template_text prescript_js"

section \<open>Replacement\<close>

text \<open>No occurrence of the pattern begins in a text, whatever follows it.\<close>

fun free_of :: "string \<Rightarrow> string \<Rightarrow> bool" where
  "free_of pat [] = True"
| "free_of pat (c # s) = ((\<forall>r. \<not> starts_with pat (c # s @ r)) \<and> free_of pat s)"

lemma str_replace_skip: "pat \<noteq> [] \<Longrightarrow> free_of pat s \<Longrightarrow> str_replace pat to (s @ r) = s @ str_replace pat to r"
proof (induction s)
  case (Cons c s)
  then show ?case by (subst str_replace.simps) simp
qed simp

lemma str_replace_here: "pat \<noteq> [] \<Longrightarrow> str_replace pat to (pat @ r) = to @ str_replace pat to r"
  by (subst str_replace.simps) simp

lemma starts_with_Cons [simp]: "starts_with (p # ps) (c # s) \<longleftrightarrow> p = c \<and> starts_with ps s"
  by (auto simp: starts_with_def)

lemma starts_with_Nil [simp]: "starts_with [] s" "starts_with (p # ps) [] = False"
  by (simp_all add: starts_with_def)

text \<open>A literal without two opening braces in a row, not ending in one, contains no hole.\<close>

fun no_hole :: "string \<Rightarrow> bool" where
  "no_hole [] = True"
| "no_hole [c] = (c \<noteq> CHR ''{'')"
| "no_hole (c # d # s) = (\<not> (c = CHR ''{'' \<and> d = CHR ''{'') \<and> no_hole (d # s))"

lemma no_hole_free: "no_hole s \<Longrightarrow> free_of (hole h) s"
  by (induction s rule: no_hole.induct) (auto simp: hole_def)

lemma no_hole_append: "no_hole a \<Longrightarrow> no_hole b \<Longrightarrow> no_hole (a @ b)"
proof (induction a rule: no_hole.induct)
  case (2 c)
  then show ?case by (cases b) auto
qed auto

lemma no_hole_no_brace: "CHR ''{'' \<notin> set s \<Longrightarrow> no_hole s"
  by (induction s rule: no_hole.induct) auto

lemma no_hole_Cons: "no_hole s \<Longrightarrow> s \<noteq> [] \<Longrightarrow> hd s \<noteq> CHR ''{'' \<Longrightarrow> no_hole (c # s)"
  by (cases s) auto

lemma no_hole_unlines:
  "list_all (\<lambda>l. no_hole (l @ [CHR 0x0A])) (butlast ls) \<Longrightarrow> ls \<noteq> [] \<Longrightarrow> no_hole (last ls) \<Longrightarrow> no_hole (unlines ls)"
  unfolding unlines_def
proof (induction "[CHR 0x0A]" ls rule: str_join.induct)
  case (3 x y xs)
  then have "no_hole (x @ [CHR 0x0A])" "no_hole (str_join [CHR 0x0A] (y # xs))" by simp_all
  then have "no_hole ((x @ [CHR 0x0A]) @ str_join [CHR 0x0A] (y # xs))" by (rule no_hole_append)
  then show ?case by simp
qed simp_all

text \<open>Names of holes contain no braces; one hole is not mistaken for another.\<close>

definition plain :: "string \<Rightarrow> bool" where
  "plain h = (CHR ''{'' \<notin> set h \<and> CHR ''}'' \<notin> set h)"

lemma starts_with_name:
  "plain h \<Longrightarrow> plain k \<Longrightarrow> starts_with (h @ ''}}'') (k @ ''}}'' @ r) \<longleftrightarrow> h = k"
proof (induction h arbitrary: k)
  case Nil
  then show ?case by (cases k) (auto simp: plain_def)
next
  case (Cons c h)
  show ?case
  proof (cases k)
    case Nil
    with Cons.prems show ?thesis by (auto simp: plain_def)
  next
    case (Cons d k')
    then show ?thesis
      using Cons.IH [of k'] Cons.prems \<open>plain (c # h)\<close> by (auto simp: plain_def)
  qed
qed

lemma free_of_other_hole:
  assumes "plain h" "plain k" "h \<noteq> k"
  shows "free_of (hole h) (hole k)"
proof -
  have "no_hole (k @ ''}}'')"
    using assms(2) by (intro no_hole_no_brace) (simp add: plain_def)
  then have "free_of (hole h) (CHR ''{'' # k @ ''}}'')"
    using assms(2) by (intro no_hole_free no_hole_Cons) (cases k; auto simp: plain_def)+
  moreover have "\<not> starts_with (hole h) (hole k @ r)" for r
    using starts_with_name [OF assms(1,2), of r] assms(3) by (simp add: hole_def)
  ultimately show ?thesis by (simp add: hole_def)
qed

text \<open>Pieces among which replacing a hole means filling it.\<close>

fun ready :: "string \<Rightarrow> piece \<Rightarrow> bool" where
  "ready h (Lit s) = free_of (hole h) s"
| "ready h (Hole k) = plain k"

lemma str_replace_template:
  assumes "plain h" and "list_all (ready h) ps"
  shows "str_replace (hole h) v (template_text ps) = template_text (map (fill h v) ps)"
  using assms(2)
proof (induction ps)
  case Nil
  then show ?case by (simp add: template_text_def str_replace.simps)
next
  case (Cons p ps)
  have ne: "hole h \<noteq> []" by (simp add: hole_def)
  show ?case
  proof (cases p)
    case (Lit s)
    with Cons show ?thesis by (simp add: template_text_def str_replace_skip [OF ne])
  next
    case (Hole k)
    with Cons show ?thesis
      by (cases "k = h")
        (simp_all add: template_text_def str_replace_skip [OF ne] str_replace_here [OF ne] free_of_other_hole assms(1))
  qed
qed

text \<open>The pieces of the scripts.\<close>

definition clean :: "piece \<Rightarrow> bool" where
  "clean p = (case p of Lit s \<Rightarrow> no_hole s | Hole k \<Rightarrow> plain k)"

lemma clean_ready: "clean p \<Longrightarrow> ready h p"
  by (cases p) (auto simp: clean_def no_hole_free)

lemma clean_fill: "clean p \<Longrightarrow> no_hole v \<Longrightarrow> clean (fill h v p)"
  by (cases p) (auto simp: clean_def)

lemma replace_clean:
  assumes "plain h" "list_all clean ps" "no_hole v"
  shows "str_replace (hole h) v (template_text ps) = template_text (map (fill h v) ps)"
    and "list_all clean (map (fill h v) ps)"
  using assms str_replace_template [OF assms(1), of ps v]
  by (auto simp: list_all_iff clean_ready clean_fill)

lemma no_hole_digits: "no_hole (nat_digits n)"
proof (rule no_hole_no_brace, rule notI)
  assume "CHR ''{'' \<in> set (nat_digits n)"
  from nat_digits_digit [OF this] show False by (simp add: digit_val_def)
qed

text \<open>All holes of the script are filled at once.\<close>

fun instantiate :: "(string \<Rightarrow> string) \<Rightarrow> piece \<Rightarrow> piece" where
  "instantiate vals (Lit s) = Lit s"
| "instantiate vals (Hole k) = Lit (vals k)"

fun hole_names :: "piece list \<Rightarrow> string list" where
  "hole_names [] = []"
| "hole_names (Lit s # ps) = hole_names ps"
| "hole_names (Hole k # ps) = k # hole_names ps"

lemma hole_names_mem: "Hole k \<in> set ps \<Longrightarrow> k \<in> set (hole_names ps)"
  by (induction ps rule: hole_names.induct) auto

lemma prescript_py_clean: "list_all clean prescript_py"
  unfolding prescript_py_def
  by (simp add: clean_def plain_def no_hole_unlines)

lemma prescript_js_clean: "list_all clean prescript_js"
  unfolding prescript_js_def
  by (simp add: clean_def plain_def no_hole_unlines)

end
