(* ===== verification/Base64_Engine.thy ===== *)
theory Base64_Engine
  imports Rust_Std
begin

text \<open>
  The \<^verbatim>\<open>base64\<close> crate is a dependency of the program and not part of it. The program uses
  \<^verbatim>\<open>general_purpose::STANDARD\<close> through two operations, which are the fields of a record that
  the components take as an argument. The locale states what the crate documents: decoding
  undoes encoding, the output stays inside the standard alphabet with padding, and, because
  \<^verbatim>\<open>STANDARD\<close> requires canonical padding and rejects trailing bits, an accepted text is the
  encoding of its decoding. The encoding of RFC 4648 is written out below and satisfies these
  laws, so that every theorem that assumes them has an instance.
\<close>

section \<open>The interface\<close>

record base64_ops =
  b64_encode :: "bytes \<Rightarrow> string"
  b64_decode :: "string \<Rightarrow> (bytes, string) result" \<comment> \<open>the error is its displayed text\<close>

definition b64_alphabet :: string where
  "b64_alphabet = ''ABCDEFGHIJKLMNOPQRSTUVWXYZabcdefghijklmnopqrstuvwxyz0123456789+/''"

definition b64_char_ok :: "char \<Rightarrow> bool" where
  "b64_char_ok c = (c = CHR ''='' \<or> c \<in> set b64_alphabet)"

locale base64_standard =
  fixes e :: base64_ops
  assumes decode_encode: "b64_decode e (b64_encode e bs) = Inr bs"
    and encode_alphabet: "list_all b64_char_ok (b64_encode e bs)"
    and decode_canonical: "b64_decode e s = Inr bs \<Longrightarrow> b64_encode e bs = s"
begin

lemma encode_inj: "b64_encode e a = b64_encode e b \<longleftrightarrow> a = b"
  by (metis decode_encode sum.inject(2))

lemma decode_Inr_iff: "b64_decode e s = Inr bs \<longleftrightarrow> b64_encode e bs = s"
  using decode_encode decode_canonical by blast

lemma decoded_alphabet: "b64_decode e s = Inr bs \<Longrightarrow> list_all b64_char_ok s"
  using decode_canonical encode_alphabet by metis

end

section \<open>RFC 4648\<close>

definition b64_char :: "nat \<Rightarrow> char" where
  "b64_char n = b64_alphabet ! n"

fun index_of :: "char \<Rightarrow> string \<Rightarrow> nat option" where
  "index_of c [] = None"
| "index_of c (x # xs) = (if c = x then Some 0 else map_option Suc (index_of c xs))"

definition b64_val :: "char \<Rightarrow> nat option" where
  "b64_val c = index_of c b64_alphabet"

fun rfc4648_encode :: "bytes \<Rightarrow> string" where
  "rfc4648_encode [] = []"
| "rfc4648_encode [a] =
     [b64_char (unat a div 4), b64_char (unat a mod 4 * 16), CHR ''='', CHR ''='']"
| "rfc4648_encode [a, b] =
     [b64_char (unat a div 4), b64_char (unat a mod 4 * 16 + unat b div 16),
      b64_char (unat b mod 16 * 4), CHR ''='']"
| "rfc4648_encode (a # b # c # bs) =
     [b64_char (unat a div 4), b64_char (unat a mod 4 * 16 + unat b div 16),
      b64_char (unat b mod 16 * 4 + unat c div 64), b64_char (unat c mod 64)] @ rfc4648_encode bs"

text \<open>The last quantum, which may be padded; the bits that padding leaves over must be zero.\<close>

definition rfc4648_last :: "char \<Rightarrow> char \<Rightarrow> char \<Rightarrow> char \<Rightarrow> bytes option" where
  "rfc4648_last p q r s =
     (case (b64_val p, b64_val q) of
        (Some w, Some x) \<Rightarrow>
          (if r = CHR ''='' \<and> s = CHR ''='' then
             (if x mod 16 = 0 then Some [of_nat (w * 4 + x div 16)] else None)
           else case b64_val r of
             None \<Rightarrow> None
           | Some y \<Rightarrow>
               (if s = CHR ''='' then
                  (if y mod 4 = 0 then Some [of_nat (w * 4 + x div 16), of_nat (x mod 16 * 16 + y div 4)] else None)
                else case b64_val s of
                  None \<Rightarrow> None
                | Some z \<Rightarrow> Some [of_nat (w * 4 + x div 16), of_nat (x mod 16 * 16 + y div 4), of_nat (y mod 4 * 64 + z)]))
      | _ \<Rightarrow> None)"

fun rfc4648_decode :: "string \<Rightarrow> bytes option" where
  "rfc4648_decode [] = Some []"
| "rfc4648_decode (p # q # r # s # rest) =
     (case rfc4648_last p q r s of
        None \<Rightarrow> None
      | Some bs \<Rightarrow>
          (if rest = [] then Some bs
           else if length bs < 3 then None
           else map_option ((@) bs) (rfc4648_decode rest)))"
| "rfc4648_decode _ = None"

definition rfc4648 :: base64_ops where
  "rfc4648 = \<lparr>b64_encode = rfc4648_encode,
     b64_decode = (\<lambda>s. case rfc4648_decode s of None \<Rightarrow> Inl ''Invalid input'' | Some bs \<Rightarrow> Inr bs)\<rparr>"

section \<open>RFC 4648 satisfies the interface\<close>

lemma index_of_Some: "index_of c xs = Some i \<Longrightarrow> i < length xs \<and> xs ! i = c"
  by (induction xs arbitrary: i) (auto split: if_splits)

lemma index_of_nth: "distinct xs \<Longrightarrow> i < length xs \<Longrightarrow> index_of (xs ! i) xs = Some i"
  by (induction xs arbitrary: i) (auto simp: nth_Cons split: nat.splits)

lemma length_b64_alphabet: "length b64_alphabet = 64"
  by (simp add: b64_alphabet_def)

lemma distinct_b64_alphabet: "distinct b64_alphabet"
  by (simp add: b64_alphabet_def)

lemma b64_val_char [simp]: "n < 64 \<Longrightarrow> b64_val (b64_char n) = Some n"
  by (simp add: b64_val_def b64_char_def index_of_nth distinct_b64_alphabet length_b64_alphabet)

lemma b64_val_SomeD: "b64_val c = Some n \<Longrightarrow> n < 64 \<and> b64_char n = c"
  using index_of_Some [of c b64_alphabet n]
  by (simp add: b64_val_def b64_char_def length_b64_alphabet)

lemma b64_val_pad [simp]: "b64_val (CHR ''='') = None"
  by (simp add: b64_val_def b64_alphabet_def)

lemma b64_char_not_pad [simp]: "n < 64 \<Longrightarrow> b64_char n \<noteq> CHR ''=''"
  by (metis b64_val_char b64_val_pad option.distinct(1))

lemma b64_char_ok_char [simp]: "n < 64 \<Longrightarrow> b64_char_ok (b64_char n)"
  by (simp add: b64_char_ok_def b64_char_def length_b64_alphabet)

lemma u8_lt: "unat (b :: u8) < 256"
  using unsigned_less [of b] by simp

lemma sextet_bounds [simp]:
  "unat (a :: u8) div 4 < 64" "unat a mod 4 * 16 < 64" "unat a mod 4 * 16 + unat (b :: u8) div 16 < 64"
  "unat b mod 16 * 4 < 64" "unat b mod 16 * 4 + unat (c :: u8) div 64 < 64"
proof -
  have "unat a div 4 < 64" "unat b div 16 < 16" "unat c div 64 < 4"
    using u8_lt [of a] u8_lt [of b] u8_lt [of c] by simp_all
  moreover have "unat a mod 4 < 4" "unat b mod 16 < 16"
    by simp_all
  ultimately show "unat a div 4 < 64" "unat a mod 4 * 16 < 64" "unat a mod 4 * 16 + unat b div 16 < 64"
    "unat b mod 16 * 4 < 64" "unat b mod 16 * 4 + unat c div 64 < 64"
    by linarith+
qed

text \<open>Three bytes from four sextets and back.\<close>

lemma digits_join:
  fixes h l m :: nat
  assumes "l < m"
  shows "(h * m + l) div m = h" "(h * m + l) mod m = l"
  using assms by simp_all

lemma sextets_split:
  fixes w x y z :: nat
  assumes "w < 64" "x < 64" "y < 64" "z < 64"
  shows "(w * 4 + x div 16) div 4 = w" "w * 4 + x div 16 < 256"
    "x mod 16 * 16 + y div 4 < 256" "y mod 4 * 64 + z < 256"
    "x mod 16 = 0 \<Longrightarrow> (w * 4 + x div 16) mod 4 * 16 = x"
    "(w * 4 + x div 16) mod 4 * 16 + (x mod 16 * 16 + y div 4) div 16 = x"
    "y mod 4 = 0 \<Longrightarrow> (x mod 16 * 16 + y div 4) mod 16 * 4 = y"
    "(x mod 16 * 16 + y div 4) mod 16 * 4 + (y mod 4 * 64 + z) div 64 = y"
    "(y mod 4 * 64 + z) mod 64 = z"
proof -
  have x: "x div 16 < 4" and y: "y div 4 < 16" using assms by simp_all
  note d = digits_join [OF x, of w] digits_join [OF y, of "x mod 16"] digits_join [OF assms(4), of "y mod 4"]
  show "(w * 4 + x div 16) div 4 = w" "(y mod 4 * 64 + z) mod 64 = z"
    "x mod 16 = 0 \<Longrightarrow> (w * 4 + x div 16) mod 4 * 16 = x"
    "(w * 4 + x div 16) mod 4 * 16 + (x mod 16 * 16 + y div 4) div 16 = x"
    "y mod 4 = 0 \<Longrightarrow> (x mod 16 * 16 + y div 4) mod 16 * 4 = y"
    "(x mod 16 * 16 + y div 4) mod 16 * 4 + (y mod 4 * 64 + z) div 64 = y"
    unfolding d using div_mult_mod_eq [of x 16] div_mult_mod_eq [of y 4] by simp_all
  have "x mod 16 < 16" "y mod 4 < 4" by simp_all
  then show "w * 4 + x div 16 < 256" "x mod 16 * 16 + y div 4 < 256" "y mod 4 * 64 + z < 256"
    using assms x y by linarith+
qed

lemma sextets_join:
  "of_nat (unat a div 4 * 4 + (unat a mod 4 * 16) div 16) = (a :: u8)"
  "of_nat (unat a div 4 * 4 + (unat a mod 4 * 16 + unat (b :: u8) div 16) div 16) = a"
  "of_nat ((unat a mod 4 * 16 + unat b div 16) mod 16 * 16 + (unat b mod 16 * 4) div 4) = b"
  "of_nat ((unat a mod 4 * 16 + unat b div 16) mod 16 * 16 + (unat b mod 16 * 4 + unat (c :: u8) div 64) div 4) = b"
  "of_nat ((unat b mod 16 * 4 + unat c div 64) mod 4 * 64 + unat c mod 64) = c"
proof -
  have b: "unat b div 16 < 16" and c: "unat c div 64 < 4"
    using u8_lt [of b] u8_lt [of c] by simp_all
  note d = digits_join [OF b, of "unat a mod 4"] digits_join [OF c, of "unat b mod 16"]
  show "of_nat (unat a div 4 * 4 + (unat a mod 4 * 16) div 16) = a"
    "of_nat (unat a div 4 * 4 + (unat a mod 4 * 16 + unat b div 16) div 16) = a"
    "of_nat ((unat a mod 4 * 16 + unat b div 16) mod 16 * 16 + (unat b mod 16 * 4) div 4) = b"
    "of_nat ((unat a mod 4 * 16 + unat b div 16) mod 16 * 16 + (unat b mod 16 * 4 + unat c div 64) div 4) = b"
    "of_nat ((unat b mod 16 * 4 + unat c div 64) mod 4 * 64 + unat c mod 64) = c"
    unfolding d by (simp_all only: div_mult_mod_eq nonzero_mult_div_cancel_right of_nat_unat ucast_id zero_neq_numeral [symmetric] not_False_eq_True)
qed
lemma rfc4648_last_encode:
  "rfc4648_last (b64_char (unat a div 4)) (b64_char (unat a mod 4 * 16)) (CHR ''='') (CHR ''='') = Some [a]"
  "rfc4648_last (b64_char (unat a div 4)) (b64_char (unat a mod 4 * 16 + unat b div 16))
     (b64_char (unat b mod 16 * 4)) (CHR ''='') = Some [a, b]"
  "rfc4648_last (b64_char (unat a div 4)) (b64_char (unat a mod 4 * 16 + unat b div 16))
     (b64_char (unat b mod 16 * 4 + unat c div 64)) (b64_char (unat c mod 64)) = Some [a, b, c]"
  unfolding rfc4648_last_def
  by (simp_all only: b64_val_char sextet_bounds mod_less_divisor zero_less_numeral option.case prod.case
      sextets_join b64_char_not_pad b64_val_pad if_False if_True simp_thms mod_mult_self2_is_0
      mult_mod_right)

lemma rfc4648_decode_encode: "rfc4648_decode (rfc4648_encode bs) = Some bs"
proof (induction bs rule: rfc4648_encode.induct)
  case (4 a b c bs)
  then show ?case
    by (cases bs) (auto simp: rfc4648_last_encode simp del: of_nat_add of_nat_mult)
qed (simp_all add: rfc4648_last_encode)

lemma rfc4648_alphabet: "list_all b64_char_ok (rfc4648_encode bs)"
  by (induction bs rule: rfc4648_encode.induct) (simp_all add: b64_char_ok_def [of "CHR ''=''"])

lemma unat_of_nat_u8: "n < 256 \<Longrightarrow> unat (of_nat n :: u8) = n"
  by (simp add: unat_of_nat)

lemma rfc4648_last_canonical:
  assumes "rfc4648_last p q r s = Some bs"
  shows "rfc4648_encode bs = [p, q, r, s]"
proof -
  obtain w x where v: "b64_val p = Some w" "b64_val q = Some x"
    using assms by (auto simp: rfc4648_last_def split: option.splits)
  then have w: "w < 64" "b64_char w = p" and x: "x < 64" "b64_char x = q"
    by (auto dest: b64_val_SomeD)
  consider (one) "r = CHR ''=''" "s = CHR ''=''"
    | (two) y where "b64_val r = Some y" "s = CHR ''=''"
    | (three) y z where "b64_val r = Some y" "b64_val s = Some z"
    using assms v by (auto simp: rfc4648_last_def split: option.splits if_splits)
  then show ?thesis
  proof cases
    case one
    with assms v have "x mod 16 = 0" and bs: "bs = [of_nat (w * 4 + x div 16)]"
      by (auto simp: rfc4648_last_def split: if_splits)
    note a = sextets_split [OF w(1) x(1) x(1) x(1)]
    show ?thesis
      unfolding bs rfc4648_encode.simps unat_of_nat_u8 [OF a(2)] a(1) a(5) [OF \<open>x mod 16 = 0\<close>] w x one ..
  next
    case (two y)
    then have y: "y < 64" "b64_char y = r" by (auto dest: b64_val_SomeD)
    from two assms v have "y mod 4 = 0"
      and bs: "bs = [of_nat (w * 4 + x div 16), of_nat (x mod 16 * 16 + y div 4)]"
      by (auto simp: rfc4648_last_def split: if_splits)
    note a = sextets_split [OF w(1) x(1) y(1) y(1)]
    show ?thesis
      unfolding bs rfc4648_encode.simps unat_of_nat_u8 [OF a(2)] unat_of_nat_u8 [OF a(3)]
        a(1) a(6) a(7) [OF \<open>y mod 4 = 0\<close>] w x y two ..
  next
    case (three y z)
    then have y: "y < 64" "b64_char y = r" and z: "z < 64" "b64_char z = s" and "s \<noteq> CHR ''=''"
      by (auto dest: b64_val_SomeD)
    with three assms v have bs: "bs = [of_nat (w * 4 + x div 16), of_nat (x mod 16 * 16 + y div 4), of_nat (y mod 4 * 64 + z)]"
      by (auto simp: rfc4648_last_def split: if_splits)
    note a = sextets_split [OF w(1) x(1) y(1) z(1)]
    show ?thesis
      unfolding bs rfc4648_encode.simps unat_of_nat_u8 [OF a(2)] unat_of_nat_u8 [OF a(3)]
        unat_of_nat_u8 [OF a(4)] a(1) a(6) a(8) a(9) w x y z by simp
  qed
qed

lemma rfc4648_encode_append3: "length a = 3 \<Longrightarrow> rfc4648_encode (a @ b) = rfc4648_encode a @ rfc4648_encode b"
  by (auto simp: length_Suc_conv numeral_3_eq_3)

lemma rfc4648_last_length: "rfc4648_last p q r s = Some bs \<Longrightarrow> length bs \<le> 3"
  by (auto simp: rfc4648_last_def split: option.splits if_splits)

lemma rfc4648_canonical: "rfc4648_decode s = Some bs \<Longrightarrow> rfc4648_encode bs = s"
proof (induction s arbitrary: bs rule: rfc4648_decode.induct)
  case (2 p q r s rest)
  then obtain cs where cs: "rfc4648_last p q r s = Some cs" by (auto split: option.splits)
  show ?case
  proof (cases "rest = []")
    case True
    with 2 cs show ?thesis by (simp add: rfc4648_last_canonical)
  next
    case False
    with 2 cs obtain ds where "length cs = 3" "rfc4648_decode rest = Some ds" "bs = cs @ ds"
      using rfc4648_last_length [OF cs] by (auto split: if_splits)
    with 2(1) [OF cs False] rfc4648_last_canonical [OF cs] show ?thesis
      by (simp add: rfc4648_encode_append3)
  qed
qed simp_all

interpretation rfc: base64_standard rfc4648
  by unfold_locales
    (auto simp: rfc4648_def rfc4648_decode_encode rfc4648_alphabet split: option.splits dest: rfc4648_canonical)

end
