(* ===== verification/Crypto.thy ===== *)
theory Crypto
  imports Base64_Engine
begin

text \<open>
  \<^verbatim>\<open>server/src/crypto.rs\<close> (the XOR encryption of the submitted code and the key generator) and
  its two consumers in the sandboxed process: \<^verbatim>\<open>decrypt\<close> of \<^verbatim>\<open>runtime/prescript.py\<close> and the
  chunked big-integer \<^verbatim>\<open>_xor\<close> of \<^verbatim>\<open>runtime/pool/zygote_worker.py\<close>. The lemmas show that both
  consumers undo the encryption, and that the chunked routine computes the bytewise XOR.
\<close>

section \<open>Model\<close>

subsection \<open>The server\<close>

text \<open>The closure of \<^verbatim>\<open>encrypt_code\<close> over \<^verbatim>\<open>code.iter().enumerate()\<close>.\<close>

definition xor_bytes :: "bytes \<Rightarrow> bytes \<Rightarrow> bytes" where
  "xor_bytes code key = map (\<lambda>(i, b). b XOR key ! (i mod length key)) (List.enumerate 0 code)"

text \<open>
  \<^const>\<open>None\<close> is the panic of \<^verbatim>\<open>i % key.len()\<close> for an empty key, which only a non-empty code
  reaches.
\<close>

definition encrypt_code :: "base64_ops \<Rightarrow> bytes \<Rightarrow> bytes \<Rightarrow> string option" where
  "encrypt_code e code key =
     (if key = [] \<and> code \<noteq> [] then None else Some (b64_encode e (xor_bytes code key)))"

text \<open>The generator \<^verbatim>\<open>rand::rng()\<close> is a parameter: it overwrites the buffer it is given.\<close>

definition generate_key :: "(bytes \<Rightarrow> bytes) \<Rightarrow> nat \<Rightarrow> bytes" where
  "generate_key fill_bytes len = fill_bytes (replicate len 0)"

subsection \<open>The sandboxed process\<close>

text \<open>
  \<^verbatim>\<open>decrypt\<close> of the prescript: the loop updates a byte array in place; \<^const>\<open>None\<close> is the
  \<^verbatim>\<open>ZeroDivisionError\<close> of an empty key.
\<close>

definition prescript_decrypt :: "bytes \<Rightarrow> bytes \<Rightarrow> bytes option" where
  "prescript_decrypt code key =
     (if key = [] \<and> code \<noteq> [] then None
      else Some (fold (\<lambda>i c. c[i := c ! i XOR key ! (i mod length key)]) [0..<length code] code))"

text \<open>\<^verbatim>\<open>int.from_bytes(_, "big")\<close> and \<^verbatim>\<open>int.to_bytes(n, "big")\<close>; the latter raises on overflow.\<close>

definition int_from_bytes :: "bytes \<Rightarrow> nat" where
  "int_from_bytes bs = foldl (\<lambda>a b. a * 256 + unat b) 0 bs"

fun be_digits :: "nat \<Rightarrow> nat \<Rightarrow> bytes" where
  "be_digits 0 n = []"
| "be_digits (Suc k) n = be_digits k (n div 256) @ [of_nat (n mod 256)]"

definition int_to_bytes :: "nat \<Rightarrow> nat \<Rightarrow> bytes option" where
  "int_to_bytes len n = (if n < 256 ^ len then Some (be_digits len n) else None)"

text \<open>
  The loop of \<^verbatim>\<open>_xor\<close>: \<open>out\<close> is the output buffer, \<open>i\<close> the start of the next chunk. The
  chunk size is positive whenever the key is non-empty.
\<close>

definition keystream :: "bytes \<Rightarrow> nat \<Rightarrow> bytes" where
  "keystream key seg_len =
     concat (replicate (seg_len div length key) key) @ take (seg_len mod length key) key"

function worker_xor_loop :: "bytes \<Rightarrow> bytes \<Rightarrow> nat \<Rightarrow> nat \<Rightarrow> bytes \<Rightarrow> bytes option" where
  "worker_xor_loop data key chunk i out =
     (if length data \<le> i \<or> chunk = 0 then Some out
      else
        let stop = (if i + chunk > length data then length data else i + chunk);
            seg_len = stop - i
        in case int_to_bytes seg_len
                  (int_from_bytes (take seg_len (drop i data)) XOR int_from_bytes (keystream key seg_len)) of
             None \<Rightarrow> None
           | Some seg \<Rightarrow> worker_xor_loop data key chunk stop (take i out @ seg @ drop stop out))"
  by pat_completeness auto
termination
  by (relation "measure (\<lambda>(data, key, chunk, i, out). length data - i)") (auto split: if_splits)

declare worker_xor_loop.simps [simp del]

definition worker_xor :: "bytes \<Rightarrow> bytes \<Rightarrow> bytes option" where
  "worker_xor data key =
     (if data = [] then Some []
      else if key = [] then None
      else let kl = length key; chunk = max kl (65536 div kl * kl) in
           worker_xor_loop data key chunk 0 (replicate (length data) 0))"

text \<open>
  What the two processes do with the texts they receive: decode both, then decrypt.
  Python's \<^verbatim>\<open>base64.b64decode\<close> is a parameter.
\<close>

definition prescript_recover :: "(string \<Rightarrow> bytes option) \<Rightarrow> string \<Rightarrow> string \<Rightarrow> bytes option" where
  "prescript_recover b64decode code key =
     Option.bind (b64decode key) (\<lambda>k. Option.bind (b64decode code) (\<lambda>c. prescript_decrypt c k))"

definition worker_recover :: "(string \<Rightarrow> bytes option) \<Rightarrow> string \<Rightarrow> string \<Rightarrow> bytes option" where
  "worker_recover b64decode code key =
     Option.bind (b64decode code) (\<lambda>c. Option.bind (b64decode key) (\<lambda>k. worker_xor c k))"

section \<open>The bytewise XOR\<close>

lemma length_xor_bytes [simp]: "length (xor_bytes code key) = length code"
  by (simp add: xor_bytes_def)

lemma nth_xor_bytes [simp]:
  "i < length code \<Longrightarrow> xor_bytes code key ! i = code ! i XOR key ! (i mod length key)"
  by (simp add: xor_bytes_def nth_enumerate_eq)

lemma xor_bytes_eq_map:
  "xor_bytes code key = map (\<lambda>i. code ! i XOR key ! (i mod length key)) [0..<length code]"
  by (rule nth_equalityI) simp_all

lemma xor_bytes_Nil [simp]: "xor_bytes [] key = []"
  by (simp add: xor_bytes_def)

lemma xor_bytes_involutive [simp]: "xor_bytes (xor_bytes code key) key = code"
  by (rule nth_equalityI) (simp_all add: xor.assoc)

lemma in_place_fold:
  "n \<le> length c \<Longrightarrow>
     fold (\<lambda>i c. c[i := f i (c ! i)]) [0..<n] c = map (\<lambda>i. f i (c ! i)) [0..<n] @ drop n c"
proof (induction n)
  case (Suc n)
  then have "drop n c = c ! n # drop (Suc n) c"
    by (simp add: Cons_nth_drop_Suc)
  with Suc show ?case
    by (simp add: nth_append list_update_append)
qed simp

lemma prescript_decrypt_eq:
  "key \<noteq> [] \<or> code = [] \<Longrightarrow> prescript_decrypt code key = Some (xor_bytes code key)"
  by (auto simp: prescript_decrypt_def in_place_fold [where f = "\<lambda>i b. b XOR key ! (i mod length key)"]
      xor_bytes_eq_map)

section \<open>The chunked XOR\<close>

lemma int_from_bytes_simps [simp]:
  "int_from_bytes [] = 0"
  "int_from_bytes (bs @ [b]) = int_from_bytes bs * 256 + unat b"
  by (simp_all add: int_from_bytes_def)

lemma u8_less_256: "unat (b :: u8) < 256"
  by (rule u8_lt)

lemma int_from_bytes_less: "int_from_bytes bs < 256 ^ length bs"
proof (induction bs rule: rev_induct)
  case (snoc b bs)
  then show ?case
    using u8_less_256 [of b] by simp
qed simp

lemma xor_base_256:
  fixes m n :: nat and a b :: u8
  shows "((m * 256 + unat a) XOR (n * 256 + unat b)) div 256 = m XOR n"
    and "((m * 256 + unat a) XOR (n * 256 + unat b)) mod 256 = unat (a XOR b)"
proof -
  let ?x = "m * 256 + unat a" and ?y = "n * 256 + unat b"
  have "drop_bit 8 (?x XOR ?y) = drop_bit 8 ?x XOR drop_bit 8 ?y"
    by simp
  then show "(?x XOR ?y) div 256 = m XOR n"
    using u8_less_256 [of a] u8_less_256 [of b] by (simp add: drop_bit_eq_div)
  have "take_bit 8 (?x XOR ?y) = take_bit 8 ?x XOR take_bit 8 ?y"
    by simp
  then show "(?x XOR ?y) mod 256 = unat (a XOR b)"
    using u8_less_256 [of a] u8_less_256 [of b] by (simp add: take_bit_eq_mod unsigned_xor_eq)
qed

lemma be_digits_xor:
  "length a = length b \<Longrightarrow>
     be_digits (length a) (int_from_bytes a XOR int_from_bytes b) = map2 (XOR) a b"
proof (induction a arbitrary: b rule: rev_induct)
  case (snoc x xs)
  then obtain y ys where b: "b = ys @ [y]" and len: "length xs = length ys"
    by (cases b rule: rev_cases) auto
  with snoc.IH [OF len] show ?case
    by (simp add: xor_base_256)
qed simp

lemma int_from_bytes_xor_less:
  assumes "length a = length b"
  shows "int_from_bytes a XOR int_from_bytes b < 256 ^ length a"
proof -
  have p: "(256 :: nat) ^ k = 2 ^ (8 * k)" for k
    by (simp add: power_mult)
  have "take_bit (8 * length a) (int_from_bytes a) = int_from_bytes a"
    and "take_bit (8 * length a) (int_from_bytes b) = int_from_bytes b"
    using int_from_bytes_less [of a] int_from_bytes_less [of b] assms
    by (simp_all add: take_bit_nat_eq_self_iff p)
  then have "int_from_bytes a XOR int_from_bytes b
      = take_bit (8 * length a) (int_from_bytes a XOR int_from_bytes b)"
    by simp
  also have "\<dots> < 256 ^ length a"
    unfolding p by (rule take_bit_nat_less_exp)
  finally show ?thesis .
qed

lemma int_to_bytes_xor:
  assumes "length a = length b"
  shows "int_to_bytes (length a) (int_from_bytes a XOR int_from_bytes b) = Some (map2 (XOR) a b)"
  using be_digits_xor [OF assms] int_from_bytes_xor_less [OF assms] by (simp add: int_to_bytes_def)

lemma nth_concat_replicate:
  "key \<noteq> [] \<Longrightarrow> j < q * length key \<Longrightarrow> concat (replicate q key) ! j = key ! (j mod length key)"
proof (induction q arbitrary: j)
  case (Suc q)
  show ?case
  proof (cases "j < length key")
    case False
    with Suc have "concat (replicate q key) ! (j - length key) = key ! ((j - length key) mod length key)"
      by (intro Suc.IH) auto
    with False show ?thesis
      by (simp add: nth_append le_mod_geq)
  qed (simp add: nth_append)
qed simp

lemma length_concat_replicate: "length (concat (replicate q key)) = q * length key"
  by (induction q) simp_all

text \<open>Every chunk of key stream is the key repeated from its first byte.\<close>

lemma keystream_eq_map:
  assumes "key \<noteq> []"
  shows "keystream key n = map (\<lambda>j. key ! (j mod length key)) [0..<n]"
proof (rule nth_equalityI)
  define q where "q = n div length key * length key"
  have n: "n = q + n mod length key" and r: "n mod length key < length key"
    using assms unfolding q_def by (simp_all add: div_mult_mod_eq)
  have len: "length (keystream key n) = q + n mod length key"
    using r by (simp add: keystream_def length_concat_replicate q_def)
  with n show "length (keystream key n) = length (map (\<lambda>j. key ! (j mod length key)) [0..<n])"
    by simp
  fix j
  assume "j < length (keystream key n)"
  with len n have j: "j < n" by simp
  show "keystream key n ! j = map (\<lambda>j. key ! (j mod length key)) [0..<n] ! j"
  proof (cases "j < q")
    case True
    then show ?thesis
      using assms j by (simp add: keystream_def nth_append length_concat_replicate nth_concat_replicate q_def)
  next
    case False
    then obtain d where d: "j = q + d" by (metis le_add_diff_inverse not_less)
    with n j have "d < n mod length key" by linarith
    moreover from this r have "j mod length key = d"
      unfolding d q_def by simp
    ultimately show ?thesis
      using j d by (simp add: keystream_def nth_append length_concat_replicate q_def)
  qed
qed

text \<open>One chunk that starts at a multiple of the key length is a slice of the bytewise XOR.\<close>

lemma chunk_xor:
  assumes "key \<noteq> []" and "i mod length key = 0" and "i + len \<le> length data"
  shows "int_to_bytes len (int_from_bytes (take len (drop i data)) XOR int_from_bytes (keystream key len))
    = Some (take len (drop i (xor_bytes data key)))"
proof -
  have l: "length (take len (drop i data)) = len" "length (keystream key len) = len"
    using assms by (simp_all add: keystream_eq_map)
  have "map2 (XOR) (take len (drop i data)) (keystream key len) = take len (drop i (xor_bytes data key))"
  proof (rule nth_equalityI)
    fix j
    assume "j < length (map2 (XOR) (take len (drop i data)) (keystream key len))"
    with l have "j < len" by simp
    moreover have "(i + j) mod length key = j mod length key"
      using assms(2) by (metis add.commute mod_add_right_eq add.right_neutral)
    ultimately show "map2 (XOR) (take len (drop i data)) (keystream key len) ! j
        = take len (drop i (xor_bytes data key)) ! j"
      using assms l by (simp add: keystream_eq_map)
  qed (use assms l in simp)
  with int_to_bytes_xor [of "take len (drop i data)" "keystream key len"] l show ?thesis
    by simp
qed

lemma splice_take:
  assumes "length out = length xs" and "take i out = take i xs" and "i \<le> stop" and "stop \<le> length xs"
  shows "take stop (take i out @ take (stop - i) (drop i xs) @ drop stop out) = take stop xs"
    and "length (take i out @ take (stop - i) (drop i xs) @ drop stop out) = length xs"
proof -
  have "take i out @ take (stop - i) (drop i xs) = take stop xs"
    using assms(3) by (simp add: assms(2) take_add [symmetric])
  then have *: "take i out @ take (stop - i) (drop i xs) @ drop stop out = take stop xs @ drop stop out"
    by (metis append.assoc)
  show "take stop (take i out @ take (stop - i) (drop i xs) @ drop stop out) = take stop xs"
    unfolding * using assms(4) by simp
  show "length (take i out @ take (stop - i) (drop i xs) @ drop stop out) = length xs"
    unfolding * using assms(1,4) by simp
qed

lemma worker_xor_loop_correct:
  assumes "key \<noteq> []" and "chunk mod length key = 0" and "0 < chunk"
    and "i mod length key = 0 \<or> i = length data"
    and "i \<le> length data" and "length out = length data"
    and "take i out = take i (xor_bytes data key)"
  shows "worker_xor_loop data key chunk i out = Some (xor_bytes data key)"
  using assms
proof (induction data key chunk i out rule: worker_xor_loop.induct)
  case (1 data key chunk i out)
  show ?case
  proof (cases "length data \<le> i")
    case True
    with 1 show ?thesis
      by (subst worker_xor_loop.simps) simp
  next
    case False
    define stop where "stop = (if i + chunk > length data then length data else i + chunk)"
    let ?seg = "take (stop - i) (drop i (xor_bytes data key))"
    have st: "i \<le> stop" "stop \<le> length data" "i mod length key = 0"
      and al: "stop mod length key = 0 \<or> stop = length data"
      using 1 False by (auto simp: stop_def mod_add_eq [symmetric])
    have seg: "int_to_bytes (stop - i)
        (int_from_bytes (take (stop - i) (drop i data)) XOR int_from_bytes (keystream key (stop - i))) = Some ?seg"
      using 1(2) st by (intro chunk_xor) simp_all
    have "worker_xor_loop data key chunk stop (take i out @ ?seg @ drop stop out) = Some (xor_bytes data key)"
    proof (rule "1.IH" [OF _ stop_def refl seg])
      show "\<not> (length data \<le> i \<or> chunk = 0)" using False 1 by simp
    qed (use 1 st al splice_take [of out "xor_bytes data key" i stop] in simp_all)
    with False 1 seg show ?thesis
      by (subst worker_xor_loop.simps) (simp add: stop_def [symmetric] Let_def)
  qed
qed

lemma worker_xor_eq:
  assumes "key \<noteq> [] \<or> data = []"
  shows "worker_xor data key = Some (xor_bytes data key)"
proof (cases "data = []")
  case False
  define chunk where "chunk = max (length key) (65536 div length key * length key)"
  have "chunk mod length key = 0" and "0 < chunk"
    using assms False by (auto simp: chunk_def max_def)
  with False assms show ?thesis
    by (simp add: worker_xor_def Let_def chunk_def [symmetric] worker_xor_loop_correct)
qed (simp add: worker_xor_def)

section \<open>Encryption and decryption\<close>

text \<open>The server's base64 encoder and the decoder of the Python side.\<close>

locale base64_channel = base64_standard +
  fixes py_b64decode :: "string \<Rightarrow> bytes option"
  assumes py_decode: "py_b64decode (b64_encode e bs) = Some bs"
begin

lemma recover_both:
  assumes "key \<noteq> []" and "encrypt_code e code key = Some enc"
  shows "prescript_recover py_b64decode enc (b64_encode e key) = Some code"
    and "worker_recover py_b64decode enc (b64_encode e key) = Some code"
  using assms
  by (auto simp: encrypt_code_def prescript_recover_def worker_recover_def py_decode
      prescript_decrypt_eq worker_xor_eq)

end

interpretation rfc_channel: base64_channel rfc4648 rfc4648_decode
  by unfold_locales (simp add: rfc4648_def rfc4648_decode_encode)

lemma encrypt_code_defined: "key \<noteq> [] \<Longrightarrow> encrypt_code e code key = Some (b64_encode e (xor_bytes code key))"
  by (simp add: encrypt_code_def)

section \<open>Properties\<close>

text \<open>C6. Code that the server encrypts under a non-empty key is recovered exactly by both
  consumers: the prescript of the slow path and the zygote child of the fast path, each of which
  decodes the two base64 texts and applies its own XOR routine. The laws of the base64 encoder
  and decoder are the hypothesis.\<close>

theorem encryption_roundtrip:
  assumes "base64_channel e b64decode" and "key \<noteq> []"
  shows "\<exists>enc. encrypt_code e code key = Some enc \<and>
    prescript_recover b64decode enc (b64_encode e key) = Some code \<and>
    worker_recover b64decode enc (b64_encode e key) = Some code"
  using base64_channel.recover_both [OF assms] encrypt_code_defined [OF assms(2)] by blast

theorem encryption_roundtrip_witness:
  "\<exists>enc. encrypt_code rfc4648 [104, 105, 33] [1, 2] = Some enc \<and>
    prescript_recover rfc4648_decode enc (b64_encode rfc4648 [1, 2]) = Some [104, 105, 33] \<and>
    worker_recover rfc4648_decode enc (b64_encode rfc4648 [1, 2]) = Some [104, 105, 33]"
  by (rule encryption_roundtrip [OF rfc_channel.base64_channel_axioms]) simp

text \<open>C30. The zygote child's chunked big-integer XOR and the prescript's bytewise loop compute the
  same function, for every data and every key, including the division by zero that an empty key
  raises on non-empty data.\<close>

theorem chunked_xor_equivalence: "worker_xor data key = prescript_decrypt data key"
proof (cases "key = [] \<and> data \<noteq> []")
  case True
  then show ?thesis by (simp add: worker_xor_def prescript_decrypt_def)
next
  case False
  then show ?thesis by (auto simp: worker_xor_eq prescript_decrypt_eq)
qed

end
