(* ===== verification/Wire.thy ===== *)
theory Wire
  imports Rust_Std
begin

text \<open>
  The wire protocol between the server and the zygote worker: the constants and
  \<^verbatim>\<open>encode_frame\<close> of \<^verbatim>\<open>server/src/services/zygote.rs\<close>, the header decoding at the top of the
  loop of \<^verbatim>\<open>read_loop\<close>, and \<^verbatim>\<open>encode_frame\<close> of \<^verbatim>\<open>runtime/pool/protocol.py\<close>. A frame is a
  big-endian payload length, a message type, a big-endian request id and the payload.
\<close>

section \<open>Model\<close>

definition HEADER_SIZE :: nat where "HEADER_SIZE = 9"
definition MSG_RUN :: u8 where "MSG_RUN = 1"
definition MSG_KILL :: u8 where "MSG_KILL = 2"
definition MSG_STDOUT :: u8 where "MSG_STDOUT = 3"
definition MSG_STDERR :: u8 where "MSG_STDERR = 4"
definition MSG_DONE :: u8 where "MSG_DONE = 5"

lemmas msg_defs = MSG_RUN_def MSG_KILL_def MSG_STDOUT_def MSG_STDERR_def MSG_DONE_def

text \<open>\<^verbatim>\<open>payload.len() as u32\<close> truncates: the conversion to a word wraps around.\<close>

definition encode_frame :: "u8 \<Rightarrow> u32 \<Rightarrow> bytes \<Rightarrow> bytes" where
  "encode_frame msg_type req_id payload =
     (let plen = of_nat (length payload) :: u32 in
      u32_to_be_bytes plen @ [msg_type] @ u32_to_be_bytes req_id @ payload)"

text \<open>
  The Python encoder packs the same header with \<^verbatim>\<open>struct.Struct("!IBI")\<close>, which raises when a
  field does not fit its format.
\<close>

definition py_encode_frame :: "nat \<Rightarrow> nat \<Rightarrow> bytes \<Rightarrow> bytes option" where
  "py_encode_frame msg_type req_id payload =
     (if length payload < 2 ^ 32 \<and> msg_type < 2 ^ 8 \<and> req_id < 2 ^ 32
      then Some (u32_to_be_bytes (of_nat (length payload)) @ [of_nat msg_type] @
                 u32_to_be_bytes (of_nat req_id) @ payload)
      else None)"

text \<open>
  What the reader finds at the head of its buffer: not yet a whole frame, a frame whose
  announced payload exceeds the cap, or a frame with the bytes that follow it.
\<close>

datatype frame_head =
    Incomplete
  | Oversized nat
  | Frame u8 u32 bytes bytes \<comment> \<open>message type, request id, payload, rest of the buffer\<close>

definition next_frame :: "nat \<Rightarrow> bytes \<Rightarrow> frame_head" where
  "next_frame max_output frame_buf =
     (if length frame_buf < HEADER_SIZE then Incomplete
      else
        let plen = unat (u32_from_be_bytes (frame_buf ! 0) (frame_buf ! 1) (frame_buf ! 2) (frame_buf ! 3));
            mtype = frame_buf ! 4;
            req_id = u32_from_be_bytes (frame_buf ! 5) (frame_buf ! 6) (frame_buf ! 7) (frame_buf ! 8)
        in if plen > max_output then Oversized plen
           else if length frame_buf < HEADER_SIZE + plen then Incomplete
           else Frame mtype req_id (take plen (drop HEADER_SIZE frame_buf)) (drop (HEADER_SIZE + plen) frame_buf))"

text \<open>A message as the two sides exchange it, and its encoding.\<close>

type_synonym message = "u8 \<times> u32 \<times> bytes"

definition encode_message :: "message \<Rightarrow> bytes" where
  "encode_message m = (case m of (t, r, p) \<Rightarrow> encode_frame t r p)"

text \<open>A message the reader accepts: its length fits the header and the cap.\<close>

definition fits :: "nat \<Rightarrow> message \<Rightarrow> bool" where
  "fits max_output m = (case m of (t, r, p) \<Rightarrow> length p \<le> max_output \<and> length p < 2 ^ 32)"

section \<open>Encoding\<close>

lemma length_encode_frame [simp]: "length (encode_frame t r p) = HEADER_SIZE + length p"
  by (simp add: encode_frame_def HEADER_SIZE_def Let_def)

lemma encode_frame_bytes:
  "encode_frame t r p =
     [ucast (drop_bit 24 (of_nat (length p) :: u32)), ucast (drop_bit 16 (of_nat (length p) :: u32)),
      ucast (drop_bit 8 (of_nat (length p) :: u32)), ucast (of_nat (length p) :: u32), t,
      ucast (drop_bit 24 r), ucast (drop_bit 16 r), ucast (drop_bit 8 r), ucast r] @ p"
  by (simp add: encode_frame_def u32_to_be_bytes_def Let_def)

lemma py_encode_frame_eq:
  "length p < 2 ^ 32 \<Longrightarrow> py_encode_frame (unat t) (unat r) p = Some (encode_frame t r p)"
  using unsigned_less [of t] unsigned_less [of r]
  by (simp add: py_encode_frame_def encode_frame_def Let_def)

section \<open>Decoding\<close>

lemma next_frame_short: "length b < HEADER_SIZE \<Longrightarrow> next_frame m b = Incomplete"
  by (simp add: next_frame_def)

lemma next_frame_rest_length:
  "next_frame m b = Frame t r p rest \<Longrightarrow> length b = HEADER_SIZE + length p + length rest"
  by (auto simp: next_frame_def Let_def min_def split: if_splits)

lemma next_frame_rest_shorter [simp]:
  "next_frame m b = Frame t r p rest \<Longrightarrow> length rest < length b"
  by (drule next_frame_rest_length) (simp add: HEADER_SIZE_def)

text \<open>The header is the first nine bytes.\<close>

lemma header_take_drop:
  "take (9 + k) (b0 # b1 # b2 # b3 # b4 # b5 # b6 # b7 # b8 # xs) =
     b0 # b1 # b2 # b3 # b4 # b5 # b6 # b7 # b8 # take k xs"
  "drop (9 + k) (b0 # b1 # b2 # b3 # b4 # b5 # b6 # b7 # b8 # xs) = drop k xs"
  by (simp_all add: eval_nat_numeral)

text \<open>The head of a buffer that starts with an encoded frame.\<close>

lemma next_frame_header:
  assumes "length p < 2 ^ 32"
  shows "next_frame m (take n (encode_frame t r p @ rest)) =
    (if n < HEADER_SIZE then Incomplete
     else if m < length p then Oversized (length p)
     else if n < HEADER_SIZE + length p then Incomplete
     else Frame t r p (take (n - (HEADER_SIZE + length p)) rest))"
proof (cases "n < HEADER_SIZE")
  case True
  then show ?thesis by (simp add: next_frame_short)
next
  case False
  then obtain k where n: "n = 9 + k"
    by (metis HEADER_SIZE_def le_add_diff_inverse not_less)
  have plen: "unat (of_nat (length p) :: u32) = length p"
    using assms by (simp add: unat_of_nat)
  show ?thesis
    unfolding n encode_frame_bytes
    by (auto simp: next_frame_def HEADER_SIZE_def u32_from_to_be_bytes plen Let_def min_def header_take_drop)
qed

lemma next_frame_encode:
  assumes "fits m (t, r, p)"
  shows "next_frame m (encode_frame t r p @ rest) = Frame t r p rest"
  using assms next_frame_header [of p m "length (encode_frame t r p @ rest)" t r rest]
  by (simp add: fits_def)

lemma next_frame_encode_prefix:
  assumes "fits m (t, r, p)" and "n < length (encode_frame t r p)"
  shows "next_frame m (take n (encode_frame t r p)) = Incomplete"
  using assms next_frame_header [of p m n t r "[]"] by (simp add: fits_def)

text \<open>Decoding is exact in the other direction too: an accepted frame is the encoding of its parts.\<close>

lemma next_frame_decoded:
  assumes "next_frame m b = Frame t r p rest"
  shows "b = encode_frame t r p @ rest" and "length p \<le> m"
proof -
  have len: "HEADER_SIZE \<le> length b"
    using assms by (auto simp: next_frame_def split: if_splits)
  then obtain b0 b1 b2 b3 b4 b5 b6 b7 b8 tl where
    b: "b = b0 # b1 # b2 # b3 # b4 # b5 # b6 # b7 # b8 # tl"
    unfolding HEADER_SIZE_def by (auto simp: Suc_le_length_iff eval_nat_numeral)
  define plen where "plen = u32_from_be_bytes b0 b1 b2 b3"
  from assms have f: "t = b4" "r = u32_from_be_bytes b5 b6 b7 b8" "p = take (unat plen) tl"
    "rest = drop (unat plen) tl" "unat plen \<le> length tl" "unat plen \<le> m"
    unfolding b plen_def by (auto simp: next_frame_def HEADER_SIZE_def Let_def header_take_drop split: if_splits)
  then have "of_nat (length p) = plen" by simp
  then show "b = encode_frame t r p @ rest"
    using f unfolding b by (simp add: encode_frame_def plen_def u32_to_from_be_bytes)
  show "length p \<le> m" using f by simp
qed

section \<open>Properties\<close>

text \<open>The reader's decoding and the two encoders agree: a message within the cap, written by
  the server's encoder or by the worker's (which produce the same bytes), is decoded to its type,
  request id and payload with the following bytes untouched; and conversely whatever the reader
  accepts as a frame is the encoding of the parts it reports, within the cap.\<close>

theorem frame_roundtrip:
  assumes "fits mx (t, r, p)"
  shows "next_frame mx (encode_frame t r p @ rest) = Frame t r p rest \<and>
    py_encode_frame (unat t) (unat r) p = Some (encode_frame t r p) \<and>
    (\<forall>b t' r' p' rest'. next_frame mx b = Frame t' r' p' rest' \<longrightarrow>
       b = encode_frame t' r' p' @ rest' \<and> length p' \<le> mx)"
  using assms next_frame_decoded by (auto simp: next_frame_encode py_encode_frame_eq fits_def)

theorem frame_roundtrip_witness:
  "next_frame 100 (encode_frame MSG_STDOUT 7 [104, 105] @ [9]) = Frame MSG_STDOUT 7 [104, 105] [9]"
proof -
  have "fits 100 (MSG_STDOUT, 7, [104, 105])" by (simp add: fits_def)
  from frame_roundtrip [OF this, of "[9]"] show ?thesis by simp
qed

end
