(* ===== verification/Zygote.thy ===== *)
theory Zygote
  imports Wire "HOL-Library.Multiset"
begin

text \<open>
  The reader side of \<^verbatim>\<open>ZygoteManager\<close> (\<^verbatim>\<open>server/src/services/zygote.rs\<close>): the table of pending
  requests, the treatment of one frame, the inner loop that drains the receive buffer, and the
  end of the connection. \<^verbatim>\<open>DashMap\<close> is a table; a \<^verbatim>\<open>oneshot\<close> sender is named by the number of
  the call that created it, and a send appends to a log (\<open>delivered\<close>). The bytes handed to
  \<^verbatim>\<open>write_all\<close> are logged in \<open>written\<close>, one entry per frame.
\<close>

section \<open>Model\<close>

type_synonym chan = nat

text \<open>What a request yields: standard output, standard error, exit code.\<close>

type_synonym response = "string \<times> string \<times> i32"

record pending =
  p_out :: bytes
  p_err :: bytes
  p_tx :: "chan option"

record zygote =
  running :: bool
  next_id :: u32
  pending_map :: "(u32, pending) table"
  frame_buf :: bytes
  delivered :: "(chan \<times> response) list"
  written :: "bytes list"

subsection \<open>The output cap\<close>

definition DEFAULT_MAX_OUTPUT_BYTES :: nat where
  "DEFAULT_MAX_OUTPUT_BYTES = 10 * 1024 * 1024"

text \<open>The process environment is a parameter.\<close>

definition max_output_bytes :: "(string \<Rightarrow> string option) \<Rightarrow> nat" where
  "max_output_bytes env =
     (case Option.bind (env ''ZYGOTE_MAX_OUTPUT_BYTES'') parse_usize of
        Some n \<Rightarrow> (if n > 0 then n else DEFAULT_MAX_OUTPUT_BYTES)
      | None \<Rightarrow> DEFAULT_MAX_OUTPUT_BYTES)"

subsection \<open>One frame\<close>

definition lossy :: "bytes \<Rightarrow> string" where
  "lossy bs = bytes_str (from_utf8_lossy bs)"

text \<open>\<^verbatim>\<open>String::from_utf8\<close> with the lossy conversion as its fallback.\<close>

definition from_utf8_or_lossy :: "bytes \<Rightarrow> string" where
  "from_utf8_or_lossy bs = (if utf8_valid bs then bytes_str bs else lossy bs)"

definition limit_message :: "nat \<Rightarrow> string" where
  "limit_message max_output =
     ''output limit exceeded (> '' @ nat_digits max_output @ '' bytes); process killed''"

definition done_exit_code :: "bytes \<Rightarrow> i32" where
  "done_exit_code payload =
     (if length payload \<ge> 4
      then u32_from_be_bytes (payload ! 0) (payload ! 1) (payload ! 2) (payload ! 3)
      else - 1)"

text \<open>\<^verbatim>\<open>if let Some(tx) = tx { let _ = tx.send(v); }\<close>\<close>

definition send_opt :: "chan option \<Rightarrow> response \<Rightarrow> zygote \<Rightarrow> zygote" where
  "send_opt tx v z = (case tx of None \<Rightarrow> z | Some c \<Rightarrow> z\<lparr>delivered := delivered z @ [(c, v)]\<rparr>)"

definition write_frame :: "bytes \<Rightarrow> zygote \<Rightarrow> zygote" where
  "write_frame f z = z\<lparr>written := written z @ [f]\<rparr>"

definition remove_pending :: "u32 \<Rightarrow> zygote \<Rightarrow> zygote" where
  "remove_pending req_id z = z\<lparr>pending_map := AList.delete req_id (pending_map z)\<rparr>"

text \<open>The entry after the \<^verbatim>\<open>match mtype\<close>, and what the match sends.\<close>

definition match_entry :: "u8 \<Rightarrow> bytes \<Rightarrow> pending \<Rightarrow> pending" where
  "match_entry mtype payload p =
     (if mtype = MSG_STDOUT then p\<lparr>p_out := p_out p @ payload\<rparr>
      else if mtype = MSG_STDERR then p\<lparr>p_err := p_err p @ payload\<rparr>
      else if mtype = MSG_DONE then p\<lparr>p_tx := None\<rparr>
      else p)"

definition match_send :: "u8 \<Rightarrow> bytes \<Rightarrow> pending \<Rightarrow> zygote \<Rightarrow> zygote" where
  "match_send mtype payload p z =
     (if mtype = MSG_DONE
      then send_opt (p_tx p) (lossy (p_out p), lossy (p_err p), done_exit_code payload) z
      else z)"

definition over_limit :: "nat \<Rightarrow> u8 \<Rightarrow> pending \<Rightarrow> bool" where
  "over_limit max_output mtype p =
     (mtype \<in> {MSG_STDOUT, MSG_STDERR} \<and> saturating_add (length (p_out p)) (length (p_err p)) > max_output)"

text \<open>
  The treatment of one frame. A frame for an unknown request is dropped. A request whose
  accumulated output passes the cap is removed, answered with the limit message, and its child
  is killed; otherwise the entry is updated in place.
\<close>

definition handle_frame :: "nat \<Rightarrow> message \<Rightarrow> zygote \<Rightarrow> zygote" where
  "handle_frame max_output m z =
     (case m of (mtype, req_id, payload) \<Rightarrow>
      case map_of (pending_map z) req_id of
        None \<Rightarrow> z
      | Some entry \<Rightarrow>
          (let p = match_entry mtype payload entry;
               z1 = match_send mtype payload entry z
           in if over_limit max_output mtype p
              then write_frame (encode_frame MSG_KILL req_id [])
                     (send_opt (p_tx p) (from_utf8_or_lossy (p_out p), limit_message max_output, - 1)
                       (remove_pending req_id z1))
              else z1\<lparr>pending_map := AList.update req_id p (pending_map z1)\<rparr>))"

subsection \<open>The buffer\<close>

lemma frame_buf_frame_ops [simp]:
  "frame_buf (send_opt tx v z) = frame_buf z"
  "frame_buf (write_frame f z) = frame_buf z"
  "frame_buf (remove_pending r z) = frame_buf z"
  "frame_buf (match_send t d p z) = frame_buf z"
  by (simp_all add: send_opt_def write_frame_def remove_pending_def match_send_def split: option.splits)

lemma frame_buf_handle_frame [simp]: "frame_buf (handle_frame mx m z) = frame_buf z"
  by (simp add: handle_frame_def Let_def split: prod.splits option.splits)

text \<open>
  The inner \<^verbatim>\<open>while\<close>: take frames off the buffer until it holds no whole frame (\<^const>\<open>True\<close>) or
  an oversized one ends the outer loop (\<^const>\<open>False\<close>).
\<close>

function drain_frames :: "nat \<Rightarrow> zygote \<Rightarrow> zygote \<times> bool" where
  "drain_frames max_output z =
     (case next_frame max_output (frame_buf z) of
        Incomplete \<Rightarrow> (z, True)
      | Oversized n \<Rightarrow> (z, False)
      | Frame mtype req_id payload rest \<Rightarrow>
          drain_frames max_output (handle_frame max_output (mtype, req_id, payload) (z\<lparr>frame_buf := rest\<rparr>)))"
  by pat_completeness auto
termination
  by (relation "measure (\<lambda>(mx, z). length (frame_buf z))") auto

declare drain_frames.simps [simp del]

text \<open>\<^verbatim>\<open>for mut entry in pending.iter_mut()\<close>: every sender still present gets the message.\<close>

fun fail_entries :: "response \<Rightarrow> (u32, pending) table \<Rightarrow> zygote \<Rightarrow> zygote" where
  "fail_entries v [] z = z"
| "fail_entries v ((r, p) # t) z = fail_entries v t (send_opt (p_tx p) v z)"

definition fail_pending :: "string \<Rightarrow> zygote \<Rightarrow> zygote" where
  "fail_pending msg z =
     (fail_entries ([], msg, - 1) (pending_map z) z)\<lparr>pending_map := []\<rparr>"

text \<open>After the outer loop: the manager is marked dead and every pending request fails.\<close>

definition connection_lost :: "zygote \<Rightarrow> zygote" where
  "connection_lost z = fail_pending ''zygote connection lost'' (z\<lparr>running := False\<rparr>)"

text \<open>
  What one \<^verbatim>\<open>rd.read\<close> returned: an error, or bytes, no bytes meaning the end of the stream.
  The result says whether the reader goes on.
\<close>

datatype read_result = ReadErr | ReadOk bytes

definition on_read :: "nat \<Rightarrow> read_result \<Rightarrow> zygote \<Rightarrow> zygote \<times> bool" where
  "on_read max_output res z =
     (case res of
        ReadErr \<Rightarrow> (connection_lost z, False)
      | ReadOk data \<Rightarrow>
          (if data = [] then (connection_lost z, False)
           else case drain_frames max_output (z\<lparr>frame_buf := frame_buf z @ data\<rparr>) of
                  (z', True) \<Rightarrow> (z', True)
                | (z', False) \<Rightarrow> (connection_lost z', False)))"

text \<open>The whole task, on the sequence of results that its reads give.\<close>

fun read_loop :: "nat \<Rightarrow> read_result list \<Rightarrow> zygote \<Rightarrow> zygote \<times> bool" where
  "read_loop max_output [] z = (z, True)"
| "read_loop max_output (r # rs) z =
     (case on_read max_output r z of
        (z', True) \<Rightarrow> read_loop max_output rs z'
      | (z', False) \<Rightarrow> (z', False))"

section \<open>The buffer and the chunks it arrives in\<close>

lemma handle_frame_frame_buf_update:
  "handle_frame mx m (z\<lparr>frame_buf := b\<rparr>) = (handle_frame mx m z)\<lparr>frame_buf := b\<rparr>"
  by (simp add: handle_frame_def match_send_def send_opt_def write_frame_def remove_pending_def Let_def
      split: prod.splits option.splits)

lemma fail_entries_frame_buf_update:
  "fail_entries v t (z\<lparr>frame_buf := b\<rparr>) = (fail_entries v t z)\<lparr>frame_buf := b\<rparr>"
proof (induction v t z rule: fail_entries.induct)
  case (2 v r p t z)
  have "send_opt (p_tx p) v (z\<lparr>frame_buf := b\<rparr>) = (send_opt (p_tx p) v z)\<lparr>frame_buf := b\<rparr>"
    by (simp add: send_opt_def split: option.splits)
  with 2 show ?case by simp
qed simp

lemma frame_buf_update_comm:
  "z\<lparr>frame_buf := b, running := r\<rparr> = z\<lparr>running := r, frame_buf := b\<rparr>"
  "z\<lparr>frame_buf := b, pending_map := t\<rparr> = z\<lparr>pending_map := t, frame_buf := b\<rparr>"
  by (cases z; simp)+

lemma connection_lost_frame_buf_update:
  "connection_lost (z\<lparr>frame_buf := b\<rparr>) = (connection_lost z)\<lparr>frame_buf := b\<rparr>"
  by (simp add: connection_lost_def fail_pending_def frame_buf_update_comm fail_entries_frame_buf_update)

lemma next_frame_append:
  "next_frame mx a = Frame t r p rest \<Longrightarrow> next_frame mx (a @ b) = Frame t r p (rest @ b)"
  "next_frame mx a = Oversized n \<Longrightarrow> next_frame mx (a @ b) = Oversized n"
  by (auto simp: next_frame_def Let_def nth_append HEADER_SIZE_def split: if_splits)

text \<open>Draining a longer buffer is draining its front and then the rest behind what was left.\<close>

lemma drain_frames_append:
  "drain_frames mx (z\<lparr>frame_buf := frame_buf z @ b\<rparr>) =
     (case drain_frames mx z of
        (z', True) \<Rightarrow> drain_frames mx (z'\<lparr>frame_buf := frame_buf z' @ b\<rparr>)
      | (z', False) \<Rightarrow> (z'\<lparr>frame_buf := frame_buf z' @ b\<rparr>, False))"
proof (induction mx z rule: drain_frames.induct)
  case (1 mx z)
  show ?case
  proof (cases "next_frame mx (frame_buf z)")
    case Incomplete
    then show ?thesis by (simp add: drain_frames.simps [of mx z])
  next
    case (Oversized n)
    then show ?thesis
      by (subst drain_frames.simps) (simp add: next_frame_append drain_frames.simps [of mx z])
  next
    case (Frame t r p rest)
    with 1 [OF Frame] show ?thesis
      by (subst drain_frames.simps)
        (simp add: next_frame_append drain_frames.simps [of mx z] handle_frame_frame_buf_update)
  qed
qed

text \<open>The state without the receive buffer, which only the reader itself looks at.\<close>

definition visible :: "zygote \<times> bool \<Rightarrow> zygote \<times> bool" where
  "visible r = (case r of (z, ok) \<Rightarrow> (if ok then z else z\<lparr>frame_buf := []\<rparr>, ok))"

lemma read_loop_two_chunks:
  assumes "a \<noteq> []" and "b \<noteq> []"
  shows "visible (read_loop mx (ReadOk a # ReadOk b # rs) z) = visible (read_loop mx (ReadOk (a @ b) # rs) z)"
proof -
  let ?z = "z\<lparr>frame_buf := frame_buf z @ a\<rparr>"
  have "drain_frames mx (z\<lparr>frame_buf := frame_buf z @ a @ b\<rparr>) =
      (case drain_frames mx ?z of
        (z', True) \<Rightarrow> drain_frames mx (z'\<lparr>frame_buf := frame_buf z' @ b\<rparr>)
      | (z', False) \<Rightarrow> (z'\<lparr>frame_buf := frame_buf z' @ b\<rparr>, False))"
    using drain_frames_append [of mx ?z b] by simp
  then show ?thesis
    using assms
    by (auto simp: on_read_def visible_def connection_lost_frame_buf_update split: prod.splits bool.splits)
qed

lemma read_loop_chunks:
  assumes "a \<noteq> []" and "[] \<notin> set cs"
  shows "visible (read_loop mx (ReadOk a # map ReadOk cs) z) = visible (read_loop mx [ReadOk (a @ concat cs)] z)"
  using assms
proof (induction cs arbitrary: a)
  case (Cons b cs)
  then have "visible (read_loop mx (ReadOk a # map ReadOk (b # cs)) z)
      = visible (read_loop mx (ReadOk (a @ b) # map ReadOk cs) z)"
    unfolding list.map by (intro read_loop_two_chunks) auto
  also have "\<dots> = visible (read_loop mx [ReadOk ((a @ b) @ concat cs)] z)"
    using Cons.prems by (intro Cons.IH) auto
  finally show ?case
    by (simp only: append_assoc concat.simps)
qed simp

lemma drain_encoded:
  assumes "list_all (fits mx) ms" and "next_frame mx rest = Incomplete"
  shows "drain_frames mx (z\<lparr>frame_buf := concat (map encode_message ms) @ rest\<rparr>) =
    ((fold (handle_frame mx) ms z)\<lparr>frame_buf := rest\<rparr>, True)"
  using assms
proof (induction ms arbitrary: z)
  case Nil
  then show ?case by (subst drain_frames.simps) simp
next
  case (Cons m ms)
  obtain t r p where m: "m = (t, r, p)" by (cases m) auto
  have "next_frame mx (encode_message m @ concat (map encode_message ms) @ rest)
      = Frame t r p (concat (map encode_message ms) @ rest)"
    using Cons.prems unfolding m encode_message_def by (simp add: next_frame_encode)
  with Cons show ?case
    by (subst drain_frames.simps) (simp add: m handle_frame_frame_buf_update)
qed

section \<open>Effects of a frame\<close>

lemma frame_ops_simps [simp]:
  "pending_map (send_opt tx v z) = pending_map z"
  "pending_map (write_frame f z) = pending_map z"
  "pending_map (match_send t d p z) = pending_map z"
  "pending_map (remove_pending r z) = AList.delete r (pending_map z)"
  "running (send_opt tx v z) = running z"
  "running (write_frame f z) = running z"
  "running (remove_pending r z) = running z"
  "running (match_send t d p z) = running z"
  "next_id (send_opt tx v z) = next_id z"
  "next_id (write_frame f z) = next_id z"
  "next_id (remove_pending r z) = next_id z"
  "next_id (match_send t d p z) = next_id z"
  "delivered (write_frame f z) = delivered z"
  "delivered (remove_pending r z) = delivered z"
  "written (send_opt tx v z) = written z"
  "written (remove_pending r z) = written z"
  "written (match_send t d p z) = written z"
  by (simp_all add: send_opt_def write_frame_def remove_pending_def match_send_def split: option.splits)

lemma running_handle_frame [simp]: "running (handle_frame mx m z) = running z"
  by (simp add: handle_frame_def Let_def split: prod.splits option.splits)

lemma next_id_handle_frame [simp]: "next_id (handle_frame mx m z) = next_id z"
  by (simp add: handle_frame_def Let_def split: prod.splits option.splits)

lemma handle_frame_unknown: "map_of (pending_map z) r = None \<Longrightarrow> handle_frame mx (t, r, d) z = z"
  by (simp add: handle_frame_def)

lemma pending_map_handle_frame:
  "pending_map (handle_frame mx (t, r, d) z) =
     (case map_of (pending_map z) r of
        None \<Rightarrow> pending_map z
      | Some p \<Rightarrow>
          (if over_limit mx t (match_entry t d p) then AList.delete r (pending_map z)
           else AList.update r (match_entry t d p) (pending_map z)))"
  by (simp add: handle_frame_def Let_def split: option.splits)

text \<open>A frame touches the entry of its own request only.\<close>

lemma handle_frame_other:
  "r' \<noteq> r \<Longrightarrow> map_of (pending_map (handle_frame mx (t, r, d) z)) r' = map_of (pending_map z) r'"
  by (simp add: pending_map_handle_frame table_simps split: option.splits)

lemma table_wf_handle_frame:
  "table_wf (pending_map z) \<Longrightarrow> table_wf (pending_map (handle_frame mx m z))"
  by (cases m) (simp add: pending_map_handle_frame split: option.splits)

subsection \<open>Every sender is used at most once\<close>

definition tx_list :: "(u32, pending) table \<Rightarrow> chan list" where
  "tx_list t = List.map_filter (\<lambda>(r, p). p_tx p) t"

text \<open>The senders still held by the table together with those already used.\<close>

definition accounts :: "zygote \<Rightarrow> chan multiset" where
  "accounts z = mset (tx_list (pending_map z)) + mset (map fst (delivered z))"

definition opt_mset :: "chan option \<Rightarrow> chan multiset" where
  "opt_mset tx = (case tx of None \<Rightarrow> {#} | Some c \<Rightarrow> {#c#})"

lemma opt_mset_simps [simp]: "opt_mset None = {#}" "opt_mset (Some c) = {#c#}"
  by (simp_all add: opt_mset_def)

lemma tx_list_simps [simp]:
  "tx_list [] = []"
  "mset (tx_list ((r, p) # t)) = opt_mset (p_tx p) + mset (tx_list t)"
  by (auto simp: tx_list_def List.map_filter_simps split: option.splits)

lemma mset_tx_delete:
  "table_wf t \<Longrightarrow> map_of t r = Some p \<Longrightarrow>
     mset (tx_list t) = opt_mset (p_tx p) + mset (tx_list (AList.delete r t))"
proof (induction t)
  case (Cons a t)
  obtain k q where a: "a = (k, q)" by (cases a)
  show ?case
  proof (cases "k = r")
    case True
    with Cons.prems a have "map_of t r = None"
      by (auto simp: table_wf_def map_of_eq_None_iff)
    with True Cons.prems a show ?thesis by simp
  next
    case False
    with Cons a show ?thesis by (simp add: table_wf_def)
  qed
qed simp

lemma mset_tx_update:
  "table_wf t \<Longrightarrow> mset (tx_list (AList.update r p t)) = opt_mset (p_tx p) + mset (tx_list (AList.delete r t))"
proof (induction t)
  case (Cons a t)
  obtain k q where a: "a = (k, q)" by (cases a)
  show ?case
  proof (cases "k = r")
    case True
    with Cons.prems a have "map_of t r = None"
      by (auto simp: table_wf_def map_of_eq_None_iff)
    with True a show ?thesis by simp
  next
    case False
    with Cons a show ?thesis by (simp add: table_wf_def)
  qed
qed simp

lemma mset_send_opt:
  "mset (map fst (delivered (send_opt tx v z))) = opt_mset tx + mset (map fst (delivered z))"
  by (simp add: send_opt_def split: option.splits)

lemma match_tx: "opt_mset (p_tx p) = opt_mset (p_tx (match_entry t d p)) + (if t = MSG_DONE then opt_mset (p_tx p) else {#})"
  by (auto simp: match_entry_def msg_defs)

lemma mset_match_send:
  "mset (map fst (delivered (match_send t d p z))) =
     (if t = MSG_DONE then opt_mset (p_tx p) else {#}) + mset (map fst (delivered z))"
  by (simp add: match_send_def mset_send_opt del: mset_map)

text \<open>No frame loses a sender or uses one twice.\<close>

lemma accounts_handle_frame:
  assumes "table_wf (pending_map z)"
  shows "accounts (handle_frame mx m z) = accounts z"
proof (cases m)
  case (fields t r d)
  show ?thesis
  proof (cases "map_of (pending_map z) r")
    case None
    then show ?thesis by (simp add: fields handle_frame_unknown)
  next
    case (Some p)
    have "accounts z = opt_mset (p_tx (match_entry t d p)) + (if t = MSG_DONE then opt_mset (p_tx p) else {#})
        + mset (tx_list (AList.delete r (pending_map z))) + mset (map fst (delivered z))"
      unfolding accounts_def mset_tx_delete [OF assms Some] using match_tx [of p t d] by simp
    then show ?thesis
      using Some assms
      by (simp add: fields accounts_def handle_frame_def Let_def mset_tx_update mset_match_send mset_send_opt
          del: mset_map)
  qed
qed

lemma accounts_fail_entries:
  "mset (map fst (delivered (fail_entries v t z))) = mset (tx_list t) + mset (map fst (delivered z))"
  by (induction v t z rule: fail_entries.induct) (simp_all add: mset_send_opt del: mset_map)

lemma accounts_fail_pending: "accounts (fail_pending msg z) = accounts z"
  by (simp add: accounts_def fail_pending_def accounts_fail_entries del: mset_map)

lemma fail_entries_simps [simp]:
  "running (fail_entries v t z) = running z"
  "pending_map (fail_entries v t z) = pending_map z"
  "written (fail_entries v t z) = written z"
  "next_id (fail_entries v t z) = next_id z"
  "frame_buf (fail_entries v t z) = frame_buf z"
  by (induction v t z rule: fail_entries.induct) simp_all

lemma connection_lost_simps [simp]:
  "running (connection_lost z) = False"
  "pending_map (connection_lost z) = []"
  "accounts (connection_lost z) = accounts z"
  by (simp_all add: connection_lost_def accounts_fail_pending)
    (simp_all add: fail_pending_def accounts_def)

lemma delivered_fail_entries:
  "delivered (fail_entries v t z) = delivered z @ map (\<lambda>c. (c, v)) (tx_list t)"
  by (induction v t z rule: fail_entries.induct)
    (auto simp: send_opt_def tx_list_def List.map_filter_simps split: option.splits)

subsection \<open>Bounded memory\<close>

definition entry_bounded :: "nat \<Rightarrow> pending \<Rightarrow> bool" where
  "entry_bounded mx p = (length (p_out p) + length (p_err p) \<le> mx)"

definition pending_bounded :: "nat \<Rightarrow> zygote \<Rightarrow> bool" where
  "pending_bounded mx z = list_all (\<lambda>(r, p). entry_bounded mx p) (pending_map z)"

lemma over_limit_iff:
  "mx < usize_max \<Longrightarrow> t \<in> {MSG_STDOUT, MSG_STDERR} \<Longrightarrow> over_limit mx t p \<longleftrightarrow> \<not> entry_bounded mx p"
  by (auto simp: over_limit_def entry_bounded_def saturating_add_def)

lemma match_entry_other: "t \<notin> {MSG_STDOUT, MSG_STDERR} \<Longrightarrow> entry_bounded mx (match_entry t d p) = entry_bounded mx p"
  by (auto simp: match_entry_def entry_bounded_def)

lemma pending_bounded_handle_frame:
  assumes "mx < usize_max" and "pending_bounded mx z"
  shows "pending_bounded mx (handle_frame mx m z)"
proof (cases m)
  case (fields t r d)
  have keep: "\<forall>(k, p)\<in>set (pending_map z). entry_bounded mx p"
    using assms(2) by (simp add: pending_bounded_def list_all_iff)
  show ?thesis
  proof (cases "map_of (pending_map z) r")
    case None
    with assms show ?thesis by (simp add: fields handle_frame_unknown)
  next
    case (Some p)
    then have "entry_bounded mx p"
      using keep by (auto dest!: map_of_in_set)
    then have "\<not> over_limit mx t (match_entry t d p) \<Longrightarrow> entry_bounded mx (match_entry t d p)"
      using over_limit_iff [OF assms(1), of t] match_entry_other [of t mx d p] by blast
    then show ?thesis
      using keep set_update_subset [of r "match_entry t d p" "pending_map z"]
        set_delete_subset [of r "pending_map z"] Some
      by (auto simp: fields pending_bounded_def list_all_iff pending_map_handle_frame)
  qed
qed

text \<open>After draining, what is left of the buffer is less than one frame.\<close>

lemma drain_frames_rest:
  "drain_frames mx z = (z', True) \<Longrightarrow> next_frame mx (frame_buf z') = Incomplete"
proof (induction mx z rule: drain_frames.induct)
  case (1 mx z)
  then show ?case
    by (cases "next_frame mx (frame_buf z)") (auto simp: drain_frames.simps [of mx z])
qed

lemma next_frame_Incomplete_length: "next_frame mx b = Incomplete \<Longrightarrow> length b < HEADER_SIZE + mx"
  by (auto simp: next_frame_def Let_def HEADER_SIZE_def split: if_splits)

lemma drain_frames_invariant:
  assumes "drain_frames mx z = (z', ok)"
    and "\<And>m z b. P z \<Longrightarrow> P (handle_frame mx m (z\<lparr>frame_buf := b\<rparr>))" and "P z"
  shows "P z'"
  using assms
proof (induction mx z rule: drain_frames.induct)
  case (1 mx z)
  then show ?case
    by (cases "next_frame mx (frame_buf z)") (auto simp: drain_frames.simps [of mx z])
qed

subsection \<open>What a request receives\<close>

text \<open>The payloads of one type for one request, in the order of arrival.\<close>

definition stream_of :: "u8 \<Rightarrow> u32 \<Rightarrow> message list \<Rightarrow> bytes" where
  "stream_of t r ms = concat (map (\<lambda>(t', r', d). if t' = t \<and> r' = r then d else []) ms)"

lemma stream_of_simps [simp]:
  "stream_of t r [] = []"
  "stream_of t r ((t', r', d) # ms) = (if t' = t \<and> r' = r then d else []) @ stream_of t r ms"
  by (simp_all add: stream_of_def)

definition no_done :: "u32 \<Rightarrow> message list \<Rightarrow> bool" where
  "no_done r ms = list_all (\<lambda>(t, r', d). \<not> (t = MSG_DONE \<and> r' = r)) ms"

text \<open>
  As long as the output of a request stays within the cap and its child is not done, the entry
  accumulates exactly the request's own output, whatever else arrives in between.
\<close>

lemma collect_output:
  assumes "map_of (pending_map z) r = Some p" and "no_done r ms"
    and "length (p_out p @ stream_of MSG_STDOUT r ms) + length (p_err p @ stream_of MSG_STDERR r ms) \<le> mx"
  shows "map_of (pending_map (fold (handle_frame mx) ms z)) r =
    Some (p\<lparr>p_out := p_out p @ stream_of MSG_STDOUT r ms, p_err := p_err p @ stream_of MSG_STDERR r ms\<rparr>)"
  using assms
proof (induction ms arbitrary: z p)
  case (Cons m ms)
  obtain t r' d where m: "m = (t, r', d)" by (cases m) auto
  show ?case
  proof (cases "r' = r")
    case False
    with Cons show ?thesis
      by (simp add: m no_done_def handle_frame_other)
  next
    case True
    let ?p = "match_entry t d p"
    have nd: "t \<noteq> MSG_DONE" using Cons.prems True by (simp add: m no_done_def)
    have eqs: "p_out ?p @ stream_of MSG_STDOUT r ms = p_out p @ stream_of MSG_STDOUT r (m # ms)"
      "p_err ?p @ stream_of MSG_STDERR r ms = p_err p @ stream_of MSG_STDERR r (m # ms)"
      using nd True by (auto simp: m match_entry_def msg_defs)
    have same: "?p\<lparr>p_out := a, p_err := b\<rparr> = p\<lparr>p_out := a, p_err := b\<rparr>" for a b
      using nd by (cases p) (simp add: match_entry_def)
    have tot: "length (p_out ?p @ stream_of MSG_STDOUT r ms) + length (p_err ?p @ stream_of MSG_STDERR r ms) \<le> mx"
      using Cons.prems(3) unfolding eqs .
    then have "\<not> over_limit mx t ?p"
      by (simp add: over_limit_def saturating_add_def)
    then have "map_of (pending_map (handle_frame mx m z)) r = Some ?p"
      using Cons.prems(1) True by (simp add: m pending_map_handle_frame table_simps)
    from Cons.IH [OF this _ tot] Cons.prems(2) show ?thesis
      unfolding eqs same by (simp add: no_done_def)
  qed
qed simp

text \<open>The end of the child answers the request with what was collected.\<close>

lemma handle_done:
  assumes "map_of (pending_map z) r = Some p" and "p_tx p = Some c"
  shows "delivered (handle_frame mx (MSG_DONE, r, d) z) =
    delivered z @ [(c, lossy (p_out p), lossy (p_err p), done_exit_code d)]"
  using assms
  by (simp add: handle_frame_def match_send_def send_opt_def over_limit_def Let_def msg_defs)

text \<open>The frame that passes the cap answers the request, frees its entry and kills its child.\<close>

lemma handle_over_limit:
  assumes "map_of (pending_map z) r = Some p" and "p_tx p = Some c"
    and "over_limit mx t (match_entry t d p)"
  shows "delivered (handle_frame mx (t, r, d) z) =
      delivered z @ [(c, from_utf8_or_lossy (p_out (match_entry t d p)), limit_message mx, - 1)]"
    and "map_of (pending_map (handle_frame mx (t, r, d) z)) r = None"
    and "written (handle_frame mx (t, r, d) z) = written z @ [encode_frame MSG_KILL r []]"
proof -
  have "t \<noteq> MSG_DONE" "t \<in> {MSG_STDOUT, MSG_STDERR}"
    using assms(3) by (auto simp: over_limit_def msg_defs)
  then have "p_tx (match_entry t d p) = Some c"
    using assms(2) by (auto simp: match_entry_def)
  then show "delivered (handle_frame mx (t, r, d) z) =
      delivered z @ [(c, from_utf8_or_lossy (p_out (match_entry t d p)), limit_message mx, - 1)]"
    "map_of (pending_map (handle_frame mx (t, r, d) z)) r = None"
    "written (handle_frame mx (t, r, d) z) = written z @ [encode_frame MSG_KILL r []]"
    using assms \<open>t \<noteq> MSG_DONE\<close>
    by (simp_all add: handle_frame_def match_send_def send_opt_def write_frame_def Let_def table_simps)
qed

lemma done_exit_code_packed: "done_exit_code (u32_to_be_bytes code) = code"
  using u32_be_bytes_roundtrip [of code] by (simp add: done_exit_code_def u32_to_be_bytes_def)

lemma from_utf8_or_lossy_eq [simp]: "from_utf8_or_lossy bs = lossy bs"
  by (simp add: from_utf8_or_lossy_def lossy_def from_utf8_lossy_id)

text \<open>A stream of whole frames is read as the messages it encodes, however it is cut.\<close>

lemma encoded_stream_read:
  assumes "list_all (fits mx) ms" and "frame_buf z = []"
    and "chunk \<noteq> []" and "[] \<notin> set chunks" and "chunk @ concat chunks = concat (map encode_message ms)"
  shows "read_loop mx (ReadOk chunk # map ReadOk chunks) z = (fold (handle_frame mx) ms z, True)"
proof -
  have buf: "frame_buf (fold (handle_frame mx) ms z) = []"
    using assms(2) by (induction ms arbitrary: z) simp_all
  have "next_frame mx [] = Incomplete"
    by (simp add: next_frame_short HEADER_SIZE_def)
  from drain_encoded [OF assms(1) this, of z]
  have "drain_frames mx (z\<lparr>frame_buf := concat (map encode_message ms)\<rparr>) = (fold (handle_frame mx) ms z, True)"
    using buf by simp
  moreover have "concat (map encode_message ms) \<noteq> []"
    using assms(3,5) by (metis append_is_Nil_conv)
  ultimately have "read_loop mx [ReadOk (chunk @ concat chunks)] z = (fold (handle_frame mx) ms z, True)"
    unfolding assms(5) using assms(2) by (simp add: on_read_def)
  then show ?thesis
    using read_loop_chunks [OF assms(3,4), of mx z] by (simp add: visible_def split: prod.splits if_splits)
qed

section \<open>Properties\<close>

text \<open>How the kernel cuts the byte stream into reads does not matter: for any bytes whatever,
  well formed or not, reading them in any non-empty chunks leaves the manager in the state that
  one single read of all of them leaves it in, and the reader goes on in the one case exactly
  when it goes on in the other (when it stops, the dead reader's own buffer is disregarded).\<close>

theorem chunking_irrelevant:
  assumes "chunk \<noteq> []" and "[] \<notin> set chunks"
  shows "visible (read_loop mx (ReadOk chunk # map ReadOk chunks) z) =
    visible (read_loop mx [ReadOk (chunk @ concat chunks)] z)"
  using assms by (rule read_loop_chunks)

theorem chunking_irrelevant_witness:
  "\<forall>z. visible (read_loop 100 [ReadOk [0, 0], ReadOk [0, 1]] z) = visible (read_loop 100 [ReadOk [0, 0, 0, 1]] z)"
  using chunking_irrelevant [of "[0, 0]" "[[0, 1]]" 100] by simp

text \<open>A stream of encoded messages, each within the cap, that arrives in any chunks has exactly
  the effect of handling the messages one after the other, leaves nothing in the buffer and keeps
  the reader alive.\<close>

theorem stream_refines_messages:
  assumes "list_all (fits mx) ms" and "frame_buf z = []"
    and "chunk \<noteq> []" and "[] \<notin> set chunks" and "chunk @ concat chunks = concat (map encode_message ms)"
  shows "read_loop mx (ReadOk chunk # map ReadOk chunks) z = (fold (handle_frame mx) ms z, True)"
  using assms by (rule encoded_stream_read)

theorem stream_refines_messages_witness:
  "read_loop 100 [ReadOk (encode_frame MSG_STDOUT 7 [104]), ReadOk (encode_frame MSG_DONE 7 [])]
     \<lparr>running = True, next_id = 8, pending_map = [], frame_buf = [], delivered = [], written = []\<rparr> =
   (fold (handle_frame 100) [(MSG_STDOUT, 7, [104]), (MSG_DONE, 7, [])]
     \<lparr>running = True, next_id = 8, pending_map = [], frame_buf = [], delivered = [], written = []\<rparr>, True)"
  using stream_refines_messages [of 100 "[(MSG_STDOUT, 7, [104]), (MSG_DONE, 7, [])]"
      "\<lparr>running = True, next_id = 8, pending_map = [], frame_buf = [], delivered = [], written = []\<rparr>"
      "encode_frame MSG_STDOUT 7 [104]" "[encode_frame MSG_DONE 7 []]"]
  by (simp add: fits_def encode_message_def encode_frame_bytes)

text \<open>A request receives exactly its own output: if its standard output and standard error
  together stay within the cap, then whatever messages of other requests are interleaved, the
  message that ends the child answers the caller with the concatenation of the request's own
  output, its own error output (both decoded as UTF-8) and the reported exit code.\<close>

theorem request_receives_own_output:
  assumes "map_of (pending_map z) r = Some \<lparr>p_out = [], p_err = [], p_tx = Some c\<rparr>" and "no_done r ms"
    and "length (stream_of MSG_STDOUT r ms) + length (stream_of MSG_STDERR r ms) \<le> mx"
  shows "delivered (fold (handle_frame mx) (ms @ [(MSG_DONE, r, d)]) z) =
    delivered (fold (handle_frame mx) ms z) @
      [(c, lossy (stream_of MSG_STDOUT r ms), lossy (stream_of MSG_STDERR r ms), done_exit_code d)]"
  using collect_output [OF assms(1,2), of mx] assms(3) by (simp add: handle_done)

theorem request_receives_own_output_witness:
  "delivered (fold (handle_frame 100)
     ([(MSG_STDOUT, 7, [104]), (MSG_STDOUT, 8, [120]), (MSG_STDOUT, 7, [105])] @ [(MSG_DONE, 7, [0, 0, 0, 3])])
     \<lparr>running = True, next_id = 9, pending_map = [(7, \<lparr>p_out = [], p_err = [], p_tx = Some 1\<rparr>)],
      frame_buf = [], delivered = [], written = []\<rparr>) = [(1, ''hi'', [], 3)]"
proof -
  let ?z = "\<lparr>running = True, next_id = 9, pending_map = [(7, \<lparr>p_out = [], p_err = [], p_tx = Some 1\<rparr>)],
      frame_buf = [], delivered = [], written = []\<rparr>"
  let ?ms = "[(MSG_STDOUT, 7, [104]), (MSG_STDOUT, 8, [120]), (MSG_STDOUT, 7, [105])] :: message list"
  have "delivered (fold (handle_frame 100) ?ms ?z) = []"
    by (simp add: handle_frame_def match_entry_def match_send_def over_limit_def saturating_add_def
        usize_max_def msg_defs Let_def)
  moreover have "bytes_str [104, 105] = ''hi''" by code_simp
  then have "lossy (stream_of MSG_STDOUT 7 ?ms) = ''hi''" "lossy (stream_of MSG_STDERR 7 ?ms) = []"
    "done_exit_code [0, 0, 0, 3] = 3"
    by (simp_all add: lossy_def msg_defs from_utf8_lossy.simps utf8_step_def safe_get_def utf8_char_width_def
        done_exit_code_def u32_from_be_bytes_def)
  ultimately show ?thesis
    using request_receives_own_output [of ?z 7 1 ?ms 100 "[0, 0, 0, 3]"]
    by (simp add: no_done_def msg_defs)
qed

text \<open>The output cap: the message with which a request's accumulated output first exceeds the
  cap answers the caller with the collected standard output, the limit message and exit code -1,
  frees the request's buffers and sends the worker a kill for that request; a request at or
  below the cap is kept.\<close>

theorem output_cap_enforced:
  assumes "map_of (pending_map z) r = Some p" and "p_tx p = Some c" and "mx < usize_max"
    and "t \<in> {MSG_STDOUT, MSG_STDERR}"
  shows "if length (p_out p) + length (p_err p) + length d > mx
    then delivered (handle_frame mx (t, r, d) z) =
           delivered z @ [(c, lossy (p_out (match_entry t d p)), limit_message mx, - 1)] \<and>
         map_of (pending_map (handle_frame mx (t, r, d) z)) r = None \<and>
         written (handle_frame mx (t, r, d) z) = written z @ [encode_frame MSG_KILL r []]
    else handle_frame mx (t, r, d) z =
           z\<lparr>pending_map := AList.update r (match_entry t d p) (pending_map z)\<rparr>"
proof -
  have "length (p_out p) + length (p_err p) + length d > mx \<longleftrightarrow> over_limit mx t (match_entry t d p)"
    using assms(3,4) by (auto simp: over_limit_iff entry_bounded_def match_entry_def msg_defs)
  then show ?thesis
    using handle_over_limit [OF assms(1,2), of mx t d] assms(1,4)
    by (auto simp: handle_frame_def match_send_def Let_def msg_defs)
qed

theorem output_cap_enforced_witness:
  "delivered (handle_frame 1 (MSG_STDOUT, 7, [104, 105])
     \<lparr>running = True, next_id = 8, pending_map = [(7, \<lparr>p_out = [], p_err = [], p_tx = Some 1\<rparr>)],
      frame_buf = [], delivered = [], written = []\<rparr>) = [(1, lossy [104, 105], limit_message 1, - 1)]"
  using output_cap_enforced [of "\<lparr>running = True, next_id = 8, pending_map = [(7, \<lparr>p_out = [], p_err = [], p_tx = Some 1\<rparr>)],
      frame_buf = [], delivered = [], written = []\<rparr>" 7 "\<lparr>p_out = [], p_err = [], p_tx = Some 1\<rparr>" 1 1 MSG_STDOUT "[104, 105]"]
  by (simp add: usize_max_def match_entry_def)

text \<open>When the connection is lost every request still waiting for its answer is answered with
  the connection-lost error, nothing stays pending, and the manager reports itself dead; this is
  how a read error, the end of the stream and an oversized frame all end.\<close>

theorem connection_lost_answers_all:
  "let z' = connection_lost z in
     \<not> running z' \<and> pending_map z' = [] \<and>
     delivered z' = delivered z @ map (\<lambda>c. (c, [], ''zygote connection lost'', - 1)) (tx_list (pending_map z)) \<and>
     on_read mx ReadErr z = (z', False) \<and> on_read mx (ReadOk []) z = (z', False)"
  by (simp add: connection_lost_def fail_pending_def delivered_fail_entries on_read_def)

end
