(* ===== verification/Zygote_Run.thy ===== *)
theory Zygote_Run
  imports Zygote
begin

text \<open>
  The caller side of \<^verbatim>\<open>ZygoteManager\<close> (\<^verbatim>\<open>server/src/services/zygote.rs\<close>): \<^verbatim>\<open>run\<close>, \<^verbatim>\<open>stop\<close> and the
  drop of the manager, as a step relation in which any number of concurrent calls of \<^verbatim>\<open>run\<close>
  interleave with each other and with the reader task. A step is the code between two points
  at which another task can act: an atomic operation, a table operation or an \<^verbatim>\<open>await\<close>. The
  socket decides whether a write succeeds and the clock when a timeout fires, so both are
  nondeterministic. A call is named by the number of its \<^verbatim>\<open>oneshot\<close> channel.
\<close>

section \<open>Model\<close>

record sandbox_limits =
  l_uid :: u32
  l_gid :: u32
  l_net :: bool
  l_max_as :: u64
  l_timeout :: u64 \<comment> \<open>seconds\<close>
  l_privilege :: bool
  l_allowed_paths :: "string list"

text \<open>The object given to \<^verbatim>\<open>serde_json::json!\<close>; the rendering is a parameter (\<open>to_json\<close>).\<close>

record run_payload =
  rp_code :: string
  rp_key :: string
  rp_uid :: u32
  rp_gid :: u32
  rp_net :: bool
  rp_max_as :: u64
  rp_privilege :: bool
  rp_allowed_paths :: "string list"

definition make_payload :: "string \<Rightarrow> string \<Rightarrow> sandbox_limits \<Rightarrow> run_payload" where
  "make_payload code_b64 key_b64 limits =
     \<lparr>rp_code = code_b64, rp_key = key_b64, rp_uid = l_uid limits, rp_gid = l_gid limits,
      rp_net = l_net limits, rp_max_as = l_max_as limits, rp_privilege = l_privilege limits,
      rp_allowed_paths = l_allowed_paths limits\<rparr>"

definition run_frame :: "(run_payload \<Rightarrow> string) \<Rightarrow> u32 \<Rightarrow> run_payload \<Rightarrow> bytes" where
  "run_frame to_json req_id payload = encode_frame MSG_RUN req_id (str_bytes (to_json payload))"

subsection \<open>The manager\<close>

text \<open>The manager as \<^verbatim>\<open>new\<close> leaves it once the worker process runs.\<close>

definition new_manager :: zygote where
  "new_manager = \<lparr>running = True, next_id = 1, pending_map = [], frame_buf = [], delivered = [], written = []\<rparr>"

text \<open>The parts of \<^verbatim>\<open>run\<close>, in order.\<close>

definition take_id :: "zygote \<Rightarrow> u32 \<times> zygote" where
  "take_id z = (next_id z, z\<lparr>next_id := next_id z + 1\<rparr>)"

definition register :: "u32 \<Rightarrow> chan \<Rightarrow> zygote \<Rightarrow> zygote" where
  "register req_id tx z =
     z\<lparr>pending_map := AList.update req_id \<lparr>p_out = [], p_err = [], p_tx = Some tx\<rparr> (pending_map z)\<rparr>"

definition not_running_response :: response where
  "not_running_response = ([], ''zygote worker not running'', - 1)"

definition write_failed_response :: response where
  "write_failed_response = ([], ''zygote write failed'', - 1)"

definition timeout_response :: response where
  "timeout_response = ([], ''Execution timeout'', - 1)"

definition expire :: "u32 \<Rightarrow> zygote \<Rightarrow> zygote" where
  "expire req_id z = remove_pending req_id (write_frame (encode_frame MSG_KILL req_id []) z)"

definition stop :: "zygote \<Rightarrow> zygote" where
  "stop z = fail_pending ''zygote stopped'' (z\<lparr>running := False\<rparr>)"

text \<open>The drop of the manager: the flag, then the reader task, then kill and wait on the child.\<close>

datatype drop_action = AbortReader | KillChild | WaitChild

definition drop_manager :: "zygote \<Rightarrow> zygote \<times> drop_action list" where
  "drop_manager z = (z\<lparr>running := False\<rparr>, [AbortReader, KillChild, WaitChild])"

subsection \<open>Concurrent calls\<close>

datatype run_pc =
    NotCalled
  | Admitted                  \<comment> \<open>\<^verbatim>\<open>running\<close> was true\<close>
  | Numbered u32              \<comment> \<open>after \<^verbatim>\<open>next_id.fetch_add\<close>\<close>
  | Registered u32            \<comment> \<open>after \<^verbatim>\<open>pending.insert\<close>\<close>
  | Waiting u32               \<comment> \<open>after \<^verbatim>\<open>write_all\<close>, in \<^verbatim>\<open>timeout(limits.timeout, rx)\<close>\<close>
  | Received u32 response     \<comment> \<open>\<^verbatim>\<open>Ok(Ok(result))\<close>\<close>
  | Expired u32               \<comment> \<open>the other arm\<close>
  | Returned response

record zsys =
  mgr :: zygote
  reader_alive :: bool
  pcs :: "chan \<Rightarrow> run_pc"
  issued :: "chan list" \<comment> \<open>history: the calls in the order of their \<^verbatim>\<open>fetch_add\<close>\<close>

definition init_zsys :: zsys where
  "init_zsys = \<lparr>mgr = new_manager, reader_alive = True, pcs = (\<lambda>_. NotCalled), issued = []\<rparr>"

definition set_pc :: "chan \<Rightarrow> run_pc \<Rightarrow> zygote \<Rightarrow> zsys \<Rightarrow> zsys" where
  "set_pc c pc z s = s\<lparr>mgr := z, pcs := (pcs s)(c := pc)\<rparr>"

inductive zstep :: "nat \<Rightarrow> (chan \<Rightarrow> bytes) \<Rightarrow> zsys \<Rightarrow> zsys \<Rightarrow> bool" for max_output payload where
  not_running: "pcs s c = NotCalled \<Longrightarrow> \<not> running (mgr s) \<Longrightarrow>
     zstep max_output payload s (set_pc c (Returned not_running_response) (mgr s) s)"
| admitted: "pcs s c = NotCalled \<Longrightarrow> running (mgr s) \<Longrightarrow>
     zstep max_output payload s (set_pc c Admitted (mgr s) s)"
| numbered: "pcs s c = Admitted \<Longrightarrow> take_id (mgr s) = (r, z) \<Longrightarrow>
     zstep max_output payload s ((set_pc c (Numbered r) z s)\<lparr>issued := issued s @ [c]\<rparr>)"
| registered: "pcs s c = Numbered r \<Longrightarrow>
     zstep max_output payload s (set_pc c (Registered r) (register r c (mgr s)) s)"
| sent: "pcs s c = Registered r \<Longrightarrow>
     zstep max_output payload s
       (set_pc c (Waiting r) (write_frame (encode_frame MSG_RUN r (payload c)) (mgr s)) s)"
| send_failed: "pcs s c = Registered r \<Longrightarrow>
     zstep max_output payload s (set_pc c (Returned write_failed_response) (remove_pending r (mgr s)) s)"
| received: "pcs s c = Waiting r \<Longrightarrow> (c, v) \<in> set (delivered (mgr s)) \<Longrightarrow>
     zstep max_output payload s (set_pc c (Received r v) (mgr s) s)"
| expired: "pcs s c = Waiting r \<Longrightarrow>
     zstep max_output payload s (set_pc c (Expired r) (mgr s) s)"
| return_received: "pcs s c = Received r v \<Longrightarrow>
     zstep max_output payload s (set_pc c (Returned v) (remove_pending r (mgr s)) s)"
| return_expired: "pcs s c = Expired r \<Longrightarrow>
     zstep max_output payload s (set_pc c (Returned timeout_response) (expire r (mgr s)) s)"
| reader: "reader_alive s \<Longrightarrow> on_read max_output res (mgr s) = (z, alive) \<Longrightarrow>
     zstep max_output payload s (s\<lparr>mgr := z, reader_alive := alive\<rparr>)"
| stopped: "zstep max_output payload s (s\<lparr>mgr := stop (mgr s), reader_alive := False\<rparr>)"

inductive zreach :: "nat \<Rightarrow> (chan \<Rightarrow> bytes) \<Rightarrow> zsys \<Rightarrow> bool" for max_output payload where
  zinit: "zreach max_output payload init_zsys"
| zmore: "zreach max_output payload s \<Longrightarrow> zstep max_output payload s t \<Longrightarrow> zreach max_output payload t"

text \<open>The request id a call holds an entry under, while it is between insertion and removal.\<close>

fun holds :: "run_pc \<Rightarrow> u32 option" where
  "holds (Registered r) = Some r"
| "holds (Waiting r) = Some r"
| "holds (Received r v) = Some r"
| "holds (Expired r) = Some r"
| "holds _ = None"

fun id_of :: "run_pc \<Rightarrow> u32 option" where
  "id_of (Numbered r) = Some r"
| "id_of pc = holds pc"

fun past_insert :: "run_pc \<Rightarrow> bool" where
  "past_insert NotCalled = False"
| "past_insert Admitted = False"
| "past_insert (Numbered r) = False"
| "past_insert _ = True"

section \<open>A generic rule for the reader and the frames it handles\<close>

lemma on_read_invariant:
  assumes "on_read mx res z = (z', ok)" and "P z"
    and frame: "\<And>m z b. P z \<Longrightarrow> P (handle_frame mx m (z\<lparr>frame_buf := b\<rparr>))"
    and buf: "\<And>z b. P z \<Longrightarrow> P (z\<lparr>frame_buf := b\<rparr>)"
    and lost: "\<And>z. P z \<Longrightarrow> P (connection_lost z)"
  shows "P z'"
proof (cases res)
  case (ReadOk data)
  show ?thesis
  proof (cases "data = []")
    case False
    obtain z1 ok1 where d: "drain_frames mx (z\<lparr>frame_buf := frame_buf z @ data\<rparr>) = (z1, ok1)" by fastforce
    then have "P z1"
      by (rule drain_frames_invariant) (fact frame, rule buf, fact \<open>P z\<close>)
    with False d assms(1) ReadOk lost show ?thesis
      by (cases ok1) (auto simp: on_read_def)
  qed (use assms ReadOk in \<open>auto simp: on_read_def\<close>)
qed (use assms in \<open>auto simp: on_read_def\<close>)

lemma on_read_continues:
  assumes "on_read mx res z = (z', ok)"
  shows "ok \<Longrightarrow> running z' = running z" and "\<not> ok \<Longrightarrow> \<not> running z' \<and> pending_map z' = []"
proof -
  have inv: "running z1 = running z" if "drain_frames mx (z\<lparr>frame_buf := b\<rparr>) = (z1, k)" for b z1 k
    using that by (rule drain_frames_invariant) simp_all
  show "ok \<Longrightarrow> running z' = running z" "\<not> ok \<Longrightarrow> \<not> running z' \<and> pending_map z' = []"
    using assms inv by (auto simp: on_read_def split: read_result.splits if_splits prod.splits bool.splits)
qed

section \<open>Invariants of the manager\<close>

lemma zsys_simps [simp]:
  "mgr (set_pc c pc z s) = z"
  "pcs (set_pc c pc z s) = (pcs s)(c := pc)"
  "issued (set_pc c pc z s) = issued s"
  "reader_alive (set_pc c pc z s) = reader_alive s"
  by (simp_all add: set_pc_def)

lemma new_manager_simps [simp]:
  "running new_manager" "next_id new_manager = 1" "pending_map new_manager = []" "delivered new_manager = []"
  by (simp_all add: new_manager_def)

lemma init_zsys_simps [simp]:
  "mgr init_zsys = new_manager" "pcs init_zsys c = NotCalled" "issued init_zsys = []"
  by (simp_all add: init_zsys_def)

text \<open>An invariant of the reachable states: it holds at the start and every step keeps it.\<close>

lemma zreach_invariant:
  assumes "zreach mx pl s" and "P init_zsys"
    and "\<And>s t. zreach mx pl s \<Longrightarrow> P s \<Longrightarrow> zstep mx pl s t \<Longrightarrow> P t"
  shows "P s"
  using assms by (induction rule: zreach.induct) blast+

subsection \<open>The table is well formed and bounded\<close>

definition table_ok :: "nat \<Rightarrow> zygote \<Rightarrow> bool" where
  "table_ok mx z = (table_wf (pending_map z) \<and> pending_bounded mx z)"

lemma table_ok_connection_lost: "table_ok mx (connection_lost z)"
  by (simp add: table_ok_def pending_bounded_def)

lemma table_ok_on_read:
  assumes "mx < usize_max" and "on_read mx res z = (z', ok)" and "table_ok mx z"
  shows "table_ok mx z'"
  using assms(2,3)
proof (rule on_read_invariant)
  fix m and z :: zygote and b
  assume "table_ok mx z"
  then have "table_ok mx (handle_frame mx m z)"
    using assms(1) by (simp add: table_ok_def table_wf_handle_frame pending_bounded_handle_frame)
  then show "table_ok mx (handle_frame mx m (z\<lparr>frame_buf := b\<rparr>))"
    by (simp add: handle_frame_frame_buf_update table_ok_def pending_bounded_def)
qed (simp_all add: table_ok_connection_lost, simp add: table_ok_def pending_bounded_def)

lemma table_ok_ops:
  "table_ok mx z \<Longrightarrow> table_ok mx (remove_pending r z)"
  "table_ok mx z \<Longrightarrow> table_ok mx (write_frame f z)"
  "table_ok mx z \<Longrightarrow> table_ok mx (register r c z)"
  "table_ok mx z \<Longrightarrow> table_ok mx (z\<lparr>next_id := i\<rparr>)"
  "table_ok mx (stop z)"
proof -
  show "table_ok mx z \<Longrightarrow> table_ok mx (remove_pending r z)"
    using set_delete_subset [of r "pending_map z"]
    by (auto simp: table_ok_def pending_bounded_def list_all_iff)
  show "table_ok mx z \<Longrightarrow> table_ok mx (register r c z)"
    using set_update_subset [of r "\<lparr>p_out = [], p_err = [], p_tx = Some c\<rparr>" "pending_map z"]
    by (auto simp: table_ok_def pending_bounded_def list_all_iff register_def entry_bounded_def)
qed (simp_all add: table_ok_def pending_bounded_def stop_def fail_pending_def)

lemma zreach_table_ok:
  assumes "mx < usize_max" and "zreach mx pl s"
  shows "table_ok mx (mgr s)"
  using assms(2)
proof (rule zreach_invariant)
  show "table_ok mx (mgr init_zsys)"
    by (simp add: table_ok_def pending_bounded_def)
  fix s t
  assume "table_ok mx (mgr s)" "zstep mx pl s t"
  then show "table_ok mx (mgr t)"
    by (cases rule: zstep.cases [OF \<open>zstep mx pl s t\<close>])
      (auto simp: table_ok_ops take_id_def expire_def dest: table_ok_on_read [OF assms(1)])
qed

lemma table_wf_on_read:
  assumes "on_read mx res z = (z', ok)" and "table_wf (pending_map z)"
  shows "table_wf (pending_map z')"
  using assms by (rule on_read_invariant) (simp_all add: table_wf_handle_frame)

lemma zreach_table_wf: "zreach mx pl s \<Longrightarrow> table_wf (pending_map (mgr s))"
proof (rule zreach_invariant)
  fix s t
  assume "table_wf (pending_map (mgr s))" "zstep mx pl s t"
  then show "table_wf (pending_map (mgr t))"
    by (cases rule: zstep.cases [OF \<open>zstep mx pl s t\<close>])
      (auto simp: take_id_def expire_def register_def stop_def fail_pending_def dest: table_wf_on_read)
qed simp_all

subsection \<open>Senders\<close>

definition senders_ok :: "zsys \<Rightarrow> bool" where
  "senders_ok s = (\<forall>c. count (accounts (mgr s)) c \<le> (if past_insert (pcs s c) then 1 else 0))"

lemma accounts_ops [simp]:
  "accounts (write_frame f z) = accounts z"
  "accounts (z\<lparr>frame_buf := b\<rparr>) = accounts z"
  "accounts (z\<lparr>next_id := i\<rparr>) = accounts z"
  "accounts (z\<lparr>running := k\<rparr>) = accounts z"
  by (simp_all add: accounts_def)

lemma accounts_on_read:
  assumes "on_read mx res z = (z', ok)" and "table_wf (pending_map z)"
  shows "accounts z' = accounts z"
proof -
  have "table_wf (pending_map z') \<and> accounts z' = accounts z"
    using assms(1) by (rule on_read_invariant)
      (use assms(2) in \<open>simp_all add: table_wf_handle_frame accounts_handle_frame\<close>)
  then show ?thesis ..
qed

lemma accounts_stop: "accounts (stop z) = accounts z"
  by (simp add: stop_def accounts_fail_pending)

lemma tx_delete_subset: "table_wf t \<Longrightarrow> mset (tx_list (AList.delete r t)) \<subseteq># mset (tx_list t)"
  by (cases "map_of t r") (simp_all add: mset_tx_delete)

lemma accounts_remove_pending:
  assumes "table_wf (pending_map z)"
  shows "accounts (remove_pending r z) \<subseteq># accounts z"
  using tx_delete_subset [OF assms, of r] by (simp add: accounts_def)

lemma accounts_register:
  assumes "table_wf (pending_map z)"
  shows "accounts (register r c z) \<subseteq># add_mset c (accounts z)"
  using tx_delete_subset [OF assms, of r]
  by (simp add: accounts_def register_def mset_tx_update [OF assms])

lemma count_le_of_subset: "A \<subseteq># B \<Longrightarrow> count B c \<le> n \<Longrightarrow> count A c \<le> n"
  by (meson mset_subset_eq_count order_trans)

lemma senders_ok_smaller:
  assumes "senders_ok s" and "accounts z \<subseteq># accounts (mgr s)" and "past_insert (pcs s c) \<Longrightarrow> past_insert pc"
  shows "senders_ok (set_pc c pc z s)"
  unfolding senders_ok_def
proof
  fix d
  have "count (accounts z) d \<le> count (accounts (mgr s)) d"
    using assms(2) by (rule mset_subset_eq_count)
  also have "\<dots> \<le> (if past_insert (pcs s d) then 1 else 0)"
    using assms(1) by (simp add: senders_ok_def)
  also have "\<dots> \<le> (if past_insert (pcs (set_pc c pc z s) d) then 1 else 0)"
    using assms(3) by auto
  finally show "count (accounts (mgr (set_pc c pc z s))) d \<le> (if past_insert (pcs (set_pc c pc z s) d) then 1 else 0)"
    by simp
qed

lemma senders_ok_register:
  assumes "senders_ok s" and "pcs s c = Numbered r" and "table_wf (pending_map (mgr s))"
  shows "senders_ok (set_pc c (Registered r) (register r c (mgr s)) s)"
  unfolding senders_ok_def
proof
  fix d
  have "count (accounts (register r c (mgr s))) d \<le> count (add_mset c (accounts (mgr s))) d"
    using accounts_register [OF assms(3)] by (rule mset_subset_eq_count)
  moreover have "count (accounts (mgr s)) d \<le> (if past_insert (pcs s d) then 1 else 0)"
    using assms(1) by (simp add: senders_ok_def)
  ultimately show "count (accounts (mgr (set_pc c (Registered r) (register r c (mgr s)) s))) d
      \<le> (if past_insert (pcs (set_pc c (Registered r) (register r c (mgr s)) s) d) then 1 else 0)"
    using assms(2) by (auto split: if_splits)
qed

lemma senders_ok_issued [simp]: "senders_ok (s\<lparr>issued := l\<rparr>) = senders_ok s"
  by (simp add: senders_ok_def)

lemma zstep_senders_ok:
  assumes "zstep mx pl s t" and "senders_ok s" and wf: "table_wf (pending_map (mgr s))"
  shows "senders_ok t"
  using assms(1)
proof cases
  case (registered c r)
  with assms show ?thesis by (simp add: senders_ok_register)
next
  case (reader res z alive)
  with assms(2) accounts_on_read [OF reader(3) wf] show ?thesis
    by (simp add: senders_ok_def)
next
  case stopped
  with assms(2) show ?thesis by (simp add: senders_ok_def accounts_stop)
qed (use assms(2) accounts_remove_pending [OF wf] in
    \<open>auto intro!: senders_ok_smaller simp: take_id_def expire_def\<close>,
    simp add: accounts_def remove_pending_def write_frame_def)

lemma zreach_senders_ok:
  assumes "zreach mx pl s"
  shows "senders_ok s"
  using assms
proof (rule zreach_invariant)
  show "senders_ok init_zsys"
    by (simp add: senders_ok_def accounts_def)
qed (blast intro: zstep_senders_ok zreach_table_wf)

subsection \<open>Entries belong to calls in progress\<close>

text \<open>
  Every entry is held by some call in progress, and the sender in it is that of a call that
  holds this very request id.
\<close>

definition owners_ok :: "zsys \<Rightarrow> bool" where
  "owners_ok s =
     (\<forall>r p. map_of (pending_map (mgr s)) r = Some p \<longrightarrow>
        (\<exists>c. holds (pcs s c) = Some r) \<and> (\<forall>c. p_tx p = Some c \<longrightarrow> holds (pcs s c) = Some r))"

text \<open>A change of the table that only removes entries or drops senders.\<close>

definition table_shrinks :: "zygote \<Rightarrow> zygote \<Rightarrow> bool" where
  "table_shrinks z z' =
     (\<forall>r p'. map_of (pending_map z') r = Some p' \<longrightarrow>
        (\<exists>p. map_of (pending_map z) r = Some p \<and> (p_tx p' = p_tx p \<or> p_tx p' = None)))"

lemma table_shrinks_refl [simp]: "table_shrinks z z"
  by (simp add: table_shrinks_def)

lemma table_shrinks_trans: "table_shrinks a b \<Longrightarrow> table_shrinks b c \<Longrightarrow> table_shrinks a c"
  unfolding table_shrinks_def by (metis (no_types, lifting))

lemma p_tx_match_entry: "p_tx (match_entry t d p) = p_tx p \<or> p_tx (match_entry t d p) = None"
  by (simp add: match_entry_def)

lemma table_shrinks_handle_frame: "table_shrinks z (handle_frame mx m z)"
proof (cases m)
  case (fields t r d)
  then show ?thesis
    using p_tx_match_entry [of t d]
    by (auto simp: table_shrinks_def pending_map_handle_frame table_simps split: option.splits if_splits)
qed

lemma table_shrinks_on_read:
  assumes "on_read mx res z = (z', ok)"
  shows "table_shrinks z z'"
  using assms
proof (rule on_read_invariant)
  fix m z1 b
  assume "table_shrinks z z1"
  moreover have "table_shrinks z1 (handle_frame mx m (z1\<lparr>frame_buf := b\<rparr>))"
    using table_shrinks_handle_frame [of z1 mx m]
    by (simp add: handle_frame_frame_buf_update table_shrinks_def)
  ultimately show "table_shrinks z (handle_frame mx m (z1\<lparr>frame_buf := b\<rparr>))"
    by (rule table_shrinks_trans)
qed (simp_all add: table_shrinks_def)

lemma owners_ok_shrinks:
  assumes "owners_ok s" and "table_shrinks (mgr s) z" and "mgr t = z" and "pcs t = pcs s"
  shows "owners_ok t"
  using assms unfolding owners_ok_def table_shrinks_def by (metis option.distinct(1))

lemma owners_ok_set_pc:
  assumes "owners_ok s" and "holds (pcs s c) = holds pc" and "pending_map z = pending_map (mgr s)"
  shows "owners_ok (set_pc c pc z s)"
  using assms unfolding owners_ok_def by (simp, metis)

lemma owners_ok_release:
  assumes "owners_ok s" and "holds (pcs s c) = Some r" and "holds pc = None"
    and "pending_map z = AList.delete r (pending_map (mgr s))"
  shows "owners_ok (set_pc c pc z s)"
  using assms unfolding owners_ok_def by (auto simp: table_simps split: if_splits) (metis option.inject)+

lemma owners_ok_register:
  assumes "owners_ok s" and "pcs s c = Numbered r"
  shows "owners_ok (set_pc c (Registered r) (register r c (mgr s)) s)"
proof -
  have "holds (pcs s c) = None" using assms(2) by simp
  with assms(1) show ?thesis
    unfolding owners_ok_def register_def
    by (auto simp: table_simps split: if_splits) (metis option.distinct(1))+
qed

lemma owners_ok_issued [simp]: "owners_ok (s\<lparr>issued := l\<rparr>) = owners_ok s"
  by (simp add: owners_ok_def)

lemma zstep_owners_ok:
  assumes "zstep mx pl s t" and "owners_ok s"
  shows "owners_ok t"
  using assms(1)
proof cases
  case (registered c r)
  with assms show ?thesis by (simp add: owners_ok_register)
next
  case (send_failed c r)
  with assms show ?thesis by (auto intro: owners_ok_release)
next
  case (return_received c r v)
  with assms show ?thesis by (auto intro: owners_ok_release)
next
  case (return_expired c r)
  with assms show ?thesis by (auto intro: owners_ok_release simp: expire_def)
next
  case (reader res z alive)
  with assms table_shrinks_on_read [OF reader(3)] show ?thesis by (auto intro: owners_ok_shrinks)
next
  case stopped
  then show ?thesis by (simp add: owners_ok_def stop_def fail_pending_def)
qed (use assms in \<open>auto intro!: owners_ok_set_pc simp: take_id_def\<close>)

lemma zreach_owners_ok:
  assumes "zreach mx pl s"
  shows "owners_ok s"
  using assms
proof (rule zreach_invariant)
  show "owners_ok init_zsys" by (simp add: owners_ok_def)
qed (blast intro: zstep_owners_ok)

subsection \<open>Request ids\<close>

definition ids_ok :: "zsys \<Rightarrow> bool" where
  "ids_ok s =
     (next_id (mgr s) = of_nat (Suc (length (issued s))) \<and> distinct (issued s) \<and>
      (\<forall>c r. id_of (pcs s c) = Some r \<longrightarrow>
         (\<exists>k<length (issued s). issued s ! k = c \<and> r = of_nat (Suc k))) \<and>
      (\<forall>c\<in>set (issued s). pcs s c \<notin> {NotCalled, Admitted}))"

lemma next_id_on_read:
  assumes "on_read mx res z = (z', ok)"
  shows "next_id z' = next_id z"
  using assms by (rule on_read_invariant) (simp_all add: connection_lost_def fail_pending_def)

lemma ids_ok_set_pc:
  assumes "ids_ok s" and "id_of pc = id_of (pcs s c) \<or> id_of pc = None"
    and "pc \<notin> {NotCalled, Admitted} \<or> pcs s c = NotCalled" and "next_id z = next_id (mgr s)"
  shows "ids_ok (set_pc c pc z s)"
  using assms unfolding ids_ok_def by (auto split: if_splits)

lemma ids_ok_numbered:
  assumes "ids_ok s" and "pcs s c = Admitted"
  shows "ids_ok ((set_pc c (Numbered (next_id (mgr s))) (mgr s\<lparr>next_id := next_id (mgr s) + 1\<rparr>) s)\<lparr>issued := issued s @ [c]\<rparr>)"
proof -
  have "c \<notin> set (issued s)" using assms by (auto simp: ids_ok_def)
  with assms show ?thesis
    unfolding ids_ok_def by (auto simp: nth_append less_Suc_eq split: if_splits)
qed

lemma zstep_ids_ok:
  assumes "zstep mx pl s t" and "ids_ok s"
  shows "ids_ok t"
  using assms(1)
proof cases
  case (numbered c r z)
  with assms ids_ok_numbered [of s c] show ?thesis by (auto simp: take_id_def)
next
  case (reader res z alive)
  with assms(2) next_id_on_read [OF reader(3)] show ?thesis by (simp add: ids_ok_def)
next
  case stopped
  with assms(2) show ?thesis by (simp add: ids_ok_def stop_def fail_pending_def)
qed (use assms in \<open>auto intro!: ids_ok_set_pc simp: register_def expire_def\<close>)

lemma zreach_ids_ok:
  assumes "zreach mx pl s"
  shows "ids_ok s"
  using assms
proof (rule zreach_invariant)
  show "ids_ok init_zsys" by (simp add: ids_ok_def)
qed (blast intro: zstep_ids_ok)

text \<open>Fewer than \<open>2 ^ 32\<close> calls: no id is used twice.\<close>

lemma ids_distinct:
  assumes "ids_ok s" and "length (issued s) \<le> 2 ^ 32"
    and "id_of (pcs s c) = Some r" and "id_of (pcs s d) = Some r"
  shows "c = d"
proof -
  obtain k l where k: "k < length (issued s)" "issued s ! k = c" "r = of_nat (Suc k)"
    and l: "l < length (issued s)" "issued s ! l = d" "r = of_nat (Suc l)"
    using assms unfolding ids_ok_def by metis
  have "unat (of_nat k :: u32) = unat (of_nat l :: u32)"
    using k(3) l(3) by simp
  then have "k = l"
    using k(1) l(1) assms(2) by (simp add: unat_of_nat)
  with k l show ?thesis by simp
qed

lemma id_of_holds: "holds pc = Some r \<Longrightarrow> id_of pc = Some r"
  by (cases pc) simp_all

subsection \<open>Responses\<close>

text \<open>A response is one that the reader sent on the call's own channel, or one of three errors.\<close>

definition error_responses :: "response set" where
  "error_responses = {not_running_response, write_failed_response, timeout_response}"

definition responses_ok :: "zsys \<Rightarrow> bool" where
  "responses_ok s =
     (\<forall>c. (\<forall>r v. pcs s c = Received r v \<longrightarrow> (c, v) \<in> set (delivered (mgr s))) \<and>
          (\<forall>v. pcs s c = Returned v \<longrightarrow> v \<in> error_responses \<or> (c, v) \<in> set (delivered (mgr s))))"

lemma delivered_mono_handle_frame: "set (delivered z) \<subseteq> set (delivered (handle_frame mx m z))"
  by (auto simp: handle_frame_def match_send_def send_opt_def write_frame_def remove_pending_def Let_def
      split: prod.splits option.splits)

lemma delivered_mono_fail_pending: "set (delivered z) \<subseteq> set (delivered (fail_pending msg z))"
  by (auto simp: fail_pending_def delivered_fail_entries)

lemma delivered_mono_on_read:
  assumes "on_read mx res z = (z', ok)"
  shows "set (delivered z) \<subseteq> set (delivered z')"
  using assms
proof (rule on_read_invariant)
  fix m and z1 :: zygote and b
  assume "set (delivered z) \<subseteq> set (delivered z1)"
  also have "\<dots> \<subseteq> set (delivered (handle_frame mx m (z1\<lparr>frame_buf := b\<rparr>)))"
    using delivered_mono_handle_frame [of "z1\<lparr>frame_buf := b\<rparr>" mx m] by simp
  finally show "set (delivered z) \<subseteq> set (delivered (handle_frame mx m (z1\<lparr>frame_buf := b\<rparr>)))" .
next
  fix z1 :: zygote
  assume "set (delivered z) \<subseteq> set (delivered z1)"
  also have "\<dots> \<subseteq> set (delivered (connection_lost z1))"
    using delivered_mono_fail_pending [of "z1\<lparr>running := False\<rparr>"] by (simp add: connection_lost_def)
  finally show "set (delivered z) \<subseteq> set (delivered (connection_lost z1))" .
qed simp_all

lemma responses_ok_mono:
  assumes "responses_ok s" and "set (delivered (mgr s)) \<subseteq> set (delivered (mgr t))" and "pcs t = pcs s"
  shows "responses_ok t"
  using assms unfolding responses_ok_def by (simp, blast)

lemma responses_ok_set_pc:
  assumes "responses_ok s" and "delivered z = delivered (mgr s)"
    and "\<And>r v. pc = Received r v \<Longrightarrow> (c, v) \<in> set (delivered (mgr s))"
    and "\<And>v. pc = Returned v \<Longrightarrow> v \<in> error_responses \<or> (c, v) \<in> set (delivered (mgr s))"
  shows "responses_ok (set_pc c pc z s)"
  using assms unfolding responses_ok_def by auto

lemma responses_ok_issued [simp]: "responses_ok (s\<lparr>issued := l\<rparr>) = responses_ok s"
  by (simp add: responses_ok_def)

lemma zstep_responses_ok:
  assumes "zstep mx pl s t" and "responses_ok s"
  shows "responses_ok t"
  using assms(1)
proof cases
  case (reader res z alive)
  with assms(2) delivered_mono_on_read [OF reader(3)] show ?thesis
    by (auto intro!: responses_ok_mono [of s])
next
  case stopped
  have "set (delivered (mgr s)) \<subseteq> set (delivered (stop (mgr s)))"
    unfolding stop_def by (rule order_trans [OF _ delivered_mono_fail_pending]) simp
  with stopped assms(2) show ?thesis
    by (auto intro!: responses_ok_mono [of s])
next
  case (return_received c r v)
  then have "(c, v) \<in> set (delivered (mgr s))"
    using assms(2) unfolding responses_ok_def by blast
  with return_received assms(2) show ?thesis
    by (auto intro!: responses_ok_set_pc)
qed (use assms(2) in \<open>auto intro!: responses_ok_set_pc
    simp: take_id_def register_def expire_def error_responses_def\<close>)

lemma zreach_responses_ok:
  assumes "zreach mx pl s"
  shows "responses_ok s"
  using assms
proof (rule zreach_invariant)
  show "responses_ok init_zsys" by (simp add: responses_ok_def)
qed (blast intro: zstep_responses_ok)

subsection \<open>Calls return\<close>

text \<open>How many steps of its own a call still has to make at most.\<close>

fun own_steps :: "run_pc \<Rightarrow> nat" where
  "own_steps NotCalled = 6"
| "own_steps Admitted = 5"
| "own_steps (Numbered r) = 4"
| "own_steps (Registered r) = 3"
| "own_steps (Waiting r) = 2"
| "own_steps (Received r v) = 1"
| "own_steps (Expired r) = 1"
| "own_steps (Returned v) = 0"

lemma own_steps_0: "own_steps pc = 0 \<longleftrightarrow> (\<exists>v. pc = Returned v)"
  by (cases pc) auto

text \<open>A call that has not returned can make a step of its own, whatever the others did.\<close>

lemma own_step_possible:
  assumes "own_steps (pcs s c) \<noteq> 0"
  shows "\<exists>t. zstep mx pl s t \<and> own_steps (pcs t c) < own_steps (pcs s c)"
proof (cases "pcs s c")
  case NotCalled
  then show ?thesis
    by (cases "running (mgr s)") (force dest: zstep.admitted zstep.not_running)+
next
  case Admitted
  with zstep.numbered [OF Admitted, of "fst (take_id (mgr s))" "snd (take_id (mgr s))"] show ?thesis
    by fastforce
next
  case (Numbered r)
  with zstep.registered [OF Numbered] show ?thesis by fastforce
next
  case (Registered r)
  with zstep.sent [OF Registered] show ?thesis by fastforce
next
  case (Waiting r)
  with zstep.expired [OF Waiting] show ?thesis by fastforce
next
  case (Received r v)
  with zstep.return_received [OF Received] show ?thesis by fastforce
next
  case (Expired r)
  with zstep.return_expired [OF Expired] show ?thesis by fastforce
next
  case (Returned v)
  with assms show ?thesis by simp
qed

lemma call_returns:
  assumes "zreach mx pl s"
  shows "\<exists>t v. (zstep mx pl)\<^sup>*\<^sup>* s t \<and> pcs t c = Returned v"
  using assms
proof (induction "own_steps (pcs s c)" arbitrary: s rule: less_induct)
  case less
  show ?case
  proof (cases "own_steps (pcs s c) = 0")
    case True
    then show ?thesis by (auto simp: own_steps_0)
  next
    case False
    then obtain t where t: "zstep mx pl s t" "own_steps (pcs t c) < own_steps (pcs s c)"
      using own_step_possible by blast
    moreover have "zreach mx pl t" using less.prems t(1) by (rule zreach.zmore)
    ultimately obtain u v where "(zstep mx pl)\<^sup>*\<^sup>* t u" "pcs u c = Returned v"
      using less.hyps by blast
    with t(1) show ?thesis by (meson converse_rtranclp_into_rtranclp)
  qed
qed

lemma distinct_if_count_le_1:
  assumes "\<And>x. count (mset xs) x \<le> 1"
  shows "distinct xs"
  unfolding distinct_count_atmost_1
proof
  fix a
  show "count (mset xs) a = (if a \<in> set xs then 1 else 0)"
  proof (cases "a \<in> set xs")
    case True
    then have "0 < count (mset xs) a" by (simp only: count_greater_zero_iff set_mset_mset)
    with assms [of a] have "count (mset xs) a = 1" by linarith
    with True show ?thesis by simp
  qed (simp add: count_mset_0_iff)
qed

section \<open>Properties\<close>

text \<open>C27. Memory: in every state that any interleaving of calls and reads can reach, no pending
  request buffers more output than the cap.\<close>

theorem pending_output_bounded:
  assumes "zreach mx payload s" and "mx < usize_max" and "map_of (pending_map (mgr s)) r = Some p"
  shows "length (p_out p) + length (p_err p) \<le> mx"
proof -
  have "pending_bounded mx (mgr s)"
    using zreach_table_ok [OF assms(2,1)] by (simp add: table_ok_def)
  then show ?thesis
    using map_of_in_set [OF assms(3)] by (force simp: pending_bounded_def list_all_iff entry_bounded_def)
qed

text \<open>C11. Every call is answered at most once, and only after it has registered: in every
  reachable state the log of answers holds no call twice, no call both answered and still
  holding a sender, and no call that has not inserted its entry.\<close>

theorem answered_at_most_once:
  assumes "zreach mx payload s"
  shows "distinct (map fst (delivered (mgr s))) \<and>
    set (map fst (delivered (mgr s))) \<inter> set (tx_list (pending_map (mgr s))) = {} \<and>
    (\<forall>c\<in>set (map fst (delivered (mgr s))). past_insert (pcs s c))"
proof -
  have le: "count (accounts (mgr s)) c \<le> (if past_insert (pcs s c) then 1 else 0)" for c
    using zreach_senders_ok [OF assms] by (simp add: senders_ok_def)
  have "mset (map fst (delivered (mgr s)) @ tx_list (pending_map (mgr s))) = accounts (mgr s)"
    by (simp add: accounts_def)
  then have le': "count (mset (map fst (delivered (mgr s)) @ tx_list (pending_map (mgr s)))) c
      \<le> (if past_insert (pcs s c) then 1 else 0)" for c
    using le [of c] by simp
  have "distinct (map fst (delivered (mgr s)) @ tx_list (pending_map (mgr s)))"
    by (rule distinct_if_count_le_1) (rule order_trans [OF le'], simp)
  moreover have "past_insert (pcs s c)" if "c \<in> set (map fst (delivered (mgr s)))" for c
  proof (rule ccontr)
    assume "\<not> past_insert (pcs s c)"
    with le' [of c] have "count (mset (map fst (delivered (mgr s)) @ tx_list (pending_map (mgr s)))) c = 0"
      by (simp only: if_False le_zero_eq)
    then have "c \<notin># mset (map fst (delivered (mgr s)) @ tx_list (pending_map (mgr s)))"
      by (simp only: not_in_iff)
    with that show False by simp
  qed
  ultimately show ?thesis by auto
qed

text \<open>No leak and no cross-talk, however calls, reads, timeouts and failures interleave: every
  entry of the pending table is held by a call in progress under that very id, and as long as
  fewer than \<open>2 ^ 32\<close> calls have drawn an id, the sender in the entry of a waiting call is that
  call's own, so no other call can be given its answer.\<close>

theorem pending_entries_owned:
  assumes "zreach mx payload s" and "map_of (pending_map (mgr s)) r = Some p"
  shows "(\<exists>c. holds (pcs s c) = Some r) \<and>
    (\<forall>c d. length (issued s) \<le> 2 ^ 32 \<and> holds (pcs s c) = Some r \<and> p_tx p = Some d \<longrightarrow> d = c)"
proof -
  have o: "\<exists>c. holds (pcs s c) = Some r" "\<And>d. p_tx p = Some d \<Longrightarrow> holds (pcs s d) = Some r"
    using zreach_owners_ok [OF assms(1)] assms(2) unfolding owners_ok_def by blast+
  then show ?thesis
    using ids_distinct [OF zreach_ids_ok [OF assms(1)]] by (blast dest: id_of_holds)
qed


text \<open>A run in which call 0 registers, sends its request and waits.\<close>

definition waiting_zsys :: zsys where
  "waiting_zsys =
     (let s1 = set_pc 0 Admitted new_manager init_zsys;
          s2 = (set_pc 0 (Numbered 1) (new_manager\<lparr>next_id := 2\<rparr>) s1)\<lparr>issued := [0]\<rparr>;
          s3 = set_pc 0 (Registered 1) (register 1 0 (mgr s2)) s2
      in set_pc 0 (Waiting 1) (write_frame (encode_frame MSG_RUN 1 []) (mgr s3)) s3)"

lemma zreach_waiting: "zreach mx (\<lambda>_. []) waiting_zsys"
proof -
  let ?s1 = "set_pc 0 Admitted new_manager init_zsys"
  let ?s2 = "(set_pc 0 (Numbered 1) (new_manager\<lparr>next_id := 2\<rparr>) ?s1)\<lparr>issued := [0]\<rparr>"
  let ?s3 = "set_pc 0 (Registered 1) (register 1 0 (mgr ?s2)) ?s2"
  have "zreach mx (\<lambda>_. []) ?s1"
    using zstep.admitted [of init_zsys 0 mx "\<lambda>_. []"] by (intro zreach.zmore [OF zreach.zinit]) simp
  moreover have "zstep mx (\<lambda>_. []) ?s1 ?s2"
    using zstep.numbered [of ?s1 0 1 "new_manager\<lparr>next_id := 2\<rparr>" mx "\<lambda>_. []"]
    by (simp add: take_id_def init_zsys_def)
  ultimately have "zreach mx (\<lambda>_. []) ?s2" by (rule zreach.zmore)
  moreover have "zstep mx (\<lambda>_. []) ?s2 ?s3"
    by (rule zstep.registered) simp
  ultimately have "zreach mx (\<lambda>_. []) ?s3" by (rule zreach.zmore)
  moreover have "zstep mx (\<lambda>_. []) ?s3 waiting_zsys"
    using zstep.sent [of ?s3 0 1 mx "\<lambda>_. []"] by (simp add: waiting_zsys_def Let_def)
  ultimately show ?thesis by (rule zreach.zmore)
qed

lemma waiting_zsys_simps:
  "map_of (pending_map (mgr waiting_zsys)) 1 = Some \<lparr>p_out = [], p_err = [], p_tx = Some 0\<rparr>"
  "pcs waiting_zsys 0 = Waiting 1" "issued waiting_zsys = [0]"
  by (simp_all add: waiting_zsys_def Let_def register_def table_simps)

theorem pending_output_bounded_witness:
  "length (p_out \<lparr>p_out = [], p_err = [], p_tx = Some 0\<rparr>) + length (p_err \<lparr>p_out = [], p_err = [], p_tx = Some 0\<rparr>) \<le> 100"
  by (rule pending_output_bounded [OF zreach_waiting _ waiting_zsys_simps(1)]) (simp add: usize_max_def)

theorem answered_at_most_once_witness: "distinct (map fst (delivered (mgr waiting_zsys)))"
  using answered_at_most_once [OF zreach_waiting [of 100]] by blast

theorem pending_entries_owned_witness: "\<exists>c. holds (pcs waiting_zsys c) = Some 1"
  using pending_entries_owned [OF zreach_waiting [of 100] waiting_zsys_simps(1)] by blast


end
