(* ===== verification/Python_Runner.thy ===== *)
theory Python_Runner
  imports Process Template Crypto Zygote_Run
begin

text \<open>
  \<^verbatim>\<open>server/src/services/python.rs\<close>: the script built for a fresh interpreter, and the choice between
  the zygote (fast path) and the interpreter (slow path). The random generator, the base64
  engine, the JSON rendering of a list of paths, the operating system and the zygote are
  parameters. \<^verbatim>\<open>get_zygote()\<close> gives \<open>None\<close> or a handle: whether it is running, and its \<^verbatim>\<open>run\<close>.
  The outermost \<open>None\<close> is a panic.
\<close>

section \<open>Model\<close>

text \<open>Paths that both paths add to those of the configuration; the slow path adds one more.\<close>

definition fast_extra_paths :: "string list" where
  "fast_extra_paths =
     [''/etc/ssl/certs'', ''/etc/hosts'', ''/etc/resolv.conf'', ''/etc/nsswitch.conf'', ''/etc/localtime'']"

definition slow_extra_paths :: "string list" where
  "slow_extra_paths =
     [''/etc/ssl/certs'', ''/etc/hosts'', ''/etc/resolv.conf'', ''/etc/nsswitch.conf'', ''/etc/localtime'',
      ''/usr/share/zoneinfo'']"

definition landlock_paths :: "config \<Rightarrow> string list \<Rightarrow> string list" where
  "landlock_paths config extra = cfg_python_lib_paths config @ cfg_nodejs_lib_paths config @ extra"

text \<open>\<^verbatim>\<open>(flag as i32).to_string()\<close>\<close>

definition flag_string :: "bool \<Rightarrow> string" where
  "flag_string b = (if b then ''1'' else ''0'')"

definition allowed_paths_json :: "(string list \<Rightarrow> string) \<Rightarrow> config \<Rightarrow> string" where
  "allowed_paths_json json_paths config =
     (if cfg_privilege config then ''[]'' else json_paths (landlock_paths config slow_extra_paths))"

definition python_build_script ::
  "base64_ops \<Rightarrow> (bytes \<Rightarrow> bytes) \<Rightarrow> (string list \<Rightarrow> string) \<Rightarrow> config \<Rightarrow> bytes \<Rightarrow> string \<Rightarrow> runner_options
     \<Rightarrow> (string \<times> string) option" where
  "python_build_script e rng json_paths config code preload options =
     (let key = generate_key rng 64;
          encoded_key = b64_encode e key;
          enable_net = flag_string (network_enabled config options);
          preload = checked_preload config preload;
          script = str_replace (hole ''uid'') (u32_to_string (cfg_sandbox_uid config)) PYTHON_PRESCRIPT;
          script = str_replace (hole ''gid'') (u32_to_string (cfg_sandbox_gid config)) script;
          script = str_replace (hole ''enable_network'') enable_net script;
          script = str_replace (hole ''max_as'') (u64_to_string (cfg_python_max_as_bytes config)) script;
          script = str_replace (hole ''privilege'') (flag_string (cfg_privilege config)) script;
          script = str_replace (hole ''allowed_paths'') (allowed_paths_json json_paths config) script;
          script = str_replace (hole ''preload'') (preload @ [CHR 0x0A]) script
      in case encrypt_code e code key of
           None \<Rightarrow> None
         | Some encoded_code \<Rightarrow> Some (str_replace (hole ''code'') encoded_code script, encoded_key))"

definition python_command :: "environment \<Rightarrow> config \<Rightarrow> string \<Rightarrow> command" where
  "python_command env config encoded_key =
     kill_on_drop (in_dir LIB_PATH (piped_all (with_args [''-B'', ''-'', LIB_PATH, encoded_key]
       (with_envs (proxy_env_vars (cfg_proxy config))
         (pass_path env (env_clear (command_new (cfg_python_path config))))))))"

definition zygote_limits :: "config \<Rightarrow> runner_options \<Rightarrow> sandbox_limits" where
  "zygote_limits config options =
     \<lparr>l_uid = cfg_sandbox_uid config, l_gid = cfg_sandbox_gid config, l_net = network_enabled config options,
      l_max_as = cfg_python_max_as_bytes config, l_timeout = cfg_worker_timeout config,
      l_privilege = cfg_privilege config,
      l_allowed_paths = (if cfg_privilege config then [] else landlock_paths config fast_extra_paths)\<rparr>"

type_synonym zygote_handle = "bool \<times> (string \<Rightarrow> string \<Rightarrow> sandbox_limits \<Rightarrow> string \<times> string \<times> i32)"

definition python_slow ::
  "base64_ops \<Rightarrow> (bytes \<Rightarrow> bytes) \<Rightarrow> (string list \<Rightarrow> string) \<Rightarrow> environment \<Rightarrow> os \<Rightarrow> config \<Rightarrow> bytes \<Rightarrow> string
     \<Rightarrow> runner_options \<Rightarrow> (execution_result, string) result option" where
  "python_slow e rng json_paths env os config code preload options =
     (case python_build_script e rng json_paths config code preload options of
        None \<Rightarrow> None
      | Some (script, encoded_key) \<Rightarrow> Some
          (run_child os ''python'' (python_command env config encoded_key) (str_bytes script)
             (cfg_worker_timeout config)))"

definition python_fast ::
  "base64_ops \<Rightarrow> (bytes \<Rightarrow> bytes) \<Rightarrow> (string \<Rightarrow> string \<Rightarrow> sandbox_limits \<Rightarrow> string \<times> string \<times> i32) \<Rightarrow> config
     \<Rightarrow> bytes \<Rightarrow> runner_options \<Rightarrow> (execution_result, string) result option" where
  "python_fast e rng zygote_run config code options =
     (let key = generate_key rng 64 in
      case encrypt_code e code key of
        None \<Rightarrow> None
      | Some enc_code \<Rightarrow>
          (case zygote_run enc_code (b64_encode e key) (zygote_limits config options) of
             (out, err, exit_code) \<Rightarrow>
               Some (Inr \<lparr>ex_stdout = out, ex_stderr = err, ex_exit_code = exit_code\<rparr>)))"

text \<open>The result, and whether a restart of the zygote was requested on the way.\<close>

definition python_run ::
  "base64_ops \<Rightarrow> (bytes \<Rightarrow> bytes) \<Rightarrow> (string list \<Rightarrow> string) \<Rightarrow> environment \<Rightarrow> os \<Rightarrow> zygote_handle option
     \<Rightarrow> config \<Rightarrow> string \<Rightarrow> string \<Rightarrow> runner_options
     \<Rightarrow> (execution_result, string) result option \<times> bool" where
  "python_run e rng json_paths env os zygote config code_b64 preload options =
     (case b64_decode e code_b64 of
        Inl err \<Rightarrow> (Some (Inl (''base64 decode: '' @ err)), False)
      | Inr code \<Rightarrow>
          (let preload = checked_preload config preload;
               slow = python_slow e rng json_paths env os config code preload options in
           if cfg_python_zygote config \<and> preload = [] then
             (case zygote of
                None \<Rightarrow> (slow, False)
              | Some (is_running, run) \<Rightarrow>
                  if is_running then (python_fast e rng run config code options, False)
                  else (slow, True))
           else (slow, False)))"

section \<open>Facts\<close>

definition python_values ::
  "(string list \<Rightarrow> string) \<Rightarrow> config \<Rightarrow> string \<Rightarrow> runner_options \<Rightarrow> string \<Rightarrow> string \<Rightarrow> string" where
  "python_values json_paths config preload options encoded_code h =
     (if h = ''uid'' then u32_to_string (cfg_sandbox_uid config)
      else if h = ''gid'' then u32_to_string (cfg_sandbox_gid config)
      else if h = ''enable_network'' then flag_string (network_enabled config options)
      else if h = ''max_as'' then u64_to_string (cfg_python_max_as_bytes config)
      else if h = ''privilege'' then flag_string (cfg_privilege config)
      else if h = ''allowed_paths'' then allowed_paths_json json_paths config
      else if h = ''preload'' then checked_preload config preload @ [CHR 0x0A]
      else encoded_code)"

lemma prescript_py_holes:
  "hole_names prescript_py =
     [''privilege'', ''allowed_paths'', ''uid'', ''gid'', ''enable_network'', ''max_as'', ''preload'', ''code'']"
  by (simp add: prescript_py_def)

lemma plain_names:
  "plain ''uid''" "plain ''gid''" "plain ''enable_network''" "plain ''max_as''" "plain ''privilege''"
  "plain ''allowed_paths''" "plain ''preload''" "plain ''code''"
  by (simp_all add: plain_def)

lemma no_hole_numbers: "no_hole (u32_to_string a)" "no_hole (u64_to_string b)" "no_hole (flag_string f)"
  by (simp_all add: u32_to_string_def u64_to_string_def flag_string_def no_hole_digits)

lemma code_ready:
  assumes "list_all clean ps" and "free_of (hole ''code'') v"
  shows "list_all (ready ''code'') (map (fill ''preload'' v) ps)"
proof -
  have "ready ''code'' (fill ''preload'' v p)" if "clean p" for p
    using that assms(2) by (cases p) (auto simp: clean_def no_hole_free)
  with assms(1) show ?thesis by (auto simp: list_all_iff)
qed

lemma replace_all_holes:
  assumes paths: "no_hole paths" and preload: "free_of (hole ''code'') pre"
    and vs: "no_hole uid" "no_hole gid" "no_hole net" "no_hole max_as" "no_hole priv"
    and clean: "list_all clean ps"
  shows "str_replace (hole ''code'') code (str_replace (hole ''preload'') pre
     (str_replace (hole ''allowed_paths'') paths (str_replace (hole ''privilege'') priv
     (str_replace (hole ''max_as'') max_as (str_replace (hole ''enable_network'') net
     (str_replace (hole ''gid'') gid (str_replace (hole ''uid'') uid (template_text ps)))))))) =
   template_text (map (\<lambda>p. fill ''code'' code (fill ''preload'' pre (fill ''allowed_paths'' paths
     (fill ''privilege'' priv (fill ''max_as'' max_as (fill ''enable_network'' net
     (fill ''gid'' gid (fill ''uid'' uid p)))))))) ps)"
proof -
  note c1 = replace_clean [OF plain_names(1) clean vs(1)]
  note c2 = replace_clean [OF plain_names(2) c1(2) vs(2)]
  note c3 = replace_clean [OF plain_names(3) c2(2) vs(3)]
  note c4 = replace_clean [OF plain_names(4) c3(2) vs(4)]
  note c5 = replace_clean [OF plain_names(5) c4(2) vs(5)]
  note c6 = replace_clean [OF plain_names(6) c5(2) paths]
  have r7: "list_all (ready ''preload'') (map (fill ''allowed_paths'' paths) (map (fill ''privilege'' priv)
      (map (fill ''max_as'' max_as) (map (fill ''enable_network'' net) (map (fill ''gid'' gid) (map (fill ''uid'' uid) ps))))))"
    using c6(2) by (auto simp: list_all_iff clean_ready)
  show ?thesis
    unfolding c1(1) c2(1) c3(1) c4(1) c5(1) c6(1) str_replace_template [OF plain_names(7) r7]
      str_replace_template [OF plain_names(8) code_ready [OF c6(2) preload]]
    by (simp add: comp_def)
qed

lemma python_script_shape:
  assumes "generate_key rng 64 \<noteq> []" and "no_hole (allowed_paths_json json_paths config)"
    and "free_of (hole ''code'') (checked_preload config preload @ [CHR 0x0A])"
  shows "python_build_script e rng json_paths config code preload options =
    (let encoded = b64_encode e (xor_bytes code (generate_key rng 64)) in
     Some (template_text (map (instantiate (python_values json_paths config preload options encoded)) prescript_py),
           b64_encode e (generate_key rng 64)))"
proof -
  let ?enc = "b64_encode e (xor_bytes code (generate_key rng 64))"
  let ?v = "python_values json_paths config preload options ?enc"
  have eq: "fill ''code'' (?v ''code'') (fill ''preload'' (?v ''preload'') (fill ''allowed_paths'' (?v ''allowed_paths'')
      (fill ''privilege'' (?v ''privilege'') (fill ''max_as'' (?v ''max_as'') (fill ''enable_network'' (?v ''enable_network'')
      (fill ''gid'' (?v ''gid'') (fill ''uid'' (?v ''uid'') p))))))) = instantiate ?v p" if "p \<in> set prescript_py" for p
  proof (cases p)
    case (Hole k)
    then have "k \<in> set (hole_names prescript_py)" using that hole_names_mem by simp
    with Hole show ?thesis by (auto simp: prescript_py_holes)
  qed simp
  have "str_replace (hole ''code'') (?v ''code'') (str_replace (hole ''preload'') (?v ''preload'')
     (str_replace (hole ''allowed_paths'') (?v ''allowed_paths'') (str_replace (hole ''privilege'') (?v ''privilege'')
     (str_replace (hole ''max_as'') (?v ''max_as'') (str_replace (hole ''enable_network'') (?v ''enable_network'')
     (str_replace (hole ''gid'') (?v ''gid'') (str_replace (hole ''uid'') (?v ''uid'') PYTHON_PRESCRIPT))))))) =
    template_text (map (instantiate ?v) prescript_py)"
    unfolding PYTHON_PRESCRIPT_def
  proof (subst replace_all_holes)
    show "template_text (map (\<lambda>p. fill ''code'' (?v ''code'') (fill ''preload'' (?v ''preload'')
        (fill ''allowed_paths'' (?v ''allowed_paths'') (fill ''privilege'' (?v ''privilege'')
        (fill ''max_as'' (?v ''max_as'') (fill ''enable_network'' (?v ''enable_network'')
        (fill ''gid'' (?v ''gid'') (fill ''uid'' (?v ''uid'') p)))))))) prescript_py) =
      template_text (map (instantiate ?v) prescript_py)"
      by (intro arg_cong [of _ _ template_text] map_cong refl eq)
  qed (use assms(2,3) in \<open>simp_all add: python_values_def no_hole_numbers prescript_py_clean\<close>)
  then show ?thesis
    using assms(1) by (simp add: python_build_script_def Let_def encrypt_code_defined python_values_def)
qed

lemma python_child_env:
  "child_env env (python_command senv config key) k =
     (case map_of (proxy_env_vars (cfg_proxy config)) k of
        Some v \<Rightarrow> Some v
      | None \<Rightarrow> if k = ''PATH'' then senv ''PATH'' else None)"
  by (simp add: python_command_def child_env_def command_defs map_of_with_envs proxy_vars_rev table_simps
      split: option.split)

lemma python_key_nonempty: "(\<And>b. length (rng b) = length b) \<Longrightarrow> generate_key rng 64 \<noteq> []"
  by (metis generate_key_def length_0_conv length_replicate zero_neq_numeral)

section \<open>Properties\<close>

text \<open>The eight textual replacements fill the holes of the Python script and change nothing else: the
  script is the template with every hole replaced by its value. The hypotheses are that the key is
  not empty, that the rendering of the configured paths contains no hole, and that an enabled
  preload does not itself contain the hole for the code.\<close>

theorem python_script_instantiated:
  assumes "generate_key rng 64 \<noteq> []" and "no_hole (allowed_paths_json json_paths config)"
    and "free_of (hole ''code'') (checked_preload config preload @ [CHR 0x0A])"
  shows "python_build_script e rng json_paths config code preload options =
    (let encoded = b64_encode e (xor_bytes code (generate_key rng 64)) in
     Some (template_text (map (instantiate (python_values json_paths config preload options encoded)) prescript_py),
           b64_encode e (generate_key rng 64)))"
  using python_script_shape [OF assms] .

theorem python_script_instantiated_witness:
  "\<forall>e code options. python_build_script e (map (\<lambda>b. 7)) (\<lambda>ps. ''[]'') (config_of_raw shipped_config) code ''x = 1'' options =
    (let encoded = b64_encode e (xor_bytes code (generate_key (map (\<lambda>b. 7)) 64)) in
     Some (template_text (map (instantiate (python_values (\<lambda>ps. ''[]'') (config_of_raw shipped_config) ''x = 1'' options encoded))
             prescript_py),
           b64_encode e (generate_key (map (\<lambda>b. 7)) 64)))"
proof (intro allI python_script_instantiated)
  show "generate_key (map (\<lambda>b. 7)) 64 \<noteq> []" by (rule python_key_nonempty) simp
  show "no_hole (allowed_paths_json (\<lambda>ps. ''[]'') (config_of_raw shipped_config))"
    by (simp add: allowed_paths_json_def)
  show "free_of (hole ''code'') (checked_preload (config_of_raw shipped_config) ''x = 1'' @ [CHR 0x0A])"
    by (simp add: checked_preload_def config_of_raw_def shipped_config_def or_default_def hole_def)
qed

text \<open>The choice of the path. Code that is not base64 is refused with an error, without a process and without
  a restart. Otherwise the zygote runs the code exactly when it is enabled, no preload is to be
  executed and a manager is there that is running; a manager that is there and not running makes
  the server ask for a restart and run the code in a fresh interpreter.\<close>

theorem python_run_path:
  "python_run e rng json_paths env os zygote config code_b64 preload options =
     (case b64_decode e code_b64 of
        Inl err \<Rightarrow> (Some (Inl (''base64 decode: '' @ err)), False)
      | Inr code \<Rightarrow>
          if cfg_python_zygote config \<and> (\<not> cfg_enable_preload config \<or> preload = []) \<and> (\<exists>run. zygote = Some (True, run))
          then (python_fast e rng (snd (the zygote)) config code options, False)
          else (python_slow e rng json_paths env os config code (checked_preload config preload) options,
                cfg_python_zygote config \<and> (\<not> cfg_enable_preload config \<or> preload = []) \<and> (\<exists>run. zygote = Some (False, run))))"
  by (auto simp: python_run_def checked_preload_def Let_def split: sum.splits option.splits)

text \<open>C22. On both paths the submitted bytes arrive. Given the laws of base64 and a generator that fills its
  buffer, neither path panics. The zygote is handed a text and a key from which its child recovers
  exactly the submitted code; the slow path feeds the interpreter the template with the text in its
  place for the code and passes the key as an argument, and from these the prescript recovers the
  submitted code.\<close>

theorem python_code_delivered:
  assumes "base64_channel e b64decode" and "\<And>b. length (rng b) = length b"
    and "no_hole (allowed_paths_json json_paths config)"
    and "free_of (hole ''code'') (checked_preload config preload @ [CHR 0x0A])"
  shows "\<exists>enc key. encrypt_code e code (generate_key rng 64) = Some enc \<and> key = b64_encode e (generate_key rng 64)
    \<and> (\<forall>run. \<exists>r. python_fast e rng run config code options = Some (Inr r)
         \<and> (ex_stdout r, ex_stderr r, ex_exit_code r) = run enc key (zygote_limits config options))
    \<and> worker_recover b64decode enc key = Some code
    \<and> python_slow e rng json_paths env os config code preload options =
        Some (run_child os ''python'' (python_command env config key)
          (str_bytes (template_text (map (instantiate (python_values json_paths config preload options enc)) prescript_py)))
          (cfg_worker_timeout config))
    \<and> cmd_args (python_command env config key) = [''-B'', ''-'', LIB_PATH, key]
    \<and> prescript_recover b64decode enc key = Some code"
proof -
  let ?k = "generate_key rng 64" let ?enc = "b64_encode e (xor_bytes code ?k)"
  have k: "?k \<noteq> []" by (rule python_key_nonempty) (rule assms(2))
  have enc: "encrypt_code e code ?k = Some ?enc" by (rule encrypt_code_defined [OF k])
  have "\<exists>r. python_fast e rng run config code options = Some (Inr r)
      \<and> (ex_stdout r, ex_stderr r, ex_exit_code r) = run ?enc (b64_encode e ?k) (zygote_limits config options)" for run
    by (cases "run ?enc (b64_encode e ?k) (zygote_limits config options)") (simp add: python_fast_def Let_def enc)
  moreover note script = python_script_shape [OF k assms(3,4), of e code options]
  moreover have "cmd_args (python_command env config key) = [''-B'', ''-'', LIB_PATH, key]" for key
    by (simp add: python_command_def command_defs split: option.split)
  ultimately show ?thesis
    using enc base64_channel.recover_both [OF assms(1) k enc]
    by (intro exI [of _ ?enc] exI [of _ "b64_encode e ?k"]) (auto simp: python_slow_def Let_def)
qed

theorem python_code_delivered_witness:
  "\<exists>enc. encrypt_code rfc4648 [120] (generate_key (map (\<lambda>b. 7)) 64) = Some enc
    \<and> worker_recover rfc4648_decode enc (b64_encode rfc4648 (generate_key (map (\<lambda>b. 7)) 64)) = Some [120]
    \<and> prescript_recover rfc4648_decode enc (b64_encode rfc4648 (generate_key (map (\<lambda>b. 7)) 64)) = Some [120]"
proof -
  have "no_hole (allowed_paths_json (\<lambda>ps. ''[]'') (config_of_raw shipped_config))"
      "free_of (hole ''code'') (checked_preload (config_of_raw shipped_config) [] @ [CHR 0x0A])"
    by (simp_all add: allowed_paths_json_def checked_preload_def hole_def)
  moreover have len: "length (map (\<lambda>b :: u8. 7 :: u8) b) = length b" for b by simp
  ultimately obtain enc key where "encrypt_code rfc4648 [120] (generate_key (map (\<lambda>b. 7)) 64) = Some enc"
      "key = b64_encode rfc4648 (generate_key (map (\<lambda>b. 7)) 64)"
      "worker_recover rfc4648_decode enc key = Some [120]" "prescript_recover rfc4648_decode enc key = Some [120]"
    using python_code_delivered [OF rfc_channel.base64_channel_axioms len, where code = "[120]"
      and options = default_runner_options and env = "\<lambda>v. None" and os = "\<lambda>c s t. Timed_out"
      and preload = "[]" and config = "config_of_raw shipped_config" and json_paths = "\<lambda>ps. ''[]''"]
    by (elim meta_impE exE conjE) assumption+
  then show ?thesis by blast
qed

end
