(* ===== verification/Nodejs_Runner.thy ===== *)
theory Nodejs_Runner
  imports Process Template Base64_Engine
begin

text \<open>
  \<^verbatim>\<open>server/src/services/nodejs.rs\<close>: the validation of the submitted code, the script that evaluates
  it, and the Node.js child.
\<close>

section \<open>Model\<close>

definition validate_base64 :: "base64_ops \<Rightarrow> string \<Rightarrow> (string, string) result" where
  "validate_base64 e code_b64 =
     (case b64_decode e code_b64 of
        Inl err \<Rightarrow> Inl (''invalid base64 code: '' @ err)
      | Inr decoded \<Rightarrow> Inr (b64_encode e decoded))"

definition eval_code :: "string \<Rightarrow> string" where
  "eval_code code_b64 =
     ''eval(Buffer.from('' @ [CHR 0x27] @ code_b64 @ [CHR 0x27] @ '', '' @ [CHR 0x27] @ ''base64'' @ [CHR 0x27] @
     '').toString('' @ [CHR 0x27] @ ''utf-8'' @ [CHR 0x27] @ ''))''"

definition nodejs_build_script :: "string \<Rightarrow> string \<Rightarrow> string" where
  "nodejs_build_script code_b64 preload =
     str_replace (hole ''code'') (eval_code code_b64) (str_replace (hole ''preload'') preload NODEJS_PRESCRIPT)"

text \<open>The format string of the options: \<^verbatim>\<open>{"enable_network":b,"max_as":n,"privilege":b}\<close>.\<close>

definition opts_json :: "config \<Rightarrow> runner_options \<Rightarrow> string" where
  \<open>opts_json config options =
     ''{"enable_network":'' @ bool_to_string (network_enabled config options) @
     '',"max_as":'' @ u64_to_string (cfg_nodejs_max_as_bytes config) @
     '',"privilege":'' @ bool_to_string (cfg_privilege config) @ ''}''\<close>

definition nodejs_command :: "environment \<Rightarrow> config \<Rightarrow> runner_options \<Rightarrow> command" where
  "nodejs_command env config options =
     kill_on_drop (in_dir LIB_PATH (piped_all (with_args
       [''--max-old-space-size='' @ u32_to_string (cfg_nodejs_max_old_space_mb config),
        ''--jitless'', ''--no-expose_wasm'', ''--disable-proto=throw'', ''-'', LIB_PATH,
        u32_to_string (cfg_sandbox_uid config), u32_to_string (cfg_sandbox_gid config),
        opts_json config options]
       (with_envs (proxy_env_vars (cfg_proxy config))
         (with_env ''NODE_PATH'' (LIB_PATH @ ''/node_modules'')
           (with_env ''UV_USE_IO_URING'' ''0''
             (pass_path env (env_clear (command_new (cfg_nodejs_path config))))))))))"

definition nodejs_run ::
  "base64_ops \<Rightarrow> environment \<Rightarrow> os \<Rightarrow> config \<Rightarrow> string \<Rightarrow> string \<Rightarrow> runner_options
     \<Rightarrow> (execution_result, string) result" where
  "nodejs_run e env os config code_b64 preload options =
     and_then (validate_base64 e code_b64) (\<lambda>code_b64.
       run_child os ''nodejs'' (nodejs_command env config options)
         (str_bytes (nodejs_build_script code_b64 (checked_preload config preload)))
         (cfg_worker_timeout config))"

section \<open>Facts\<close>

lemma prescript_js_holes: "hole_names prescript_js = [''code'']"
  by (simp add: prescript_js_def)

lemma fill_absent: "h \<notin> set (hole_names ps) \<Longrightarrow> map (fill h v) ps = ps"
  by (induction ps rule: hole_names.induct) auto

lemma fill_only: "set (hole_names ps) \<subseteq> {h} \<Longrightarrow> map (fill h v) ps = map (instantiate (\<lambda>k. v)) ps"
  by (induction ps rule: hole_names.induct) auto

text \<open>The template has no place for a preload: whatever it is, it does not get into the script.\<close>

lemma nodejs_script_shape:
  "nodejs_build_script code_b64 preload = template_text (map (instantiate (\<lambda>h. eval_code code_b64)) prescript_js)"
proof -
  have pre: "list_all (ready h) prescript_js" for h
    using prescript_js_clean by (auto simp: list_all_iff clean_ready)
  have p: "plain ''preload''" "plain ''code''" by (simp_all add: plain_def)
  have "str_replace (hole ''preload'') preload NODEJS_PRESCRIPT = template_text prescript_js"
    unfolding NODEJS_PRESCRIPT_def str_replace_template [OF p(1) pre]
    by (subst fill_absent) (simp_all add: prescript_js_holes)
  moreover have "map (fill ''code'' (eval_code code_b64)) prescript_js = map (instantiate (\<lambda>h. eval_code code_b64)) prescript_js"
    by (rule fill_only) (simp add: prescript_js_holes)
  ultimately show ?thesis
    by (simp only: nodejs_build_script_def str_replace_template [OF p(2) pre])
qed

lemma validate_base64_Inr:
  assumes "base64_standard e"
  shows "validate_base64 e s = Inr s' \<longleftrightarrow> s' = s \<and> (\<exists>bs. b64_decode e s = Inr bs)"
  using base64_standard.decode_canonical [OF assms, of s]
  by (auto simp: validate_base64_def split: sum.splits)

lemma nodejs_child_env:
  "child_env env (nodejs_command senv config options) k =
     (case map_of (proxy_env_vars (cfg_proxy config)) k of
        Some v \<Rightarrow> Some v
      | None \<Rightarrow> if k = ''NODE_PATH'' then Some (LIB_PATH @ ''/node_modules'')
                else if k = ''UV_USE_IO_URING'' then Some ''0''
                else if k = ''PATH'' then senv ''PATH'' else None)"
  by (simp add: nodejs_command_def child_env_def command_defs map_of_with_envs proxy_vars_rev table_simps
      split: option.split)

lemma quote_not_b64: "list_all b64_char_ok s \<Longrightarrow> CHR 0x27 \<notin> set s"
proof
  assume "list_all b64_char_ok s" "CHR 0x27 \<in> set s"
  then have "b64_char_ok (CHR 0x27)" by (auto simp: list_all_iff)
  then show False by (simp add: b64_char_ok_def b64_alphabet_def)
qed

section \<open>Properties\<close>

text \<open>C23. Submitted code cannot break out of the script. A text that is not base64 is refused before any
  process is started. A text that is accepted enters the script as it is, at one place, between the
  quotes of the evaluation call; it consists of characters of the base64 alphabet, so it contains
  no quote; and it decodes to the submitted bytes.\<close>

theorem nodejs_code_confined:
  assumes "base64_standard e"
  shows "case b64_decode e submitted of
      Inl err \<Rightarrow> nodejs_run e env os config submitted preload options = Inl (''invalid base64 code: '' @ err)
    | Inr bs \<Rightarrow> list_all b64_char_ok submitted \<and> CHR 0x27 \<notin> set submitted \<and>
        nodejs_run e env os config submitted preload options =
          run_child os ''nodejs'' (nodejs_command env config options)
            (str_bytes (template_text (map (instantiate (\<lambda>h. eval_code submitted)) prescript_js)))
            (cfg_worker_timeout config)"
proof (cases "b64_decode e submitted")
  case (Inl err)
  then show ?thesis by (simp add: nodejs_run_def validate_base64_def)
next
  case (Inr bs)
  have "validate_base64 e submitted = Inr submitted"
    using validate_base64_Inr [OF assms] Inr by blast
  moreover have ok: "list_all b64_char_ok submitted"
    using base64_standard.decoded_alphabet [OF assms Inr] .
  moreover from ok have "CHR 0x27 \<notin> set submitted" by (rule quote_not_b64)
  ultimately show ?thesis
    using Inr by (simp add: nodejs_run_def nodejs_script_shape del: map_eq_conv)
qed

theorem nodejs_code_confined_witness:
  "\<forall>env os config preload options.
     nodejs_run rfc4648 env os config (b64_encode rfc4648 [49, 43, 49]) preload options =
       run_child os ''nodejs'' (nodejs_command env config options)
         (str_bytes (template_text (map (instantiate (\<lambda>h. eval_code (b64_encode rfc4648 [49, 43, 49]))) prescript_js)))
         (cfg_worker_timeout config)"
proof (intro allI)
  fix env os config preload options
  show "nodejs_run rfc4648 env os config (b64_encode rfc4648 [49, 43, 49]) preload options =
       run_child os ''nodejs'' (nodejs_command env config options)
         (str_bytes (template_text (map (instantiate (\<lambda>h. eval_code (b64_encode rfc4648 [49, 43, 49]))) prescript_js)))
         (cfg_worker_timeout config)"
    using nodejs_code_confined [where submitted = "b64_encode rfc4648 [49, 43, 49]" and env = env and os = os and config = config
        and preload = preload and options = options, OF rfc.base64_standard_axioms]
    unfolding rfc.decode_encode by simp
qed

text \<open>A preload never reaches the Node.js script, even when preloads are enabled: the template has no
  place for it, so that the script is the same for every preload.\<close>

theorem nodejs_preload_ignored: "nodejs_build_script code_b64 preload = nodejs_build_script code_b64 preload'"
  by (simp only: nodejs_script_shape)

end
