(* ===== verification/Setup.thy ===== *)
theory Setup
  imports Process
begin

text \<open>
  \<^verbatim>\<open>server/src/setup\<close>: the Python packages (\<^verbatim>\<open>dependencies.rs\<close>) and the files of the chroot jail
  (\<^verbatim>\<open>env.rs\<close>). Each operation returns its result together with the commands it has run, in order.
  Reading a file and asking for the existence of a path are parameters.
\<close>

section \<open>Model\<close>

subsection \<open>Dependencies\<close>

record package =
  pkg_name :: string
  pkg_version :: string

definition parse_package :: "string \<Rightarrow> package option" where
  "parse_package line =
     map_option (\<lambda>(n, v). \<lparr>pkg_name = n, pkg_version = v\<rparr>) (str_split_once ''=='' (str_trim line))"

definition parse_freeze :: "string \<Rightarrow> package list" where
  "parse_freeze out = List.map_filter parse_package (str_lines out)"

definition pip_list_command :: "config \<Rightarrow> command" where
  "pip_list_command config =
     piped_output (with_args [''-m'', ''pip'', ''list'', ''--format=freeze''] (command_new (cfg_python_path config)))"

definition list_python_packages :: "os \<Rightarrow> config \<Rightarrow> package list" where
  "list_python_packages os config =
     (case os (pip_list_command config) [] None of
        Exited out err status \<Rightarrow>
          if status_success status then parse_freeze (bytes_str (from_utf8_lossy out)) else []
      | _ \<Rightarrow> [])"

definition requirement_lines :: "string \<Rightarrow> string list" where
  "requirement_lines requirements =
     filter (\<lambda>l. l \<noteq> [] \<and> \<not> starts_with ''#'' l) (map str_trim (str_lines requirements))"

definition pip_install_command :: "config \<Rightarrow> string list \<Rightarrow> command" where
  "pip_install_command config packages =
     piped_output (with_args packages (with_args [''-m'', ''pip'', ''install'', ''--upgrade'']
       (command_new (cfg_python_path config))))"

definition install_python_dependencies ::
  "(string \<Rightarrow> (string, 'e) result) \<Rightarrow> os \<Rightarrow> config \<Rightarrow> (unit, string) result \<times> command list" where
  "install_python_dependencies read_to_string os config =
     (case read_to_string (LIB_PATH @ ''/requirements.txt'') of
        Inl e \<Rightarrow> (Inr (), [])
      | Inr requirements \<Rightarrow>
          (let packages = requirement_lines requirements in
           if packages = [] then (Inr (), [])
           else
             let cmd = pip_install_command config packages in
             (case os cmd [] None of
                Spawn_failed e \<Rightarrow> (Inl (''pip install spawn: '' @ e), [cmd])
              | Exited out err status \<Rightarrow>
                  (if status_success status then Inr () else Inl (bytes_str (from_utf8_lossy err)), [cmd])
              | Wait_failed e \<Rightarrow> (Inl (''pip install: '' @ e), [cmd])
              | _ \<Rightarrow> (Inl ''pip install: '', [cmd]))))"

subsection \<open>The jail\<close>

definition env_sh_command :: "string \<Rightarrow> command" where
  "env_sh_command src = with_args [LIB_PATH @ ''/script/env.sh'', src, LIB_PATH] (command_new ''bash'')"

text \<open>The child's streams are not piped, so nothing is captured from them.\<close>

definition copy_into_jail :: "(string \<Rightarrow> bool) \<Rightarrow> os \<Rightarrow> string \<Rightarrow> (unit, string) result \<times> command list" where
  "copy_into_jail path_exists os src =
     (if \<not> path_exists src then (Inr (), [])
      else
        let cmd = env_sh_command src in
        (case os cmd [] None of
           Spawn_failed e \<Rightarrow> (Inl (''spawn env.sh for '' @ src @ '': '' @ e), [cmd])
         | Exited out err status \<Rightarrow>
             (if status_success status then Inr ()
              else Inl (''env.sh '' @ src @ '' failed: '' @
                     bytes_str (from_utf8_lossy (captured (cmd_stderr_piped cmd) err))), [cmd])
         | Wait_failed e \<Rightarrow> (Inl (''env.sh '' @ src @ '': '' @ e), [cmd])
         | _ \<Rightarrow> (Inl (''env.sh '' @ src @ '': ''), [cmd])))"

text \<open>The loop over a list of paths: the warnings logged and the commands run.\<close>

fun copy_all :: "(string \<Rightarrow> bool) \<Rightarrow> os \<Rightarrow> string list \<Rightarrow> string list \<times> command list" where
  "copy_all path_exists os [] = ([], [])"
| "copy_all path_exists os (src # srcs) =
     (case copy_into_jail path_exists os src of
        (r, cmds) \<Rightarrow> (case copy_all path_exists os srcs of
          (warnings, cmds') \<Rightarrow> ((case r of Inl e \<Rightarrow> [e] | Inr u \<Rightarrow> []) @ warnings, cmds @ cmds')))"

definition prepare_environment :: "(string \<Rightarrow> bool) \<Rightarrow> os \<Rightarrow> config \<Rightarrow> string list \<times> command list" where
  "prepare_environment path_exists os config =
     (case copy_all path_exists os (cfg_python_lib_paths config) of
        (w1, c1) \<Rightarrow> (case copy_all path_exists os (cfg_nodejs_lib_paths config) of
          (w2, c2) \<Rightarrow> (w1 @ w2, c1 @ c2)))"

section \<open>Facts\<close>

lemma copy_into_jail_commands: "snd (copy_into_jail ex os src) = (if ex src then [env_sh_command src] else [])"
  by (simp add: copy_into_jail_def Let_def split: outcome.split)

lemma copy_all_commands: "snd (copy_all ex os srcs) = map env_sh_command (filter ex srcs)"
proof (induction srcs)
  case (Cons src srcs)
  then show ?case
    using copy_into_jail_commands [of ex os src] by (auto split: prod.splits)
qed simp

lemma copy_all_warnings:
  "fst (copy_all ex os srcs) = concat (map (\<lambda>s. case fst (copy_into_jail ex os s) of Inl e \<Rightarrow> [e] | Inr u \<Rightarrow> []) srcs)"
  by (induction srcs) (auto split: prod.splits)

text \<open>Lines, printed with a line feed each, are read back.\<close>

lemma str_lines_printed:
  assumes "\<forall>l\<in>set ls. CHR 0x0A \<notin> set l \<and> strip_cr l = l"
  shows "str_lines (concat (map (\<lambda>l. l @ [CHR 0x0A]) ls)) = ls"
proof -
  have "str_split (CHR 0x0A) (concat (map (\<lambda>l. l @ [CHR 0x0A]) ls)) = ls @ [[]]"
    using assms by (induction ls) (simp_all add: str_split_append_sep)
  with assms show ?thesis
    by (simp add: str_lines_def Let_def map_idI butlast_append)
qed

lemma split_once_first:
  assumes "\<not> str_contains ''=='' n" and "n = [] \<or> last n \<noteq> CHR ''=''"
  shows "str_split_once ''=='' (n @ ''=='' @ v) = Some (n, v)"
  using assms
proof (induction n)
  case Nil
  then show ?case by (simp add: starts_with_def)
next
  case (Cons c n)
  then show ?case
    by (cases n) (auto simp: starts_with_def split: if_splits)
qed

definition print_package :: "package \<Rightarrow> string" where
  "print_package p = pkg_name p @ ''=='' @ pkg_version p"

definition package_ok :: "package \<Rightarrow> bool" where
  "package_ok p \<longleftrightarrow> pkg_name p \<noteq> [] \<and> pkg_version p \<noteq> []
     \<and> not_ws (hd (pkg_name p)) \<and> not_ws (last (pkg_version p))
     \<and> CHR 0x0A \<notin> set (print_package p) \<and> CHR ''='' \<notin> set (pkg_name p)"

lemma contains_chars: "str_contains pat s \<Longrightarrow> set pat \<subseteq> set s"
proof (induction s)
  case (Cons c s)
  then show ?case
    by (auto simp: starts_with_def dest: arg_cong [of _ _ set] in_set_takeD)
      (metis in_set_takeD set_ConsD)
qed simp

lemma not_ws_cr: "not_ws c \<Longrightarrow> c \<noteq> CHR 0x0D"
  by (auto simp: not_ws_def ws_seqs_def char_byte_def)

lemma parse_print_package:
  assumes "package_ok p"
  shows "parse_package (print_package p) = Some p" "strip_cr (print_package p) = print_package p"
proof -
  have trim: "str_trim (print_package p) = print_package p"
    using assms by (intro str_trim_id) (auto simp: package_ok_def print_package_def)
  have "\<not> str_contains ''=='' (pkg_name p)"
    using assms contains_chars [of "''==''" "pkg_name p"] by (auto simp: package_ok_def)
  moreover have "last (pkg_name p) \<noteq> CHR ''=''"
    using assms by (metis last_in_set package_ok_def)
  ultimately show "parse_package (print_package p) = Some p"
    unfolding parse_package_def trim by (simp add: print_package_def split_once_first [simplified])
  have "last (print_package p) \<noteq> CHR 0x0D"
    using assms not_ws_cr by (auto simp: package_ok_def print_package_def)
  then show "strip_cr (print_package p) = print_package p" by (simp add: strip_cr_def)
qed

section \<open>Properties\<close>

text \<open>The list of packages that \<^verbatim>\<open>pip list\<close> prints, one \<^verbatim>\<open>name==version\<close> per line, is read back exactly,
  when no name contains an equality sign and no entry has a line feed or surrounding white space.\<close>

theorem package_list_roundtrip:
  assumes "list_all package_ok ps"
  shows "parse_freeze (concat (map (\<lambda>p. print_package p @ [CHR 0x0A]) ps)) = ps"
proof -
  have "str_lines (concat (map (\<lambda>l. l @ [CHR 0x0A]) (map print_package ps))) = map print_package ps"
    using assms by (intro str_lines_printed) (auto simp: list_all_iff parse_print_package package_ok_def)
  moreover have "List.map_filter parse_package (map print_package ps) = ps"
    using assms by (induction ps) (simp_all add: map_filter_simps parse_print_package)
  ultimately show ?thesis by (simp add: parse_freeze_def comp_def)
qed

theorem package_list_roundtrip_witness:
  "parse_freeze (''orjson==3.10'' @ [CHR 0x0A] @ ''pip==25'' @ [CHR 0x0A]) =
     [\<lparr>pkg_name = ''orjson'', pkg_version = ''3.10''\<rparr>, \<lparr>pkg_name = ''pip'', pkg_version = ''25''\<rparr>]"
proof -
  let ?ps = "[\<lparr>pkg_name = ''orjson'', pkg_version = ''3.10''\<rparr>, \<lparr>pkg_name = ''pip'', pkg_version = ''25''\<rparr>]"
  have "list_all package_ok ?ps"
    by (simp add: package_ok_def print_package_def not_ws_def ws_seqs_def char_byte_def)
  from package_list_roundtrip [OF this] show ?thesis by (simp add: print_package_def)
qed

text \<open>The preparation of the jail tries every configured path, those of Python first, in order: it runs the
  copy script once for each path that exists, whether earlier copies failed or not, and it logs one
  warning for each copy that failed.\<close>

theorem jail_copies_all:
  "snd (prepare_environment ex os config) =
     map env_sh_command (filter ex (cfg_python_lib_paths config @ cfg_nodejs_lib_paths config))
   \<and> fst (prepare_environment ex os config) =
     concat (map (\<lambda>s. case fst (copy_into_jail ex os s) of Inl e \<Rightarrow> [e] | Inr u \<Rightarrow> [])
       (cfg_python_lib_paths config @ cfg_nodejs_lib_paths config))"
  using copy_all_commands [of ex os "cfg_python_lib_paths config"] copy_all_commands [of ex os "cfg_nodejs_lib_paths config"]
    copy_all_warnings [of ex os "cfg_python_lib_paths config"] copy_all_warnings [of ex os "cfg_nodejs_lib_paths config"]
  by (simp add: prepare_environment_def case_prod_beta)

text \<open>The message about a failed copy never says why: the standard error of the copy script is not
  piped, so the text that is appended is empty whatever the script wrote.\<close>

theorem jail_error_text_lost:
  assumes "ex src" and "os (env_sh_command src) [] None = Exited out err status" and "\<not> status_success status"
  shows "copy_into_jail ex os src = (Inl (''env.sh '' @ src @ '' failed: ''), [env_sh_command src])"
  using assms
  by (simp add: copy_into_jail_def env_sh_command_def command_defs captured_def from_utf8_lossy.simps)

theorem jail_error_text_lost_witness:
  "copy_into_jail (\<lambda>p. True) (\<lambda>c i t. Exited [] [99, 112] 256) ''/usr/lib'' =
     (Inl ''env.sh /usr/lib failed: '', [env_sh_command ''/usr/lib''])"
  using jail_error_text_lost [of "\<lambda>p. True" "''/usr/lib''" "\<lambda>c i t. Exited [] [99, 112] 256" "[]" "[99, 112]" 256]
  by (simp add: status_success_def)

text \<open>Installing the requirements runs at most one command. It runs none when the file cannot be read or
  lists nothing, and reports success then; otherwise it passes every line that is not empty and not
  a comment, trimmed and in order, to one call of pip, and succeeds exactly when that call exits with
  status zero.\<close>

theorem install_runs_pip_once:
  "(case read (LIB_PATH @ ''/requirements.txt'') of
      Inl e \<Rightarrow> install_python_dependencies read os config = (Inr (), [])
    | Inr requirements \<Rightarrow>
        if requirement_lines requirements = [] then install_python_dependencies read os config = (Inr (), [])
        else snd (install_python_dependencies read os config) = [pip_install_command config (requirement_lines requirements)]
          \<and> cmd_args (pip_install_command config (requirement_lines requirements)) =
              [''-m'', ''pip'', ''install'', ''--upgrade''] @ requirement_lines requirements
          \<and> (fst (install_python_dependencies read os config) = Inr () \<longleftrightarrow>
              (\<exists>out err. os (pip_install_command config (requirement_lines requirements)) [] None = Exited out err 0)))"
  by (auto simp: install_python_dependencies_def Let_def status_success_def pip_install_command_def command_defs
      split: sum.split outcome.split)

end
