(* ===== verification/Queue.thy ===== *)
theory Queue
  imports Models
begin

text \<open>
  \<^verbatim>\<open>server/src/queue.rs\<close>: the worker pool. \<^verbatim>\<open>submit\<close> puts a job on an unbounded channel and waits for
  the answer; each of \<^verbatim>\<open>max_workers\<close> tasks takes jobs from the channel, runs them and answers.

  Submitters and workers run concurrently: their atomic actions are the steps of the relation
  \<open>qstep\<close>, each an operation of its own below. A call of \<^verbatim>\<open>submit\<close> is known by its index, its
  ticket. The channel crate is a parameter with the laws of the locale \<open>mpmc_channel\<close>; what a job
  may answer, and whether it may panic, are the parameters \<open>runs\<close> and \<open>panics\<close>. Three fields record
  the history: the jobs submitted, and the order of sending and of taking.
\<close>

section \<open>The channel\<close>

record ('c, 'm) chan_ops =
  chan_unbounded :: 'c
  chan_clone_rx :: "'c \<Rightarrow> 'c"
  chan_drop_rx :: "'c \<Rightarrow> 'c"
  chan_try_send :: "'m \<Rightarrow> 'c \<Rightarrow> 'c option"
  chan_recv :: "'c \<Rightarrow> ('m \<times> 'c) option"

text \<open>
  \<^verbatim>\<open>async_channel\<close>: messages are received in the order in which they were sent; sending fails
  exactly when no receiver is left, since the channel is closed then; closing does not discard
  messages; \<open>chan_recv\<close> is \<open>None\<close> while a receiver would wait.
\<close>

locale mpmc_channel =
  fixes ops :: "('c, 'm) chan_ops"
    and items :: "'c \<Rightarrow> 'm list"
    and receivers :: "'c \<Rightarrow> nat"
  assumes unbounded: "items (chan_unbounded ops) = []" "receivers (chan_unbounded ops) = 1"
    and clone_rx: "items (chan_clone_rx ops c) = items c" "receivers (chan_clone_rx ops c) = receivers c + 1"
    and drop_rx: "receivers (chan_drop_rx ops c) = receivers c - 1" "items (chan_drop_rx ops c) = items c"
    and send_ok: "0 < receivers c \<Longrightarrow>
      \<exists>c'. chan_try_send ops m c = Some c' \<and> items c' = items c @ [m] \<and> receivers c' = receivers c"
    and send_closed: "receivers c = 0 \<Longrightarrow> chan_try_send ops m c = None"
    and recv_empty: "items c = [] \<Longrightarrow> chan_recv ops c = None"
    and recv_first: "0 < receivers c \<Longrightarrow> items c = m # ms \<Longrightarrow>
      \<exists>c'. chan_recv ops c = Some (m, c') \<and> items c' = ms \<and> receivers c' = receivers c"
begin

lemma send_cases:
  assumes "chan_try_send ops m c = Some c'"
  shows "items c' = items c @ [m]" "receivers c' = receivers c" "0 < receivers c"
proof -
  show "0 < receivers c" using send_closed [of c m] assms by (cases "receivers c") auto
  then show "items c' = items c @ [m]" "receivers c' = receivers c"
    using send_ok [of c m] assms by auto
qed

lemma recv_cases:
  assumes "chan_recv ops c = Some (m, c')" and "0 < receivers c"
  shows "items c = m # items c'" "receivers c' = receivers c"
  using assms recv_empty [of c] recv_first [OF assms(2)] by (cases "items c"; force)+

end

text \<open>A channel as a list of messages and a count of receivers.\<close>

definition list_channel :: "('m list \<times> nat, 'm) chan_ops" where
  "list_channel =
     \<lparr>chan_unbounded = ([], 1),
      chan_clone_rx = (\<lambda>(ms, n). (ms, n + 1)),
      chan_drop_rx = (\<lambda>(ms, n). (ms, n - 1)),
      chan_try_send = (\<lambda>m (ms, n). if n = 0 then None else Some (ms @ [m], n)),
      chan_recv = (\<lambda>(ms, n). case ms of [] \<Rightarrow> None | m # ms' \<Rightarrow> Some (m, (ms', n)))\<rparr>"

interpretation list_chan: mpmc_channel list_channel fst snd
  by unfold_locales (auto simp: list_channel_def split: list.splits)

section \<open>Model\<close>

type_synonym ticket = nat
type_synonym usize = "64 word"

text \<open>\<^verbatim>\<open>QueueMessage\<close>: the job and the sender of its answer, which is known by the ticket; the other two fields are
  only logged.\<close>

type_synonym 'j message = "ticket \<times> 'j"

datatype 'j worker =
    Waiting
  | Received ticket 'j
  | Running ticket 'j
  | Gone

datatype 'j call =
    Counted 'j
  | Refused
  | Awaiting
  | Returned api_response
  | Dropped_call

text \<open>The oneshot channel of a call: nothing yet, an answer, or the sender is gone.\<close>

datatype oneshot = Open | Answer api_response | Closed

record ('c, 'j) queue =
  q_chan :: 'c
  queue_depth :: usize
  stat_workers :: nat
  q_workers :: "'j worker list"
  q_calls :: "'j call list"
  q_oneshots :: "oneshot list"
  q_jobs :: "'j list"
  q_sent :: "ticket list"
  q_taken :: "ticket list"

text \<open>\<^verbatim>\<open>QueueController::start\<close>: every worker holds a clone of the receiver; the original is dropped.\<close>

definition start :: "('c, 'j message) chan_ops \<Rightarrow> nat \<Rightarrow> ('c, 'j) queue" where
  "start ops max_workers =
     \<lparr>q_chan = chan_drop_rx ops ((chan_clone_rx ops ^^ max_workers) (chan_unbounded ops)),
      queue_depth = 0, stat_workers = max_workers,
      q_workers = replicate max_workers Waiting,
      q_calls = [], q_oneshots = [], q_jobs = [], q_sent = [], q_taken = []\<rparr>"

subsection \<open>\<^verbatim>\<open>submit\<close>\<close>

definition submit_count :: "'j \<Rightarrow> ('c, 'j) queue \<Rightarrow> ('c, 'j) queue" where
  "submit_count job q =
     q\<lparr>queue_depth := queue_depth q + 1, q_calls := q_calls q @ [Counted job],
       q_oneshots := q_oneshots q @ [Open], q_jobs := q_jobs q @ [job]\<rparr>"

definition submit_send :: "('c, 'j message) chan_ops \<Rightarrow> ticket \<Rightarrow> 'j \<Rightarrow> ('c, 'j) queue \<Rightarrow> ('c, 'j) queue" where
  "submit_send ops t job q =
     (case chan_try_send ops (t, job) (q_chan q) of
        Some c \<Rightarrow> q\<lparr>q_chan := c, q_calls := (q_calls q)[t := Awaiting], q_sent := q_sent q @ [t]\<rparr>
      | None \<Rightarrow> q\<lparr>q_calls := (q_calls q)[t := Refused]\<rparr>)"

definition submit_refused :: "ticket \<Rightarrow> ('c, 'j) queue \<Rightarrow> ('c, 'j) queue" where
  "submit_refused t q =
     q\<lparr>queue_depth := queue_depth q - 1,
       q_calls := (q_calls q)[t := Returned (api_error 500 ''worker pool unavailable'')]\<rparr>"

text \<open>\<^verbatim>\<open>rx.await.unwrap_or_else(..)\<close>, once the oneshot is settled.\<close>

definition oneshot_result :: "oneshot \<Rightarrow> api_response option" where
  "oneshot_result s = (case s of Open \<Rightarrow> None | Answer r \<Rightarrow> Some r
     | Closed \<Rightarrow> Some (api_error 500 ''worker shut down''))"

definition submit_return :: "ticket \<Rightarrow> api_response \<Rightarrow> ('c, 'j) queue \<Rightarrow> ('c, 'j) queue" where
  "submit_return t r q = q\<lparr>q_calls := (q_calls q)[t := Returned r]\<rparr>"

text \<open>The future of a call is dropped while it waits, as when the client disconnects.\<close>

definition submit_dropped :: "ticket \<Rightarrow> ('c, 'j) queue \<Rightarrow> ('c, 'j) queue" where
  "submit_dropped t q = q\<lparr>q_calls := (q_calls q)[t := Dropped_call]\<rparr>"

subsection \<open>The worker task\<close>

definition worker_recv :: "nat \<Rightarrow> ticket \<Rightarrow> 'j \<Rightarrow> 'c \<Rightarrow> ('c, 'j) queue \<Rightarrow> ('c, 'j) queue" where
  "worker_recv w t job c q =
     q\<lparr>q_chan := c, q_workers := (q_workers q)[w := Received t job], q_taken := q_taken q @ [t]\<rparr>"

definition worker_begin :: "nat \<Rightarrow> ticket \<Rightarrow> 'j \<Rightarrow> ('c, 'j) queue \<Rightarrow> ('c, 'j) queue" where
  "worker_begin w t job q =
     q\<lparr>queue_depth := queue_depth q - 1, q_workers := (q_workers q)[w := Running t job]\<rparr>"

definition worker_respond :: "nat \<Rightarrow> ticket \<Rightarrow> api_response \<Rightarrow> ('c, 'j) queue \<Rightarrow> ('c, 'j) queue" where
  "worker_respond w t r q =
     q\<lparr>q_workers := (q_workers q)[w := Waiting], q_oneshots := (q_oneshots q)[t := Answer r]\<rparr>"

text \<open>A panic in the job ends the task: its receiver and the sender of the answer are dropped.\<close>

definition worker_panic :: "('c, 'j message) chan_ops \<Rightarrow> nat \<Rightarrow> ticket \<Rightarrow> ('c, 'j) queue \<Rightarrow> ('c, 'j) queue" where
  "worker_panic ops w t q =
     q\<lparr>q_chan := chan_drop_rx ops (q_chan q), q_workers := (q_workers q)[w := Gone],
       q_oneshots := (q_oneshots q)[t := Closed]\<rparr>"

inductive qstep ::
  "('c, 'j message) chan_ops \<Rightarrow> ('j \<Rightarrow> api_response \<Rightarrow> bool) \<Rightarrow> ('j \<Rightarrow> bool) \<Rightarrow>
     ('c, 'j) queue \<Rightarrow> ('c, 'j) queue \<Rightarrow> bool"
  for ops runs panics where
    count: "qstep ops runs panics q (submit_count job q)"
  | send: "t < length (q_calls q) \<Longrightarrow> q_calls q ! t = Counted job \<Longrightarrow>
      qstep ops runs panics q (submit_send ops t job q)"
  | refused: "t < length (q_calls q) \<Longrightarrow> q_calls q ! t = Refused \<Longrightarrow>
      qstep ops runs panics q (submit_refused t q)"
  | returns: "t < length (q_calls q) \<Longrightarrow> q_calls q ! t = Awaiting \<Longrightarrow>
      oneshot_result (q_oneshots q ! t) = Some r \<Longrightarrow> qstep ops runs panics q (submit_return t r q)"
  | dropped: "t < length (q_calls q) \<Longrightarrow> q_calls q ! t = Awaiting \<Longrightarrow>
      qstep ops runs panics q (submit_dropped t q)"
  | recv: "w < length (q_workers q) \<Longrightarrow> q_workers q ! w = Waiting \<Longrightarrow>
      chan_recv ops (q_chan q) = Some ((t, job), c) \<Longrightarrow> qstep ops runs panics q (worker_recv w t job c q)"
  | begins: "w < length (q_workers q) \<Longrightarrow> q_workers q ! w = Received t job \<Longrightarrow>
      qstep ops runs panics q (worker_begin w t job q)"
  | respond: "w < length (q_workers q) \<Longrightarrow> q_workers q ! w = Running t job \<Longrightarrow> runs job r \<Longrightarrow>
      qstep ops runs panics q (worker_respond w t r q)"
  | panic: "w < length (q_workers q) \<Longrightarrow> q_workers q ! w = Running t job \<Longrightarrow> panics job \<Longrightarrow>
      qstep ops runs panics q (worker_panic ops w t q)"

definition qreach ::
  "('c, 'j message) chan_ops \<Rightarrow> ('j \<Rightarrow> api_response \<Rightarrow> bool) \<Rightarrow> ('j \<Rightarrow> bool) \<Rightarrow>
     nat \<Rightarrow> ('c, 'j) queue \<Rightarrow> bool" where
  "qreach ops runs panics n q = (qstep ops runs panics)\<^sup>*\<^sup>* (start ops n) q"

lemmas queue_op_defs =
  submit_count_def submit_send_def submit_refused_def submit_return_def submit_dropped_def
  worker_recv_def worker_begin_def worker_respond_def worker_panic_def

section \<open>Invariants\<close>

lemma length_filter_update:
  "i < length xs \<Longrightarrow> length (filter P (xs[i := y])) + (if P (xs ! i) then 1 else 0) =
     length (filter P xs) + (if P y then 1 else 0)"
proof (induction xs arbitrary: i)
  case (Cons x xs)
  then show ?case by (cases i) auto
qed simp

fun held :: "'j worker \<Rightarrow> 'j message option" where
  "held (Received t job) = Some (t, job)"
| "held (Running t job) = Some (t, job)"
| "held Waiting = None"
| "held Gone = None"

fun is_counted :: "'j call \<Rightarrow> bool" where
  "is_counted (Counted job) = True"
| "is_counted Refused = True"
| "is_counted c = False"

fun counts_job :: "'j call \<Rightarrow> 'j \<Rightarrow> bool" where
  "counts_job (Counted job) j = (j = job)"
| "counts_job c j = True"

fun is_received :: "'j worker \<Rightarrow> bool" where
  "is_received (Received t job) = True"
| "is_received w = False"

fun is_gone :: "'j worker \<Rightarrow> bool" where
  "is_gone Gone = True"
| "is_gone w = False"

text \<open>The shape of the state, and the number of receivers left.\<close>

definition shape_ok :: "('c \<Rightarrow> nat) \<Rightarrow> nat \<Rightarrow> ('c, 'j) queue \<Rightarrow> bool" where
  "shape_ok receivers n q \<longleftrightarrow>
     length (q_oneshots q) = length (q_calls q) \<and> length (q_jobs q) = length (q_calls q)
     \<and> length (q_workers q) = n \<and> stat_workers q = n
     \<and> receivers (q_chan q) = length (filter (\<lambda>w. \<not> is_gone w) (q_workers q))"

text \<open>What the depth counter counts: calls that have counted themselves but not sent, messages in the channel,
  and messages taken whose worker has not counted them off.\<close>

definition depth_count :: "('c \<Rightarrow> 'j message list) \<Rightarrow> ('c, 'j) queue \<Rightarrow> nat" where
  "depth_count items q =
     length (filter is_counted (q_calls q)) + length (items (q_chan q)) + length (filter is_received (q_workers q))"

text \<open>Every message is in one place, in the order of sending.\<close>

definition fifo_ok :: "('c \<Rightarrow> 'j message list) \<Rightarrow> ('c, 'j) queue \<Rightarrow> bool" where
  "fifo_ok items q \<longleftrightarrow> q_taken q @ map fst (items (q_chan q)) = q_sent q \<and> distinct (q_sent q)"

definition sent_called :: "('c, 'j) queue \<Rightarrow> bool" where
  "sent_called q \<longleftrightarrow> (\<forall>t\<in>set (q_sent q). t < length (q_calls q) \<and> \<not> is_counted (q_calls q ! t))"

definition awaiting_sent :: "('c, 'j) queue \<Rightarrow> bool" where
  "awaiting_sent q \<longleftrightarrow>
     (\<forall>t<length (q_calls q). q_calls q ! t = Awaiting \<or> q_calls q ! t = Dropped_call \<longrightarrow> t \<in> set (q_sent q))"

definition jobs_ok :: "('c \<Rightarrow> 'j message list) \<Rightarrow> ('c, 'j) queue \<Rightarrow> bool" where
  "jobs_ok items q \<longleftrightarrow>
     (\<forall>m\<in>set (items (q_chan q)). fst m < length (q_calls q) \<and> q_jobs q ! fst m = snd m)
     \<and> (\<forall>t<length (q_calls q). counts_job (q_calls q ! t) (q_jobs q ! t))"

definition order_ok :: "('c \<Rightarrow> 'j message list) \<Rightarrow> ('c, 'j) queue \<Rightarrow> bool" where
  "order_ok items q \<longleftrightarrow> fifo_ok items q \<and> sent_called q \<and> awaiting_sent q \<and> jobs_ok items q"

definition holds :: "'j worker list \<Rightarrow> ticket \<Rightarrow> bool" where
  "holds ws t = (\<exists>w<length ws. \<exists>m. held (ws ! w) = Some m \<and> fst m = t)"

lemma holds_update:
  assumes "holds ws t" and "\<And>m. held (ws ! w) = Some m \<Longrightarrow> fst m = t \<Longrightarrow> \<exists>m. held x = Some m \<and> fst m = t"
  shows "holds (ws[w := x]) t"
proof -
  obtain v m where v: "v < length ws" "held (ws ! v) = Some m" "fst m = t" using assms(1) by (auto simp: holds_def)
  show ?thesis
  proof (cases "v = w")
    case True
    with v assms(2) obtain m' where "held x = Some m'" "fst m' = t" by blast
    with v True show ?thesis unfolding holds_def by (intro exI [of _ v]) simp
  next
    case False
    with v show ?thesis unfolding holds_def by (intro exI [of _ v]) simp
  qed
qed

lemma holds_self: "w < length ws \<Longrightarrow> held x = Some (t, job) \<Longrightarrow> holds (ws[w := x]) t"
  unfolding holds_def by (intro exI [of _ w]) auto

definition held_ok :: "('c, 'j) queue \<Rightarrow> bool" where
  "held_ok q \<longleftrightarrow>
     (\<forall>w<length (q_workers q). \<forall>m. held (q_workers q ! w) = Some m \<longrightarrow>
        fst m \<in> set (q_taken q) \<and> q_jobs q ! fst m = snd m \<and> q_oneshots q ! fst m = Open)
     \<and> (\<forall>w<length (q_workers q). \<forall>v<length (q_workers q). \<forall>m m'.
        held (q_workers q ! w) = Some m \<longrightarrow> held (q_workers q ! v) = Some m' \<longrightarrow> w \<noteq> v \<longrightarrow> fst m \<noteq> fst m')
     \<and> (\<forall>t\<in>set (q_taken q). q_oneshots q ! t = Open \<longrightarrow> holds (q_workers q) t)"

text \<open>What an answer on a oneshot, and the value a call returned, tell.\<close>

fun oneshot_ok :: "('j \<Rightarrow> api_response \<Rightarrow> bool) \<Rightarrow> ('j \<Rightarrow> bool) \<Rightarrow> bool \<Rightarrow> 'j \<Rightarrow> oneshot \<Rightarrow> bool" where
  "oneshot_ok runs panics taken job Open = True"
| "oneshot_ok runs panics taken job (Answer r) = (taken \<and> runs job r)"
| "oneshot_ok runs panics taken job Closed = (taken \<and> panics job)"

fun call_ok :: "bool \<Rightarrow> oneshot \<Rightarrow> 'j call \<Rightarrow> bool" where
  "call_ok closed s Refused = (closed \<and> s = Open)"
| "call_ok closed s (Returned r) =
     (oneshot_result s = Some r \<or> r = api_error 500 ''worker pool unavailable'' \<and> closed \<and> s = Open)"
| "call_ok closed s c = True"

definition oneshots_ok :: "('j \<Rightarrow> api_response \<Rightarrow> bool) \<Rightarrow> ('j \<Rightarrow> bool) \<Rightarrow> ('c, 'j) queue \<Rightarrow> bool" where
  "oneshots_ok runs panics q \<longleftrightarrow>
     (\<forall>t<length (q_calls q). oneshot_ok runs panics (t \<in> set (q_taken q)) (q_jobs q ! t) (q_oneshots q ! t))"

definition returns_ok :: "('c \<Rightarrow> nat) \<Rightarrow> ('c, 'j) queue \<Rightarrow> bool" where
  "returns_ok receivers q \<longleftrightarrow>
     (\<forall>t<length (q_calls q). call_ok (receivers (q_chan q) = 0) (q_oneshots q ! t) (q_calls q ! t))"

lemma oneshot_ok_mono: "oneshot_ok runs panics a job s \<Longrightarrow> (a \<Longrightarrow> b) \<Longrightarrow> oneshot_ok runs panics b job s"
  by (cases s) auto

lemma call_ok_settled: "call_ok closed Open c \<Longrightarrow> \<not> closed \<Longrightarrow> call_ok b s c"
  by (cases c) (auto simp: oneshot_result_def)

lemma call_ok_closed: "call_ok a s c \<Longrightarrow> (a \<Longrightarrow> b) \<Longrightarrow> call_ok b s c"
  by (cases c) auto

text \<open>Everything together.\<close>

definition pool_ok ::
  "('c \<Rightarrow> 'j message list) \<Rightarrow> ('c \<Rightarrow> nat) \<Rightarrow> ('j \<Rightarrow> api_response \<Rightarrow> bool) \<Rightarrow> ('j \<Rightarrow> bool) \<Rightarrow> nat
     \<Rightarrow> ('c, 'j) queue \<Rightarrow> bool" where
  "pool_ok items receivers runs panics n q \<longleftrightarrow>
     shape_ok receivers n q \<and> order_ok items q \<and> held_ok q \<and> oneshots_ok runs panics q
     \<and> returns_ok receivers q \<and> queue_depth q = of_nat (depth_count items q)"

text \<open>As long as no job panics, no worker goes away.\<close>

definition alive :: "('c, 'j) queue \<Rightarrow> bool" where
  "alive q = (\<forall>w\<in>set (q_workers q). \<not> is_gone w)"

text \<open>The pool's view of the channel: its messages are jobs with their tickets.\<close>

locale job_channel = mpmc_channel ops items receivers
  for ops :: "('c, 'j message) chan_ops" and items and receivers
begin

lemma start_chan:
  "items ((chan_clone_rx ops ^^ n) c) = items c" "receivers ((chan_clone_rx ops ^^ n) c) = receivers c + n"
  by (induction n) (simp_all add: clone_rx)

lemma shape_start: "shape_ok receivers n (start ops n)"
  by (simp add: shape_ok_def start_def start_chan unbounded drop_rx)

lemma waiting_receiver:
  assumes "shape_ok receivers n q" "w < length (q_workers q)" "\<not> is_gone (q_workers q ! w)"
  shows "0 < receivers (q_chan q)"
  using assms length_filter_update [of w "q_workers q" "\<lambda>w. \<not> is_gone w" Gone] by (auto simp: shape_ok_def)

lemma shape_step:
  assumes "qstep ops runs panics q q'" and "shape_ok receivers n q"
  shows "shape_ok receivers n q'"
  using assms(1)
proof (cases rule: qstep.cases)
  case (recv w t job c)
  then have "receivers c = receivers (q_chan q)"
    using waiting_receiver [OF assms(2)] recv_cases(2) by fastforce
  with recv show ?thesis
    using assms(2) length_filter_update [of w "q_workers q" "\<lambda>w. \<not> is_gone w" "Received t job"]
    by (simp add: shape_ok_def worker_recv_def)
next
  case (begins w t job)
  then show ?thesis
    using assms(2) length_filter_update [of w "q_workers q" "\<lambda>w. \<not> is_gone w" "Running t job"]
    by (simp add: shape_ok_def worker_begin_def)
next
  case (respond w t job r)
  then show ?thesis
    using assms(2) length_filter_update [of w "q_workers q" "\<lambda>w. \<not> is_gone w" Waiting]
    by (simp add: shape_ok_def worker_respond_def)
next
  case (panic w t job)
  then show ?thesis
    using assms(2) length_filter_update [of w "q_workers q" "\<lambda>w. \<not> is_gone w" Gone]
    by (simp add: shape_ok_def worker_panic_def drop_rx)
next
  case (send t job)
  then show ?thesis
    using assms(2) by (auto simp: shape_ok_def submit_send_def dest: send_cases split: option.split)
qed (use assms(2) in \<open>simp_all add: shape_ok_def queue_op_defs\<close>)

lemma order_start: "order_ok items (start ops n)"
  by (simp add: order_ok_def fifo_ok_def sent_called_def awaiting_sent_def jobs_ok_def start_def start_chan
      unbounded drop_rx)

lemma depth_start: "queue_depth (start ops n) = of_nat (depth_count items (start ops n))"
  by (simp add: depth_count_def start_def start_chan unbounded drop_rx)

text \<open>How each operation changes what is counted.\<close>

lemma depth_submit:
  "depth_count items (submit_count job q) = depth_count items q + 1"
  "t < length (q_calls q) \<Longrightarrow> q_calls q ! t = Counted job \<Longrightarrow>
    depth_count items (submit_send ops t job q) = depth_count items q"
  "t < length (q_calls q) \<Longrightarrow> q_calls q ! t = Refused \<Longrightarrow>
    depth_count items (submit_refused t q) + 1 = depth_count items q"
  "t < length (q_calls q) \<Longrightarrow> q_calls q ! t = Awaiting \<Longrightarrow>
    depth_count items (submit_return t r q) = depth_count items q"
  "t < length (q_calls q) \<Longrightarrow> q_calls q ! t = Awaiting \<Longrightarrow>
    depth_count items (submit_dropped t q) = depth_count items q"
proof -
  have upd: "length (filter is_counted ((q_calls q)[t := y])) + (if is_counted (q_calls q ! t) then 1 else 0) =
      length (filter is_counted (q_calls q)) + (if is_counted y then 1 else 0)" if "t < length (q_calls q)" for y
    using that by (rule length_filter_update)
  show "depth_count items (submit_count job q) = depth_count items q + 1"
    by (simp add: depth_count_def submit_count_def)
  show "depth_count items (submit_send ops t job q) = depth_count items q"
    if "t < length (q_calls q)" "q_calls q ! t = Counted job"
    using that upd [of Awaiting] upd [of Refused]
    by (simp add: depth_count_def submit_send_def send_cases(1) split: option.split)
  show "depth_count items (submit_refused t q) + 1 = depth_count items q"
    if "t < length (q_calls q)" "q_calls q ! t = Refused"
    using that upd [of "Returned (api_error 500 ''worker pool unavailable'')"]
    by (simp add: depth_count_def submit_refused_def)
  show "depth_count items (submit_return t r q) = depth_count items q"
    if "t < length (q_calls q)" "q_calls q ! t = Awaiting"
    using that upd [of "Returned r"] by (simp add: depth_count_def submit_return_def)
  show "depth_count items (submit_dropped t q) = depth_count items q"
    if "t < length (q_calls q)" "q_calls q ! t = Awaiting"
    using that upd [of Dropped_call] by (simp add: depth_count_def submit_dropped_def)
qed

lemma depth_worker:
  assumes "w < length (q_workers q)"
  shows "q_workers q ! w = Waiting \<Longrightarrow> items (q_chan q) = (t, job) # items c \<Longrightarrow>
      depth_count items (worker_recv w t job c q) = depth_count items q"
    and "q_workers q ! w = Received t job \<Longrightarrow> depth_count items (worker_begin w t job q) + 1 = depth_count items q"
    and "q_workers q ! w = Running t job \<Longrightarrow> depth_count items (worker_respond w t r q) = depth_count items q"
    and "q_workers q ! w = Running t job \<Longrightarrow> depth_count items (worker_panic ops w t q) = depth_count items q"
  using length_filter_update [OF assms, of is_received "Received t job"]
    length_filter_update [OF assms, of is_received "Running t job"]
    length_filter_update [OF assms, of is_received Waiting]
    length_filter_update [OF assms, of is_received Gone]
  by (simp_all add: depth_count_def worker_recv_def worker_begin_def worker_respond_def worker_panic_def drop_rx)

lemma depth_step:
  assumes "qstep ops runs panics q q'" and "shape_ok receivers n q"
    and "queue_depth q = of_nat (depth_count items q)"
  shows "queue_depth q' = of_nat (depth_count items q')"
  using assms(1)
proof (cases rule: qstep.cases)
  case (send t job)
  then show ?thesis
    using assms(3) by (simp add: depth_submit) (simp add: submit_send_def split: option.split)
next
  case (refused t)
  then have "queue_depth q = of_nat (depth_count items q' + 1)"
    using assms(3) by (simp only: depth_submit)
  moreover have "queue_depth q' = queue_depth q - 1"
    using refused by (simp add: submit_refused_def)
  ultimately show ?thesis by simp
next
  case (recv w t job c)
  then have "items (q_chan q) = (t, job) # items c"
    using waiting_receiver [OF assms(2)] recv_cases(1) by fastforce
  with recv show ?thesis
    using assms(3) by (simp add: depth_worker) (simp add: worker_recv_def)
next
  case (begins w t job)
  then have "queue_depth q = of_nat (depth_count items q' + 1)"
    using assms(3) by (simp only: depth_worker)
  moreover have "queue_depth q' = queue_depth q - 1"
    using begins by (simp add: worker_begin_def)
  ultimately show ?thesis by simp
next
  case (respond w t job r)
  then show ?thesis
    using assms(3) by (simp add: depth_worker) (simp add: worker_respond_def)
next
  case (panic w t job)
  then show ?thesis
    using assms(3) by (simp add: depth_worker) (simp add: worker_panic_def)
next
  case (returns t r)
  then show ?thesis
    using assms(3) by (simp add: depth_submit) (simp add: submit_return_def)
next
  case (dropped t)
  then show ?thesis
    using assms(3) by (simp add: depth_submit) (simp add: submit_dropped_def)
next
  case (count job)
  then show ?thesis
    using assms(3) by (simp add: depth_submit) (simp add: submit_count_def)
qed

lemma order_calls_update:
  assumes "order_ok items q" and "t < length (q_calls q)" and "\<not> is_counted y"
    and "y = Awaiting \<or> y = Dropped_call \<longrightarrow> t \<in> set (q_sent q)"
    and q': "q_chan q' = q_chan q" "q_sent q' = q_sent q" "q_taken q' = q_taken q" "q_jobs q' = q_jobs q"
      "q_calls q' = (q_calls q)[t := y]"
  shows "order_ok items q'"
proof -
  have "fifo_ok items q'" using assms by (simp add: order_ok_def fifo_ok_def)
  moreover have "sent_called q'" using assms by (simp add: order_ok_def sent_called_def nth_list_update)
  moreover have "awaiting_sent q'" using assms by (simp add: order_ok_def awaiting_sent_def nth_list_update)
  moreover have "counts_job y j" for j using assms(3) by (cases y) simp_all
  then have "jobs_ok items q'" using assms by (simp add: order_ok_def jobs_ok_def nth_list_update)
  ultimately show ?thesis by (simp add: order_ok_def)
qed

lemma order_frame:
  assumes "order_ok items q" and "items (q_chan q') = items (q_chan q)" "q_sent q' = q_sent q" "q_taken q' = q_taken q"
    "q_jobs q' = q_jobs q" "q_calls q' = q_calls q"
  shows "order_ok items q'"
proof -
  have "fifo_ok items q'" "jobs_ok items q'" using assms by (simp_all add: order_ok_def fifo_ok_def jobs_ok_def)
  moreover have "sent_called q'" using assms by (simp add: order_ok_def sent_called_def)
  moreover have "awaiting_sent q'" using assms by (simp add: order_ok_def awaiting_sent_def)
  ultimately show ?thesis by (simp add: order_ok_def)
qed

lemma order_count:
  assumes "order_ok items q" and "length (q_jobs q) = length (q_calls q)"
  shows "order_ok items (submit_count job q)"
proof -
  have "fifo_ok items (submit_count job q)"
    using assms by (simp add: order_ok_def fifo_ok_def submit_count_def)
  moreover have "sent_called (submit_count job q)"
    using assms by (auto simp: order_ok_def sent_called_def submit_count_def nth_append)
  moreover have "awaiting_sent (submit_count job q)"
    using assms by (simp add: order_ok_def awaiting_sent_def submit_count_def nth_append less_Suc_eq)
  moreover have "jobs_ok items (submit_count job q)"
    using assms by (auto simp: order_ok_def jobs_ok_def submit_count_def nth_append less_Suc_eq)
  ultimately show ?thesis by (simp add: order_ok_def)
qed

lemma counted_unsent:
  assumes "order_ok items q" "t < length (q_calls q)" "is_counted (q_calls q ! t)"
  shows "t \<notin> set (q_sent q)" and "q_calls q ! t = Counted job \<Longrightarrow> q_jobs q ! t = job"
proof -
  show "t \<notin> set (q_sent q)" using assms by (auto simp: order_ok_def sent_called_def)
  show "q_jobs q ! t = job" if "q_calls q ! t = Counted job"
    using assms(1,2) that by (auto simp: order_ok_def jobs_ok_def dest!: spec [of _ t])
qed

lemma order_send:
  assumes ord: "order_ok items q" and t: "t < length (q_calls q)" "q_calls q ! t = Counted job"
  shows "order_ok items (submit_send ops t job q)"
proof (cases "chan_try_send ops (t, job) (q_chan q)")
  case None
  have "sent_called (submit_send ops t job q)"
    using ord None counted_unsent(1) [OF ord t(1)] t
    by (auto simp: order_ok_def sent_called_def submit_send_def nth_list_update)
  moreover have "awaiting_sent (submit_send ops t job q)"
    using ord None t by (simp add: order_ok_def awaiting_sent_def submit_send_def nth_list_update)
  moreover have "fifo_ok items (submit_send ops t job q)" "jobs_ok items (submit_send ops t job q)"
    using ord None t by (simp_all add: order_ok_def fifo_ok_def jobs_ok_def submit_send_def nth_list_update)
  ultimately show ?thesis by (simp add: order_ok_def)
next
  case (Some c)
  note c = send_cases(1) [OF Some]
  have new: "t \<notin> set (q_sent q)" "q_jobs q ! t = job" using counted_unsent [OF ord t(1)] t by auto
  have "fifo_ok items (submit_send ops t job q)"
    using ord Some c new by (simp add: order_ok_def fifo_ok_def submit_send_def flip: append_assoc)
  moreover have "sent_called (submit_send ops t job q)"
    using ord Some t by (simp add: order_ok_def sent_called_def submit_send_def nth_list_update)
  moreover have "awaiting_sent (submit_send ops t job q)"
    using ord Some t by (simp add: order_ok_def awaiting_sent_def submit_send_def nth_list_update)
  moreover have "jobs_ok items (submit_send ops t job q)"
    using ord Some c new t by (simp add: order_ok_def jobs_ok_def submit_send_def nth_list_update)
  ultimately show ?thesis by (simp add: order_ok_def)
qed

lemma order_recv:
  assumes "order_ok items q" and "items (q_chan q) = (t, job) # items c"
  shows "order_ok items (worker_recv w t job c q)"
proof -
  let ?q = "worker_recv w t job c q"
  have "fifo_ok items ?q" "jobs_ok items ?q"
    using assms by (simp_all add: order_ok_def fifo_ok_def jobs_ok_def worker_recv_def)
  moreover have "sent_called ?q" using assms by (simp add: order_ok_def sent_called_def worker_recv_def)
  moreover have "awaiting_sent ?q" using assms by (simp add: order_ok_def awaiting_sent_def worker_recv_def)
  ultimately show ?thesis by (simp add: order_ok_def)
qed

lemma awaiting_is_sent: "order_ok items q \<Longrightarrow> t < length (q_calls q) \<Longrightarrow> q_calls q ! t = Awaiting \<Longrightarrow> t \<in> set (q_sent q)"
  by (simp add: order_ok_def awaiting_sent_def)

lemma order_step:
  assumes "qstep ops runs panics q q'" and shape: "shape_ok receivers n q" and ord: "order_ok items q"
  shows "order_ok items q'"
  using assms(1)
proof (cases rule: qstep.cases)
  case (count job)
  then show ?thesis using ord shape by (simp add: order_count shape_ok_def)
next
  case (send t job)
  then show ?thesis using ord by (simp add: order_send)
next
  case (refused t)
  then show ?thesis
    using order_calls_update [OF ord, of t "Returned (api_error 500 ''worker pool unavailable'')"]
    by (simp add: submit_refused_def)
next
  case (returns t r)
  then show ?thesis
    using order_calls_update [OF ord, of t "Returned r"] by (simp add: submit_return_def)
next
  case (dropped t)
  then show ?thesis
    using order_calls_update [OF ord, of t Dropped_call] awaiting_is_sent [OF ord] by (simp add: submit_dropped_def)
next
  case (recv w t job c)
  then have "items (q_chan q) = (t, job) # items c"
    using waiting_receiver [OF shape] recv_cases(1) by fastforce
  with recv show ?thesis using ord by (simp add: order_recv)
next
  case (begins w t job)
  then show ?thesis using order_frame [OF ord] by (simp add: worker_begin_def)
next
  case (respond w t job r)
  then show ?thesis using order_frame [OF ord] by (simp add: worker_respond_def)
next
  case (panic w t job)
  then show ?thesis using order_frame [OF ord] by (simp add: worker_panic_def drop_rx)
qed

lemma taken_sent:
  assumes "order_ok items q" "t \<in> set (q_taken q)"
  shows "t \<in> set (q_sent q)" "t < length (q_calls q)"
proof -
  have "q_sent q = q_taken q @ map fst (items (q_chan q))" using assms(1) by (simp add: order_ok_def fifo_ok_def)
  with assms(2) show "t \<in> set (q_sent q)" by simp
  with assms(1) show "t < length (q_calls q)" by (simp add: order_ok_def sent_called_def)
qed

lemma held_facts:
  assumes "order_ok items q" "held_ok q" "w < length (q_workers q)" "held (q_workers q ! w) = Some (t, job)"
  shows "t \<in> set (q_taken q)" "q_jobs q ! t = job" "q_oneshots q ! t = Open" "t < length (q_calls q)"
proof -
  show "t \<in> set (q_taken q)" "q_jobs q ! t = job" "q_oneshots q ! t = Open"
    using assms(2-4) by (auto simp: held_ok_def)
  then show "t < length (q_calls q)" using taken_sent [OF assms(1)] by blast
qed

lemma oneshots_step:
  assumes "qstep ops runs panics q q'" and shape: "shape_ok receivers n q" and ord: "order_ok items q"
    and held: "held_ok q" and one: "oneshots_ok runs panics q"
  shows "oneshots_ok runs panics q'"
  using assms(1)
proof (cases rule: qstep.cases)
  case (count job)
  then show ?thesis
    using one shape by (simp add: oneshots_ok_def submit_count_def shape_ok_def nth_append less_Suc_eq)
next
  case (respond w t job r)
  then have "t \<in> set (q_taken q)" "q_jobs q ! t = job" "t < length (q_calls q)"
    using held_facts [OF ord held, of w t job] by simp_all
  with respond show ?thesis
    using one shape by (simp add: oneshots_ok_def worker_respond_def shape_ok_def nth_list_update)
next
  case (panic w t job)
  then have "t \<in> set (q_taken q)" "q_jobs q ! t = job" "t < length (q_calls q)"
    using held_facts [OF ord held, of w t job] by simp_all
  with panic show ?thesis
    using one shape by (simp add: oneshots_ok_def worker_panic_def shape_ok_def nth_list_update)
next
  case (recv w t job c)
  then show ?thesis
    using one unfolding oneshots_ok_def worker_recv_def by (auto intro: oneshot_ok_mono)
qed (use one in \<open>simp_all add: oneshots_ok_def queue_op_defs split: option.split\<close>)

lemma counted_open:
  assumes "order_ok items q" "oneshots_ok runs panics q" "t < length (q_calls q)" "t \<notin> set (q_taken q)"
  shows "q_oneshots q ! t = Open"
  using assms by (cases "q_oneshots q ! t") (auto simp: oneshots_ok_def dest!: spec [of _ t])

lemma running_not_closed:
  assumes "shape_ok receivers n q" "w < length (q_workers q)" "q_workers q ! w = Running t job"
  shows "0 < receivers (q_chan q)"
  using waiting_receiver [OF assms(1,2)] assms(3) by simp

lemma returns_step:
  assumes "qstep ops runs panics q q'" and shape: "shape_ok receivers n q" and ord: "order_ok items q"
    and held: "held_ok q" and one: "oneshots_ok runs panics q" and ret: "returns_ok receivers q"
  shows "returns_ok receivers q'"
  using assms(1)
proof (cases rule: qstep.cases)
  case (count job)
  then show ?thesis
    using ret shape by (simp add: returns_ok_def submit_count_def shape_ok_def nth_append less_Suc_eq)
next
  case (send t job)
  then have "t \<notin> set (q_sent q)" using counted_unsent(1) [OF ord] by simp
  then have "q_oneshots q ! t = Open"
    using counted_open [OF ord one] send taken_sent [OF ord] by blast
  moreover have "receivers (q_chan q) = 0" if "chan_try_send ops (t, job) (q_chan q) = None"
    using send_ok [of "q_chan q" "(t, job)"] that by (cases "receivers (q_chan q)") auto
  ultimately show ?thesis
    using ret send send_cases(2) [of "(t, job)" "q_chan q"]
    by (cases "chan_try_send ops (t, job) (q_chan q)")
      (auto simp: returns_ok_def submit_send_def nth_list_update)
next
  case (recv w t job c)
  then have "receivers c = receivers (q_chan q)"
    using waiting_receiver [OF shape] recv_cases(2) by fastforce
  with recv show ?thesis using ret by (simp add: returns_ok_def worker_recv_def)
next
  case (respond w t job r)
  then have "q_oneshots q ! t = Open" "t < length (q_calls q)"
    using held_facts [OF ord held, of w t job] by simp_all
  moreover from this have "call_ok b s (q_calls q ! t)" for b s
    using ret call_ok_settled running_not_closed [OF shape respond(2,3)] unfolding returns_ok_def by fastforce
  ultimately show ?thesis
    using ret shape respond by (simp add: returns_ok_def worker_respond_def nth_list_update shape_ok_def)
next
  case (panic w t job)
  then have "q_oneshots q ! t = Open" "t < length (q_calls q)"
    using held_facts [OF ord held, of w t job] by simp_all
  moreover from this have "call_ok b s (q_calls q ! t)" for b s
    using ret call_ok_settled running_not_closed [OF shape panic(2,3)] unfolding returns_ok_def by fastforce
  moreover have "call_ok b (q_oneshots q ! ta) (q_calls q ! ta)" if "ta < length (q_calls q)" for b ta
    using ret running_not_closed [OF shape panic(2,3)] that call_ok_closed
    unfolding returns_ok_def by (metis less_numeral_extra(3))
  ultimately show ?thesis
    using shape panic by (simp add: returns_ok_def worker_panic_def nth_list_update shape_ok_def)
next
  case (refused t)
  then show ?thesis
    using ret by (auto simp: returns_ok_def submit_refused_def nth_list_update dest!: spec [of _ t])
qed (use ret in \<open>simp_all add: returns_ok_def queue_op_defs nth_list_update\<close>)

lemma held_start: "held_ok (start ops n)"
  by (simp add: held_ok_def start_def)

lemma held_okD:
  assumes "held_ok q" "w < length (q_workers q)" "held (q_workers q ! w) = Some m"
  shows "fst m \<in> set (q_taken q)" "q_jobs q ! fst m = snd m" "q_oneshots q ! fst m = Open"
    "\<lbrakk>v < length (q_workers q); held (q_workers q ! v) = Some m'; w \<noteq> v\<rbrakk> \<Longrightarrow> fst m \<noteq> fst m'"
  using assms unfolding held_ok_def by blast+

lemma held_ok_holds: "held_ok q \<Longrightarrow> t \<in> set (q_taken q) \<Longrightarrow> q_oneshots q ! t = Open \<Longrightarrow> holds (q_workers q) t"
  unfolding held_ok_def by blast

lemma held_frame:
  assumes "held_ok q" and "q_workers q' = q_workers q" "q_taken q' = q_taken q" "q_jobs q' = q_jobs q"
    "q_oneshots q' = q_oneshots q"
  shows "held_ok q'"
  using assms by (simp add: held_ok_def)

lemma held_count:
  assumes "held_ok q" "order_ok items q" "shape_ok receivers n q"
  shows "held_ok (submit_count job q)"
proof -
  have lt: "t < length (q_oneshots q)" "t < length (q_jobs q)" if "t \<in> set (q_taken q)" for t
    using taken_sent(2) [OF assms(2) that] assms(3) by (simp_all add: shape_ok_def)
  have "fst m \<in> set (q_taken q) \<and> (q_jobs q @ [job]) ! fst m = snd m \<and> (q_oneshots q @ [Open]) ! fst m = Open"
    if "w < length (q_workers q)" "held (q_workers q ! w) = Some m" for w m
    using held_okD [OF assms(1) that] lt [of "fst m"] by (simp add: nth_append)
  moreover have "holds (q_workers q) t"
    if "t \<in> set (q_taken q)" "(q_oneshots q @ [Open]) ! t = Open" for t
    using held_ok_holds [OF assms(1) that(1)] that lt by (simp add: nth_append)
  ultimately show ?thesis
    using assms(1) unfolding held_ok_def submit_count_def by simp
qed

text \<open>A worker changes what it holds: to a message just taken, or, once its oneshot is settled, to nothing.\<close>

lemma held_update:
  assumes held: "held_ok q" and w: "w < length (q_workers q)"
    and q': "q_workers q' = (q_workers q)[w := x]" "q_jobs q' = q_jobs q"
    and new: "\<And>m. held x = Some m \<Longrightarrow>
      fst m \<in> set (q_taken q') \<and> q_jobs q ! fst m = snd m \<and> q_oneshots q' ! fst m = Open
      \<and> (fst m \<notin> set (q_taken q) \<or> held (q_workers q ! w) = Some m)"
    and taken: "set (q_taken q) \<subseteq> set (q_taken q')"
    and others: "\<And>t. t \<in> set (q_taken q') \<Longrightarrow> q_oneshots q' ! t = Open \<Longrightarrow>
      t \<in> set (q_taken q) \<and> q_oneshots q ! t = Open \<and> (\<forall>m. held (q_workers q ! w) = Some m \<longrightarrow> fst m \<noteq> t)
      \<or> (\<exists>m. held x = Some m \<and> fst m = t)"
    and kept: "\<And>t. t \<in> set (q_taken q) \<Longrightarrow> q_oneshots q ! t = Open \<Longrightarrow>
      (\<forall>m. held (q_workers q ! w) = Some m \<longrightarrow> fst m \<noteq> t) \<Longrightarrow> q_oneshots q' ! t = Open"
  shows "held_ok q'"
proof -
  have one: "fst m \<in> set (q_taken q') \<and> q_jobs q' ! fst m = snd m \<and> q_oneshots q' ! fst m = Open"
    if v: "v < length (q_workers q)" "held ((q_workers q)[w := x] ! v) = Some m" for v m
  proof (cases "v = w")
    case True
    with v(2) w have "held x = Some m" by simp
    from new [OF this] show ?thesis by (simp only: q'(2) simp_thms)
  next
    case False
    with v have m: "held (q_workers q ! v) = Some m" by simp
    note old = held_okD [OF held v(1) m]
    have "fst m' \<noteq> fst m" if "held (q_workers q ! w) = Some m'" for m'
      using held_okD(4) [OF held w that v(1) m] False by blast
    then have "\<forall>m'. held (q_workers q ! w) = Some m' \<longrightarrow> fst m' \<noteq> fst m" by blast
    from kept [OF old(1,3) this] old(2) subsetD [OF taken old(1)] show ?thesis
      by (simp only: q'(2) simp_thms)
  qed
  have two: "fst m \<noteq> fst m'"
    if prems: "v < length (q_workers q)" "u < length (q_workers q)" "held ((q_workers q)[w := x] ! v) = Some m"
      "held ((q_workers q)[w := x] ! u) = Some m'" "v \<noteq> u" for v u m m'
  proof -
    have aux: "fst m \<noteq> fst m'" if "held x = Some m" "u < length (q_workers q)" "u \<noteq> w" "held (q_workers q ! u) = Some m'" for u m m'
      using new [OF that(1)] held_okD(1) [OF held that(2,4)] held_okD(4) [OF held w _ that(2,4)] that(3) by metis
    consider "v = w" "u \<noteq> w" | "u = w" "v \<noteq> w" | "v \<noteq> w" "u \<noteq> w" using prems(5) by blast
    then show ?thesis
    proof cases
      case 1
      then show ?thesis using prems(2-4) w by (intro aux [of m u m']) simp_all
    next
      case 2
      then have "fst m' \<noteq> fst m" using prems(1,3,4) w by (intro aux [of m' v m]) simp_all
      then show ?thesis by (rule not_sym)
    next
      case 3
      then show ?thesis
        using held_okD(4) [OF held prems(1) _ prems(2) _ prems(5)] prems(3,4) by simp
    qed
  qed
  have three: "holds ((q_workers q)[w := x]) t" if "t \<in> set (q_taken q')" "q_oneshots q' ! t = Open" for t
    using others [OF that]
  proof (elim disjE conjE exE)
    fix m assume "held x = Some m" "fst m = t"
    then show ?thesis using w holds_self [of w "q_workers q" x t "snd m"] by auto
  next
    assume "t \<in> set (q_taken q)" "q_oneshots q ! t = Open" "\<forall>m. held (q_workers q ! w) = Some m \<longrightarrow> fst m \<noteq> t"
    moreover from this have "holds (q_workers q) t" using held_ok_holds [OF held] by blast
    ultimately show ?thesis by (intro holds_update) auto
  qed
  show ?thesis
    unfolding held_ok_def q'(1) length_list_update using one two three q'(2) by blast
qed

lemma held_step:
  assumes "qstep ops runs panics q q'" and shape: "shape_ok receivers n q" and ord: "order_ok items q"
    and one: "oneshots_ok runs panics q" and held: "held_ok q"
  shows "held_ok q'"
  using assms(1)
proof (cases rule: qstep.cases)
  case (count job)
  then show ?thesis using held_count [OF held ord shape] by simp
next
  case (recv w t job c)
  then have i: "items (q_chan q) = (t, job) # items c"
    using waiting_receiver [OF shape] recv_cases(1) by fastforce
  then have "distinct (q_taken q @ t # map fst (items c))" "t < length (q_calls q)" "q_jobs q ! t = job"
    using ord by (auto simp: order_ok_def fifo_ok_def jobs_ok_def)
  then have t: "t \<notin> set (q_taken q)" "q_jobs q ! t = job" "q_oneshots q ! t = Open"
    using counted_open [OF ord one] by auto
  show ?thesis
    unfolding recv(1) by (rule held_update [OF held recv(2)]) (use t recv in \<open>auto simp: worker_recv_def\<close>)
next
  case (begins w t job)
  note m = held_okD [OF held begins(2), of "(t, job)"]
  show ?thesis
    unfolding begins(1)
    by (rule held_update [OF held begins(2), where x = "Running t job"])
      (use m begins in \<open>auto simp: worker_begin_def\<close>)
next
  case (respond w t job r)
  note m = held_okD [OF held respond(2), of "(t, job)"]
  have "t < length (q_oneshots q)"
    using held_facts(4) [OF ord held respond(2)] respond shape by (simp add: shape_ok_def)
  then show ?thesis
    unfolding respond(1)
    by (intro held_update [OF held respond(2), where x = Waiting])
      (use m respond in \<open>auto simp: worker_respond_def nth_list_update split: if_splits\<close>)
next
  case (panic w t job)
  note m = held_okD [OF held panic(2), of "(t, job)"]
  have "t < length (q_oneshots q)"
    using held_facts(4) [OF ord held panic(2)] panic shape by (simp add: shape_ok_def)
  then show ?thesis
    unfolding panic(1)
    by (intro held_update [OF held panic(2), where x = Gone])
      (use m panic in \<open>auto simp: worker_panic_def nth_list_update split: if_splits\<close>)
qed (rule held_frame [OF held]; simp add: queue_op_defs split: option.split)+

lemma pool_start: "pool_ok items receivers runs panics n (start ops n)"
  unfolding pool_ok_def
  by (intro conjI shape_start order_start held_start depth_start)
    (simp_all add: oneshots_ok_def returns_ok_def start_def)

lemma pool_step: "qstep ops runs panics q q' \<Longrightarrow> pool_ok items receivers runs panics n q \<Longrightarrow> pool_ok items receivers runs panics n q'"
  unfolding pool_ok_def
  by (intro conjI; elim conjE; (rule shape_step order_step held_step oneshots_step returns_step depth_step; assumption))

lemma pool_reach: "qreach ops runs panics n q \<Longrightarrow> pool_ok items receivers runs panics n q"
  unfolding qreach_def by (induction rule: rtranclp_induct) (auto intro: pool_start pool_step)


lemma alive_step:
  assumes "qstep ops runs panics q q'" and "\<forall>job. \<not> panics job" and "alive q"
  shows "alive q'"
  using assms(1)
proof (cases rule: qstep.cases)
  case (panic w t job)
  with assms(2) show ?thesis by blast
qed (use assms(3) set_update_subset_insert in
      \<open>fastforce simp: alive_def queue_op_defs split: option.split\<close>)+

lemma alive_reach: "qreach ops runs panics n q \<Longrightarrow> \<forall>job. \<not> panics job \<Longrightarrow> alive q"
  unfolding qreach_def
proof (induction rule: rtranclp_induct)
  case base
  show ?case by (simp add: alive_def start_def)
next
  case (step y z)
  then show ?case using alive_step [of runs panics y z] by blast
qed

lemma pool_steps:
  "(qstep ops runs panics)\<^sup>*\<^sup>* q q' \<Longrightarrow> pool_ok items receivers runs panics n q \<Longrightarrow>
     pool_ok items receivers runs panics n q'"
  by (induction rule: rtranclp_induct) (auto intro: pool_step)

text \<open>A worker that runs a job can answer and is then free; a call whose answer is there can return.\<close>

lemma finish_running:
  assumes pool: "pool_ok items receivers runs panics n q" and w: "w < length (q_workers q)"
    and run: "q_workers q ! w = Running t job" and "runs job r"
  shows "qstep ops runs panics q (worker_respond w t r q)"
    and "q_oneshots (worker_respond w t r q) ! t = Answer r"
    and "q_workers (worker_respond w t r q) ! w = Waiting"
proof -
  have "t < length (q_oneshots q)"
    using pool held_facts(4) [of q w t job] w run by (auto simp: pool_ok_def shape_ok_def)
  then show "q_oneshots (worker_respond w t r q) ! t = Answer r" by (simp add: worker_respond_def)
  show "qstep ops runs panics q (worker_respond w t r q)" by (rule qstep.respond) (rule w run assms(4))+
  show "q_workers (worker_respond w t r q) ! w = Waiting" using w by (simp add: worker_respond_def)
qed

lemma finish_held:
  assumes pool: "pool_ok items receivers runs panics n q" and w: "w < length (q_workers q)"
    and held: "held (q_workers q ! w) = Some (t, job)" and r: "runs job r"
  shows "\<exists>q'. (qstep ops runs panics)\<^sup>*\<^sup>* q q' \<and> q_workers q' ! w = Waiting \<and> q_oneshots q' ! t = Answer r
    \<and> q_chan q' = q_chan q \<and> q_calls q' = q_calls q \<and> q_jobs q' = q_jobs q"
proof (cases "q_workers q ! w")
  case (Running t' job')
  with held have run: "q_workers q ! w = Running t job" by simp
  note f = finish_running [OF pool w run r]
  show ?thesis
    using f by (intro exI [of _ "worker_respond w t r q"]) (auto simp: worker_respond_def)
next
  case (Received t' job')
  with held have rec: "q_workers q ! w = Received t job" by simp
  let ?q = "worker_begin w t job q"
  have step: "qstep ops runs panics q ?q" by (rule qstep.begins [OF w rec])
  have pool': "pool_ok items receivers runs panics n ?q" by (rule pool_step [OF step pool])
  have w': "w < length (q_workers ?q)" "q_workers ?q ! w = Running t job"
    using w by (simp_all add: worker_begin_def)
  note f = finish_running [OF pool' w' r]
  show ?thesis
    using step f by (intro exI [of _ "worker_respond w t r ?q"]) (auto simp: worker_respond_def worker_begin_def
        intro: converse_rtranclp_into_rtranclp)
qed (use held in simp_all)

lemma return_answer:
  assumes "t < length (q_calls q)" "q_calls q ! t = Awaiting" "q_oneshots q ! t = Answer r"
  shows "qstep ops runs panics q (submit_return t r q)" "q_calls (submit_return t r q) ! t = Returned r"
proof -
  show "qstep ops runs panics q (submit_return t r q)"
    using assms by (intro qstep.returns) (simp_all add: oneshot_result_def)
  show "q_calls (submit_return t r q) ! t = Returned r" using assms by (simp add: submit_return_def)
qed

lemma return_held:
  assumes "pool_ok items receivers runs panics n q" "w < length (q_workers q)"
    and "held (q_workers q ! w) = Some (t, job)" "runs job r"
    and "t < length (q_calls q)" "q_calls q ! t = Awaiting"
  shows "\<exists>q'. (qstep ops runs panics)\<^sup>*\<^sup>* q q' \<and> q_calls q' ! t = Returned r"
proof -
  obtain q1 where q1: "(qstep ops runs panics)\<^sup>*\<^sup>* q q1" "q_oneshots q1 ! t = Answer r" "q_calls q1 = q_calls q"
    using finish_held [OF assms(1-4)] by blast
  with assms(5,6) return_answer [of t q1 r] show ?thesis
    by (metis rtranclp.rtrancl_into_rtrancl)
qed

lemma free_worker:
  assumes pool: "pool_ok items receivers runs panics n q" and "alive q" "0 < n" and total: "\<forall>job. \<exists>r. runs job r"
  shows "\<exists>q'. (qstep ops runs panics)\<^sup>*\<^sup>* q q' \<and> q_workers q' ! 0 = Waiting
    \<and> q_chan q' = q_chan q \<and> q_calls q' = q_calls q \<and> q_jobs q' = q_jobs q"
proof (cases "held (q_workers q ! 0)")
  case None
  have "0 < length (q_workers q)" using pool assms(3) by (simp add: pool_ok_def shape_ok_def)
  then have "q_workers q ! 0 = Waiting"
    using None assms(2) nth_mem [of 0 "q_workers q"] by (cases "q_workers q ! 0") (auto simp: alive_def)
  then show ?thesis by blast
next
  case (Some m)
  obtain t job where m: "m = (t, job)" by (cases m)
  obtain r where "runs job r" using total by blast
  moreover have "0 < length (q_workers q)" using pool assms(3) by (simp add: pool_ok_def shape_ok_def)
  ultimately show ?thesis using finish_held [OF pool _ Some [unfolded m]] by blast
qed

lemma return_queued:
  assumes "pool_ok items receivers runs panics n q" "alive q" "0 < n" "\<forall>job. \<exists>r. runs job r"
    and "\<forall>job. \<not> panics job"
    and "t \<in> fst ` set (items (q_chan q))" "t < length (q_calls q)" "q_calls q ! t = Awaiting"
  shows "\<exists>q' r. (qstep ops runs panics)\<^sup>*\<^sup>* q q' \<and> q_calls q' ! t = Returned r \<and> runs (q_jobs q ! t) r"
  using assms
proof (induction "length (items (q_chan q))" arbitrary: q)
  case (Suc k)
  obtain q1 where q1: "(qstep ops runs panics)\<^sup>*\<^sup>* q q1" "q_workers q1 ! 0 = Waiting" "q_chan q1 = q_chan q"
      "q_calls q1 = q_calls q" "q_jobs q1 = q_jobs q"
    using free_worker [OF Suc.prems(1-4)] by blast
  have pool1: "pool_ok items receivers runs panics n q1" by (rule pool_steps [OF q1(1) Suc.prems(1)])
  have w: "0 < length (q_workers q1)" using pool1 Suc.prems(3) by (simp add: pool_ok_def shape_ok_def)
  obtain u job ms where i: "items (q_chan q1) = (u, job) # ms"
    using Suc.hyps(2) q1(3) by (cases "items (q_chan q1)") auto
  have "0 < receivers (q_chan q1)"
    using waiting_receiver [of n q1 0] pool1 w q1(2) by (simp add: pool_ok_def)
  then obtain c where c: "chan_recv ops (q_chan q1) = Some ((u, job), c)" "items c = ms"
    using recv_first [OF _ i] by blast
  let ?q = "worker_recv 0 u job c q1"
  have step: "qstep ops runs panics q1 ?q" by (rule qstep.recv [OF w q1(2) c(1)])
  have pool2: "pool_ok items receivers runs panics n ?q" by (rule pool_step [OF step pool1])
  have steps: "(qstep ops runs panics)\<^sup>*\<^sup>* q ?q" using q1(1) step by (rule rtranclp.rtrancl_into_rtrancl)
  have same: "q_calls ?q = q_calls q" "q_jobs ?q = q_jobs q" "q_chan ?q = c"
    using q1 by (simp_all add: worker_recv_def)
  show ?case
  proof (cases "u = t")
    case True
    obtain r where r: "runs job r" using Suc.prems(4) by blast
    have h: "held (q_workers ?q ! 0) = Some (t, job)" "0 < length (q_workers ?q)"
      using True w by (simp_all add: worker_recv_def)
    have "q_jobs q ! t = job"
      using held_facts(2) [of ?q 0 t job] pool2 h same by (simp add: pool_ok_def)
    moreover obtain q' where "(qstep ops runs panics)\<^sup>*\<^sup>* ?q q'" "q_calls q' ! t = Returned r"
      using return_held [OF pool2 h(2,1) r] Suc.prems(7,8) same by auto
    ultimately show ?thesis using steps r by (meson rtranclp_trans)
  next
    case False
    have "alive q1" using q1(1) Suc.prems(2)
      by (induction rule: rtranclp_induct) (auto intro: alive_step [OF _ Suc.prems(5)])
    then have "alive ?q" by (rule alive_step [OF step Suc.prems(5)])
    moreover have "t \<in> fst ` set (items (q_chan ?q))"
      using Suc.prems(6) i q1(3) c(2) False same by auto
    moreover have "k = length (items (q_chan ?q))"
      using Suc.hyps(2) i q1(3) c(2) same by simp
    ultimately obtain q' r where "(qstep ops runs panics)\<^sup>*\<^sup>* ?q q'" "q_calls q' ! t = Returned r" "runs (q_jobs ?q ! t) r"
      using Suc.hyps(1) [OF _ pool2 _ Suc.prems(3-5)] Suc.prems(7,8) same by auto
    then show ?thesis using steps same(2) by (metis rtranclp_trans)
  qed
qed simp

lemma submit_can_return:
  assumes reach: "qreach ops runs panics n q" and "0 < n" and total: "\<forall>job. \<exists>r. runs job r"
    and calm: "\<forall>job. \<not> panics job" and t: "t < length (q_calls q)" "q_calls q ! t = Awaiting"
  shows "\<exists>q' r. (qstep ops runs panics)\<^sup>*\<^sup>* q q' \<and> q_calls q' ! t = Returned r \<and> runs (q_jobs q ! t) r"
proof -
  have pool: "pool_ok items receivers runs panics n q" by (rule pool_reach [OF reach])
  then have ord: "order_ok items q" and one: "oneshots_ok runs panics q" and held: "held_ok q"
    by (simp_all add: pool_ok_def)
  show ?thesis
  proof (cases "q_oneshots q ! t")
    case (Answer r)
    moreover from this one t have "runs (q_jobs q ! t) r" by (auto simp: oneshots_ok_def dest!: spec [of _ t])
    ultimately show ?thesis using return_answer [OF t] by blast
  next
    case Closed
    with one t calm show ?thesis by (auto simp: oneshots_ok_def dest!: spec [of _ t])
  next
    case Open
    have "t \<in> set (q_taken q) \<or> t \<in> fst ` set (items (q_chan q))"
    proof -
      have "q_sent q = q_taken q @ map fst (items (q_chan q))" using ord by (simp add: order_ok_def fifo_ok_def)
      then show ?thesis using awaiting_is_sent [OF ord t] by simp
    qed
    then show ?thesis
    proof
      assume "t \<in> set (q_taken q)"
      then obtain w m where w: "w < length (q_workers q)" "held (q_workers q ! w) = Some m" "fst m = t"
        using held_ok_holds [OF held _ Open] by (auto simp: holds_def)
      then have m: "held (q_workers q ! w) = Some (t, snd m)" by (metis prod.collapse)
      obtain r where "runs (snd m) r" using total by blast
      moreover have "q_jobs q ! t = snd m" by (rule held_facts(2) [OF ord held w(1) m])
      ultimately show ?thesis using return_held [OF pool w(1) m _ t] by metis
    next
      assume "t \<in> fst ` set (items (q_chan q))"
      then show ?thesis using return_queued [OF pool alive_reach [OF reach calm] assms(2) total calm _ t] by blast
    qed
  qed
qed

lemma no_workers_taken:
  assumes "qreach ops runs panics 0 q"
  shows "q_taken q = []"
  using assms unfolding qreach_def
proof (induction rule: rtranclp_induct)
  case base
  show ?case by (simp add: start_def)
next
  case (step y z)
  then have "q_workers y = []" using pool_reach [of runs panics 0 y] by (simp add: qreach_def pool_ok_def shape_ok_def)
  with step(2,3) show ?case
    by (cases rule: qstep.cases) (simp_all add: queue_op_defs split: option.split)
qed

end

interpretation list_jobs: job_channel list_channel fst snd
  by unfold_locales

section \<open>A run\<close>

text \<open>One worker, one call: the states of a complete exchange over the list channel.\<close>

definition demo_runs :: "nat \<Rightarrow> api_response \<Rightarrow> bool" where
  "demo_runs job r = (r = api_success (JNum (int job)))"

definition demo_sent :: "(nat message list \<times> nat, nat) queue" where
  "demo_sent = submit_send list_channel 0 5 (submit_count 5 (start list_channel 1))"

definition demo_done :: "(nat message list \<times> nat, nat) queue" where
  "demo_done =
     submit_return 0 (api_success (JNum 5))
       (worker_respond 0 0 (api_success (JNum 5))
         (worker_begin 0 0 5 (worker_recv 0 0 5 ([], 1) demo_sent)))"

lemma demo_sent_eq:
  "demo_sent = \<lparr>q_chan = ([(0, 5)], 1), queue_depth = 1, stat_workers = 1, q_workers = [Waiting],
     q_calls = [Awaiting], q_oneshots = [Open], q_jobs = [5], q_sent = [0], q_taken = []\<rparr>"
  by (simp add: demo_sent_def start_def submit_count_def submit_send_def list_channel_def)

lemma demo_sent_reach: "qreach list_channel demo_runs (\<lambda>j. False) 1 demo_sent"
proof -
  let ?s = "qstep list_channel demo_runs (\<lambda>j. False)" and ?q = "start list_channel 1"
  have "?s ?q (submit_count 5 ?q)" by (rule qstep.count)
  moreover have "?s (submit_count 5 ?q) demo_sent"
    unfolding demo_sent_def by (rule qstep.send) (simp_all add: submit_count_def start_def)
  ultimately show ?thesis unfolding qreach_def by (meson rtranclp.simps)
qed

lemma demo_done_reach: "qreach list_channel demo_runs (\<lambda>j. False) 1 demo_done"
proof -
  let ?s = "qstep list_channel demo_runs (\<lambda>j. False)" and ?r = "api_success (JNum 5)"
  let ?a = "worker_recv 0 0 5 ([], 1) demo_sent"
  let ?b = "worker_begin 0 0 5 ?a" let ?c = "worker_respond 0 0 ?r ?b"
  have "?s demo_sent ?a" by (rule qstep.recv) (simp_all add: demo_sent_eq list_channel_def)
  moreover have "?s ?a ?b" by (rule qstep.begins) (simp_all add: demo_sent_eq worker_recv_def)
  moreover have "?s ?b ?c"
    by (rule qstep.respond) (auto simp: demo_sent_eq worker_recv_def worker_begin_def demo_runs_def)
  moreover have "?s ?c demo_done" unfolding demo_done_def
    by (rule qstep.returns)
      (simp_all add: demo_sent_eq worker_recv_def worker_begin_def worker_respond_def oneshot_result_def)
  ultimately show ?thesis
    using demo_sent_reach unfolding qreach_def by (meson rtranclp.rtrancl_into_rtrancl)
qed

section \<open>Properties\<close>

text \<open>C20. The depth counter is exact. In every reachable state it is the number of calls that have counted
  themselves and not yet sent, plus the messages waiting in the channel, plus the messages taken
  and not yet counted off; so it never falls below zero, and it is zero when nothing is under
  way.\<close>

theorem queue_depth_exact:
  assumes "job_channel ops items receivers" and "qreach ops runs panics n q"
  shows "queue_depth q = of_nat (depth_count items q)
    \<and> (\<forall>t<length (q_calls q). q_calls q ! t = Refused \<longrightarrow> 0 < depth_count items q)
    \<and> (\<forall>w<length (q_workers q). is_received (q_workers q ! w) \<longrightarrow> 0 < depth_count items q)
    \<and> ((\<forall>c\<in>set (q_calls q). \<not> is_counted c) \<and> items (q_chan q) = [] \<and> (\<forall>w\<in>set (q_workers q). \<not> is_received w)
        \<longrightarrow> queue_depth q = 0)"
proof -
  have "queue_depth q = of_nat (depth_count items q)"
    using job_channel.pool_reach [OF assms] by (simp add: pool_ok_def)
  moreover have "0 < depth_count items q" if "t < length (q_calls q)" "q_calls q ! t = Refused" for t
    using that nth_mem [of t "q_calls q"] by (auto simp: depth_count_def filter_empty_conv intro!: bexI [of _ Refused])
  moreover have "0 < depth_count items q" if "w < length (q_workers q)" "is_received (q_workers q ! w)" for w
    using that nth_mem [of w "q_workers q"] by (auto simp: depth_count_def filter_empty_conv)
  ultimately show ?thesis by (simp add: depth_count_def)
qed

theorem queue_depth_exact_witness: "queue_depth demo_done = 0"
  using queue_depth_exact [OF list_jobs.job_channel_axioms demo_done_reach]
  by (simp add: demo_done_def demo_sent_eq worker_recv_def worker_begin_def worker_respond_def submit_return_def)

text \<open>C21. Jobs are taken in the order in which they were sent, each once: what the workers have taken,
  followed by what waits in the channel, is what was sent; and two workers never hold the same
  job, so at most the configured number of jobs run at a time.\<close>

theorem queue_fifo:
  assumes "job_channel ops items receivers" and "qreach ops runs panics n q"
  shows "q_sent q = q_taken q @ map fst (items (q_chan q)) \<and> distinct (q_sent q)
    \<and> length (q_workers q) = n
    \<and> (\<forall>w<n. \<forall>v<n. \<forall>m m'. held (q_workers q ! w) = Some m \<longrightarrow> held (q_workers q ! v) = Some m' \<longrightarrow>
        w \<noteq> v \<longrightarrow> fst m \<noteq> fst m')"
proof -
  have pool: "shape_ok receivers n q" "order_ok items q" "held_ok q"
    using job_channel.pool_reach [OF assms] by (simp_all add: pool_ok_def)
  then have n: "length (q_workers q) = n" by (simp add: shape_ok_def)
  have "fst m \<noteq> fst m'" if "w < n" "v < n" "held (q_workers q ! w) = Some m" "held (q_workers q ! v) = Some m'" "w \<noteq> v"
    for w v m m'
    using job_channel.held_okD(4) [OF assms(1) pool(3)] that n by blast
  with pool(2) n show ?thesis by (auto simp: order_ok_def fifo_ok_def)
qed

theorem queue_fifo_witness: "q_sent demo_done = [0] \<and> q_taken demo_done = [0]"
  using queue_fifo [OF list_jobs.job_channel_axioms demo_done_reach]
  by (simp add: demo_done_def demo_sent_eq worker_recv_def worker_begin_def worker_respond_def submit_return_def)

text \<open>C17. What a call of \<^verbatim>\<open>submit\<close> returns is an answer of its own job; or ``worker shut down'', and its own
  job panicked; or ``worker pool unavailable'', its job was never sent, and no worker is left.\<close>

theorem submit_returns_own:
  assumes "job_channel ops items receivers" and "qreach ops runs panics n q"
    and "t < length (q_calls q)" and "q_calls q ! t = Returned r"
  shows "runs (q_jobs q ! t) r
    \<or> r = api_error 500 ''worker shut down'' \<and> panics (q_jobs q ! t)
    \<or> r = api_error 500 ''worker pool unavailable'' \<and> receivers (q_chan q) = 0"
proof -
  have "oneshots_ok runs panics q" "returns_ok receivers q"
    using job_channel.pool_reach [OF assms(1,2)] by (simp_all add: pool_ok_def)
  then have "oneshot_ok runs panics (t \<in> set (q_taken q)) (q_jobs q ! t) (q_oneshots q ! t)"
      "call_ok (receivers (q_chan q) = 0) (q_oneshots q ! t) (Returned r)"
    using assms(3,4) by (auto simp: oneshots_ok_def returns_ok_def dest!: spec [of _ t])
  then show ?thesis
    by (cases "q_oneshots q ! t") (auto simp: oneshot_result_def)
qed

theorem submit_returns_own_witness: "\<exists>r. q_calls demo_done ! 0 = Returned r \<and> demo_runs 5 r"
proof -
  have "q_calls demo_done ! 0 = Returned (api_success (JNum 5))" "0 < length (q_calls demo_done)"
      "q_jobs demo_done ! 0 = 5" "snd (q_chan demo_done) = 1"
    by (simp_all add: demo_done_def demo_sent_eq worker_recv_def worker_begin_def worker_respond_def submit_return_def)
  then show ?thesis
    using submit_returns_own [OF list_jobs.job_channel_axioms demo_done_reach, of 0 "api_success (JNum 5)"] by auto
qed

text \<open>No call waits forever: with at least one worker, jobs that end and do not panic, every reachable
  state in which a call waits has a continuation in which it returns an answer of its job.\<close>

theorem submit_returns:
  assumes "job_channel ops items receivers" and "qreach ops runs panics n q" and "0 < n"
    and "\<forall>job. \<exists>r. runs job r" and "\<forall>job. \<not> panics job"
    and "t < length (q_calls q)" and "q_calls q ! t = Awaiting"
  shows "\<exists>q' r. (qstep ops runs panics)\<^sup>*\<^sup>* q q' \<and> q_calls q' ! t = Returned r \<and> runs (q_jobs q ! t) r"
  using job_channel.submit_can_return [OF assms] .

theorem submit_returns_witness:
  "\<exists>q' r. (qstep list_channel demo_runs (\<lambda>j. False))\<^sup>*\<^sup>* demo_sent q' \<and> q_calls q' ! 0 = Returned r \<and> demo_runs 5 r"
  using submit_returns [OF list_jobs.job_channel_axioms demo_sent_reach, of 0]
  by (simp add: demo_sent_eq demo_runs_def)

text \<open>A pool that is started without workers runs nothing: every call that returns has been refused with
  ``worker pool unavailable''.\<close>

theorem no_workers_refuses:
  assumes "job_channel ops items receivers" and "qreach ops runs panics 0 q"
    and "t < length (q_calls q)" and "q_calls q ! t = Returned r"
  shows "r = api_error 500 ''worker pool unavailable'' \<and> q_taken q = []"
proof -
  have "oneshots_ok runs panics q" "returns_ok receivers q"
    using job_channel.pool_reach [OF assms(1,2)] by (simp_all add: pool_ok_def)
  then have "oneshot_ok runs panics (t \<in> set (q_taken q)) (q_jobs q ! t) (q_oneshots q ! t)"
      "call_ok (receivers (q_chan q) = 0) (q_oneshots q ! t) (Returned r)"
    using assms(3,4) by (auto simp: oneshots_ok_def returns_ok_def dest!: spec [of _ t])
  then show ?thesis
    using job_channel.no_workers_taken [OF assms(1,2)]
    by (cases "q_oneshots q ! t") (auto simp: oneshot_result_def)
qed

theorem no_workers_refuses_witness:
  "q_calls (submit_refused 0 (submit_send list_channel 0 (5 :: nat) (submit_count 5 (start list_channel 0)))) ! 0
     = Returned (api_error 500 ''worker pool unavailable'')"
proof -
  let ?s = "qstep list_channel demo_runs (\<lambda>j. False)" and ?q = "start list_channel 0 :: (nat message list \<times> nat, nat) queue"
  let ?a = "submit_count 5 ?q" let ?b = "submit_send list_channel 0 5 ?a" let ?c = "submit_refused 0 ?b"
  have "?s ?q ?a" by (rule qstep.count)
  moreover have "?s ?a ?b" by (rule qstep.send) (simp_all add: submit_count_def start_def)
  moreover have "?s ?b ?c"
    by (rule qstep.refused) (simp_all add: submit_count_def start_def submit_send_def list_channel_def)
  ultimately have "?s\<^sup>*\<^sup>* ?q ?c" by (meson rtranclp.rtrancl_into_rtrancl rtranclp.rtrancl_refl)
  then have reach: "qreach list_channel demo_runs (\<lambda>j. False) 0 ?c" by (simp only: qreach_def)
  have "0 < length (q_calls ?c)" "q_calls ?c ! 0 = Returned (api_error 500 ''worker pool unavailable'')"
    by (simp_all add: submit_count_def start_def submit_send_def list_channel_def submit_refused_def)
  with no_workers_refuses [OF list_jobs.job_channel_axioms reach this] show ?thesis by blast
qed

end
