(* ===== verification/Handlers.thy ===== *)
theory Handlers
  imports Python_Runner Nodejs_Runner Setup Queue
begin

text \<open>
  \<^verbatim>\<open>server/src/middleware.rs\<close> and \<^verbatim>\<open>server/src/handlers.rs\<close>: the check of the API key and the routes.
  A handler runs only if the key is accepted. The conversion of a header to text (\<open>to_str\<close>) and the
  constant-time comparison (\<open>ct_eq\<close>) are third-party code and parameters; what a handler needs from
  its surroundings is collected in the record \<open>services\<close>.
\<close>

section \<open>Model\<close>

record http_response =
  http_status :: nat
  http_body :: json

definition http_ok :: "json \<Rightarrow> http_response" where
  "http_ok body = \<lparr>http_status = 200, http_body = body\<rparr>"

subsection \<open>The API key\<close>

text \<open>\<^verbatim>\<open>ApiKey::from_request\<close>; \<open>header\<close> is the value of \<^verbatim>\<open>X-Api-Key\<close>, if there is one.\<close>

definition api_key_from_request ::
  "(bytes \<Rightarrow> string option) \<Rightarrow> (bytes \<Rightarrow> bytes \<Rightarrow> bool) \<Rightarrow> config \<Rightarrow> bytes option \<Rightarrow> (string, http_response) result" where
  "api_key_from_request to_str ct_eq config header =
     (let refused = Inl \<lparr>http_status = 401, http_body = json_of_api_response (api_error 401 ''Invalid API key'')\<rparr> in
      case Option.bind header to_str of
        Some val \<Rightarrow>
          if ct_eq (str_bytes val) (str_bytes (app_key (cfg_app config))) then Inr val else refused
      | None \<Rightarrow> refused)"

subsection \<open>The routes\<close>

definition health :: "('c, 'j) queue \<Rightarrow> http_response" where
  "health q =
     http_ok (JObj [(''ok'', JBool True), (''role'', JStr ''sandbox''),
       (''queue_depth'', JNum (uint (queue_depth q))), (''workers'', JNum (int (stat_workers q)))])"

text \<open>The body shared by \<^verbatim>\<open>run_python\<close> and \<^verbatim>\<open>run_nodejs\<close>: what a finished execution is answered with.\<close>

definition response_of_run :: "(execution_result, string) result \<Rightarrow> api_response" where
  "response_of_run r =
     (case r of
        Inr result \<Rightarrow>
          if is_seccomp_violation (ex_exit_code result) then api_error 31 ''sandbox security policy violation''
          else if ex_stderr result \<noteq> [] \<and> ex_exit_code result \<noteq> 0 then api_error 500 (ex_stderr result)
          else api_success (json_of_run_code_data \<lparr>rcd_stdout = ex_stdout result, rcd_stderr = ex_stderr result\<rparr>)
      | Inl e \<Rightarrow> api_error 500 e)"

record services =
  sv_base64 :: base64_ops
  sv_rng :: "bytes \<Rightarrow> bytes"
  sv_json_paths :: "string list \<Rightarrow> string"
  sv_env :: environment
  sv_os :: os
  sv_zygote :: "zygote_handle option"

definition handle_python :: "services \<Rightarrow> config \<Rightarrow> run_code_request \<Rightarrow> api_response option" where
  "handle_python sv config req =
     map_option response_of_run
       (fst (python_run (sv_base64 sv) (sv_rng sv) (sv_json_paths sv) (sv_env sv) (sv_os sv) (sv_zygote sv) config
          (req_code req) (req_preload req) (req_options req)))"

definition handle_nodejs :: "services \<Rightarrow> config \<Rightarrow> run_code_request \<Rightarrow> api_response" where
  "handle_nodejs sv config req =
     response_of_run
       (nodejs_run (sv_base64 sv) (sv_env sv) (sv_os sv) config (req_code req) (req_preload req) (req_options req))"

text \<open>The job that \<^verbatim>\<open>run_code\<close> submits to the queue; \<open>None\<close> is a panic.\<close>

definition run_code_job :: "services \<Rightarrow> config \<Rightarrow> run_code_request \<Rightarrow> api_response option" where
  "run_code_job sv config req =
     (if req_language req = ''python3'' then handle_python sv config req
      else if req_language req = ''javascript'' then Some (handle_nodejs sv config req)
      else Some (api_error 400 ''unsupported language''))"

text \<open>\<^verbatim>\<open>run_code\<close>: the job is submitted if the key is accepted; the answer of the queue is sent with status 200.\<close>

definition run_code ::
  "(bytes \<Rightarrow> string option) \<Rightarrow> (bytes \<Rightarrow> bytes \<Rightarrow> bool) \<Rightarrow> config \<Rightarrow> bytes option \<Rightarrow> run_code_request
     \<Rightarrow> (run_code_request, http_response) result" where
  "run_code to_str ct_eq config header req =
     and_then (api_key_from_request to_str ct_eq config header) (\<lambda>key. Inr req)"

definition run_code_reply :: "api_response \<Rightarrow> http_response" where
  "run_code_reply result = http_ok (json_of_api_response result)"

text \<open>The reply, and the commands that were run for it.\<close>

definition get_dependencies ::
  "(bytes \<Rightarrow> string option) \<Rightarrow> (bytes \<Rightarrow> bytes \<Rightarrow> bool) \<Rightarrow> os \<Rightarrow> config \<Rightarrow> bytes option
     \<Rightarrow> (string, string) table \<Rightarrow> http_response \<times> command list" where
  "get_dependencies to_str ct_eq os config header query =
     (case api_key_from_request to_str ct_eq config header of
        Inl refused \<Rightarrow> (refused, [])
      | Inr key \<Rightarrow>
          if map_of query ''language'' = Some ''python3'' then
            (http_ok (json_of_api_response (api_success (JObj [(''dependencies'',
              JArr (map (\<lambda>p. json_of_dependency \<lparr>dep_name = pkg_name p, dep_version = pkg_version p\<rparr>)
                (list_python_packages os config)))]))), [pip_list_command config])
          else (http_ok (json_of_api_response (api_error 400 ''unsupported language'')), []))"

definition update_dependencies ::
  "(bytes \<Rightarrow> string option) \<Rightarrow> (bytes \<Rightarrow> bytes \<Rightarrow> bool) \<Rightarrow> (string \<Rightarrow> (string, 'e) result) \<Rightarrow> os \<Rightarrow> config
     \<Rightarrow> bytes option \<Rightarrow> update_dependency_request \<Rightarrow> http_response \<times> command list" where
  "update_dependencies to_str ct_eq read os config header req =
     (case api_key_from_request to_str ct_eq config header of
        Inl refused \<Rightarrow> (refused, [])
      | Inr key \<Rightarrow>
          if upd_language req = ''python3'' then
            (case install_python_dependencies read os config of
               (Inr u, cmds) \<Rightarrow> (http_ok (json_of_api_response (api_success (JObj [(''success'', JBool True)]))), cmds)
             | (Inl e, cmds) \<Rightarrow> (http_ok (json_of_api_response (api_error 500 e)), cmds))
          else (http_ok (json_of_api_response (api_error 400 ''unsupported language'')), []))"

section \<open>The comparison\<close>

text \<open>\<^verbatim>\<open>subtle::ConstantTimeEq\<close> decides equality of byte slices.\<close>

locale constant_time_eq =
  fixes ct_eq :: "bytes \<Rightarrow> bytes \<Rightarrow> bool"
  assumes ct_eq_iff: "ct_eq a b \<longleftrightarrow> a = b"
begin

lemma key_accepted_iff:
  "api_key_from_request to_str ct_eq config header = Inr val \<longleftrightarrow>
     Option.bind header to_str = Some val \<and> val = app_key (cfg_app config)"
  by (auto simp: api_key_from_request_def Let_def ct_eq_iff split: option.splits)

lemma key_refused:
  "Option.bind header to_str \<noteq> Some (app_key (cfg_app config)) \<Longrightarrow>
     api_key_from_request to_str ct_eq config header =
       Inl \<lparr>http_status = 401, http_body = json_of_api_response (api_error 401 ''Invalid API key'')\<rparr>"
  by (auto simp: api_key_from_request_def Let_def ct_eq_iff split: option.split)

end

text \<open>The comparison of the crate, as it is documented: lengths first, then the disjunction of all bitwise
  differences.\<close>

definition slice_ct_eq :: "bytes \<Rightarrow> bytes \<Rightarrow> bool" where
  "slice_ct_eq a b =
     (length a = length b \<and> foldr (OR) (map (\<lambda>(x, y). x XOR y) (zip a b)) 0 = 0)"

lemma xor_eq_zero: "(a XOR b) = 0 \<longleftrightarrow> a = (b :: u8)"
  by (metis xor.left_neutral xor.right_neutral xor.assoc xor_self_eq)

lemma slice_ct_eq_iff: "slice_ct_eq a b \<longleftrightarrow> a = b"
proof -
  have "foldr (OR) (map (\<lambda>(x, y). x XOR y) (zip a b)) 0 = 0 \<longleftrightarrow> a = b" if "length a = length b"
    using that by (induction a b rule: list_induct2) (simp_all add: or_eq_0_iff xor_eq_zero)
  then show ?thesis by (auto simp: slice_ct_eq_def)
qed

interpretation slices: constant_time_eq slice_ct_eq
  by unfold_locales (rule slice_ct_eq_iff)

section \<open>Facts\<close>

lemma response_cases:
  "response_of_run (Inl e) = api_error 500 e"
  "is_seccomp_violation (ex_exit_code x) \<Longrightarrow> response_of_run (Inr x) = api_error 31 ''sandbox security policy violation''"
  "\<not> is_seccomp_violation (ex_exit_code x) \<Longrightarrow> ex_stderr x \<noteq> [] \<Longrightarrow> ex_exit_code x \<noteq> 0 \<Longrightarrow>
     response_of_run (Inr x) = api_error 500 (ex_stderr x)"
  "\<not> is_seccomp_violation (ex_exit_code x) \<Longrightarrow> ex_stderr x = [] \<or> ex_exit_code x = 0 \<Longrightarrow>
     response_of_run (Inr x) =
       api_success (json_of_run_code_data \<lparr>rcd_stdout = ex_stdout x, rcd_stderr = ex_stderr x\<rparr>)"
  by (simp_all add: response_of_run_def)

lemma response_code_range: "resp_code (response_of_run r) \<in> {0, 31, 500}"
  by (simp add: response_of_run_def split: sum.split)

lemma handle_python_total:
  assumes "\<And>b. length (sv_rng sv b) = length b"
  shows "\<exists>r. handle_python sv config req = Some (response_of_run r)"
proof -
  have k: "generate_key (sv_rng sv) 64 \<noteq> []" by (rule python_key_nonempty) (rule assms)
  have "python_slow (sv_base64 sv) (sv_rng sv) jp env os config code preload options \<noteq> None" for jp env os code preload options
    by (simp add: python_slow_def python_build_script_def Let_def encrypt_code_defined [OF k])
  moreover have "python_fast (sv_base64 sv) (sv_rng sv) run config code options \<noteq> None" for run code options
    by (simp add: python_fast_def Let_def encrypt_code_defined [OF k] split: prod.split)
  ultimately have "fst (python_run (sv_base64 sv) (sv_rng sv) jp env os z config c p options) \<noteq> None" for jp env os z c p options
    by (simp add: python_run_def Let_def split: sum.split option.split prod.split)
  then obtain r where "fst (python_run (sv_base64 sv) (sv_rng sv) (sv_json_paths sv) (sv_env sv) (sv_os sv)
      (sv_zygote sv) config (req_code req) (req_preload req) (req_options req)) = Some r" by blast
  then show ?thesis by (intro exI [of _ r]) (simp add: handle_python_def)
qed

lemma run_code_job_answers:
  assumes "\<And>b. length (sv_rng sv b) = length b"
  shows "\<exists>r. run_code_job sv config req = Some r
    \<and> resp_code r \<in> (if req_language req \<in> {''python3'', ''javascript''} then {0, 31, 500} else {400})"
  using handle_python_total [OF assms, of config req] response_code_range
  by (auto simp: run_code_job_def handle_nodejs_def)

section \<open>Properties\<close>

text \<open>A request reaches the queue exactly when its \<^verbatim>\<open>X-Api-Key\<close> header is readable and equal to the
  configured key; every other request is answered with status 401 and ``Invalid API key'', on all
  three protected routes, and runs nothing.\<close>

theorem api_key_required:
  assumes "constant_time_eq ct_eq"
  shows "(run_code to_str ct_eq config header req = Inr req \<longleftrightarrow> Option.bind header to_str = Some (app_key (cfg_app config)))
    \<and> (Option.bind header to_str \<noteq> Some (app_key (cfg_app config)) \<longrightarrow>
        (let refused = \<lparr>http_status = 401, http_body = json_of_api_response (api_error 401 ''Invalid API key'')\<rparr> in
         run_code to_str ct_eq config header req = Inl refused
         \<and> get_dependencies to_str ct_eq os config header query = (refused, [])
         \<and> update_dependencies to_str ct_eq read os config header upd = (refused, [])))"
proof (cases "Option.bind header to_str = Some (app_key (cfg_app config))")
  case True
  then have "api_key_from_request to_str ct_eq config header = Inr (app_key (cfg_app config))"
    using constant_time_eq.key_accepted_iff [OF assms] by blast
  with True show ?thesis by (simp add: run_code_def)
next
  case False
  from constant_time_eq.key_refused [OF assms this] False show ?thesis
    by (simp add: run_code_def get_dependencies_def update_dependencies_def Let_def)
qed

theorem api_key_required_witness:
  "\<forall>req. run_code (\<lambda>b. Some (bytes_str b)) slice_ct_eq (config_of_raw shipped_config) (Some (str_bytes ''sandbox'')) req = Inr req"
proof
  fix req
  have "app_key (cfg_app (config_of_raw shipped_config)) = ''sandbox''"
    by (simp add: config_of_raw_def app_of_raw_def shipped_config_def)
  then show "run_code (\<lambda>b. Some (bytes_str b)) slice_ct_eq (config_of_raw shipped_config) (Some (str_bytes ''sandbox'')) req = Inr req"
    using api_key_required [OF slices.constant_time_eq_axioms, of "\<lambda>b. Some (bytes_str b)" "config_of_raw shipped_config"
        "Some (str_bytes ''sandbox'')" req] by simp
qed

text \<open>C24. What the outcome of the child process is answered with, on both runners: a process killed by
  SIGSYS (or exiting with 159) gives code 31; one that exits otherwise with a code other than zero
  and has written to its standard error gives code 500 with that text; every other process that
  ended gives code 0 with its output; and a process that could not be run to its end gives code 500
  with the reason, a timeout ``Execution timeout''.\<close>

theorem child_outcome_answer:
  assumes "cmd_stdout_piped cmd" and "cmd_stderr_piped cmd"
  shows "response_of_run (run_child os name cmd script limit) =
    (case os cmd script (Some limit) of
       Spawn_failed e \<Rightarrow> api_error 500 (''spawn '' @ name @ '': '' @ e)
     | Stdin_failed e \<Rightarrow> api_error 500 (''stdin write: '' @ e)
     | Timed_out \<Rightarrow> api_error 500 ''Execution timeout''
     | Wait_failed e \<Rightarrow> api_error 500 (''process: '' @ e)
     | Exited out err status \<Rightarrow>
         if status_signal status = Some 31 \<or> status_code status = Some 159
         then api_error 31 ''sandbox security policy violation''
         else if err \<noteq> [] \<and> exit_code_from_status status \<noteq> 0 then api_error 500 (bytes_str (from_utf8_lossy err))
         else api_success (json_of_run_code_data
                \<lparr>rcd_stdout = bytes_str (from_utf8_lossy out), rcd_stderr = bytes_str (from_utf8_lossy err)\<rparr>))"
  using assms
  by (simp add: run_child_def response_of_run_def captured_def seccomp_verdict_iff split: outcome.split)

theorem child_outcome_answer_witness:
  "response_of_run (run_child (\<lambda>c s t. Timed_out) ''python''
     (python_command (\<lambda>v. None) (config_of_raw shipped_config) ''key'') [] 15) = api_error 500 ''Execution timeout''"
proof -
  have "cmd_stdout_piped (python_command (\<lambda>v. None) (config_of_raw shipped_config) ''key'')"
      "cmd_stderr_piped (python_command (\<lambda>v. None) (config_of_raw shipped_config) ''key'')"
    by (simp_all add: python_command_def command_defs)
  from child_outcome_answer [OF this] show ?thesis by simp
qed

text \<open>A process that was killed, by any signal but SIGSYS, before it wrote to its standard error is
  reported as a success.\<close>

theorem silent_kill_reported_as_success:
  assumes "status_signal (ex_status :: i32) = Some s" and "s \<noteq> 31"
    and "os cmd script (Some limit) = Exited out [] ex_status" and "cmd_stdout_piped cmd"
  shows "resp_code (response_of_run (run_child os name cmd script limit)) = 0"
proof -
  have "\<not> is_seccomp_violation (exit_code_from_status ex_status)"
    using assms(1,2) status_signal_code [OF assms(1)] by (simp add: seccomp_verdict_iff)
  with assms(3) show ?thesis
    by (simp add: run_child_def response_of_run_def captured_def)
qed

theorem silent_kill_reported_as_success_witness:
  "resp_code (response_of_run (run_child (\<lambda>c s t. Exited [] [] 9) ''python''
     (python_command (\<lambda>v. None) (config_of_raw shipped_config) ''key'') [] 15)) = 0"
proof -
  have "status_signal 9 = Some 9" by (simp add: status_signal_def)
  moreover have "cmd_stdout_piped (python_command (\<lambda>v. None) (config_of_raw shipped_config) ''key'')"
    by (simp add: python_command_def command_defs)
  ultimately show ?thesis by (intro silent_kill_reported_as_success [of 9 9]) simp_all
qed

text \<open>Every job answers: given a random generator that fills its buffer, a job never panics, whatever the
  request, the configuration, the operating system and the zygote do; and the code of its answer is
  0, 31, 500, or 400 for a language that is not supported.\<close>

theorem run_code_job_total:
  assumes "\<And>b. length (sv_rng sv b) = length b"
  shows "\<exists>r. run_code_job sv config req = Some r
    \<and> resp_code r \<in> (if req_language req \<in> {''python3'', ''javascript''} then {0, 31, 500} else {400})"
  using assms by (rule run_code_job_answers)

theorem run_code_job_total_witness:
  "\<forall>sv config. (\<exists>r. run_code_job (sv\<lparr>sv_rng := map (\<lambda>b. 7)\<rparr>) config
     \<lparr>req_language = ''ruby'', req_code = [], req_preload = [], req_options = default_runner_options\<rparr> = Some r \<and> resp_code r = 400)"
proof (intro allI)
  fix sv :: services and config
  show "\<exists>r. run_code_job (sv\<lparr>sv_rng := map (\<lambda>b. 7)\<rparr>) config
     \<lparr>req_language = ''ruby'', req_code = [], req_preload = [], req_options = default_runner_options\<rparr> = Some r \<and> resp_code r = 400"
    using run_code_job_total [of "sv\<lparr>sv_rng := map (\<lambda>b. 7)\<rparr>" config
      "\<lparr>req_language = ''ruby'', req_code = [], req_preload = [], req_options = default_runner_options\<rparr>"] by simp
qed

end
