(* ===== verification/Restart.thy ===== *)
theory Restart
  imports Prelude
begin

text \<open>
  \<^verbatim>\<open>server/src/main.rs\<close>: the global zygote manager and its restart. Requests that find the manager dead
  ask for a restart; an atomic flag admits one restart task at a time. A task checks the manager,
  builds a new one without holding the lock, and swaps it in under the write lock. Tasks, requests
  and the death of managers interleave: each atomic action is a step. A manager is known by a
  number; \<open>g_running\<close> lists the managers whose process runs.
\<close>

section \<open>Model\<close>

type_synonym manager = nat

text \<open>Where a task of \<^verbatim>\<open>request_zygote_restart\<close> stands: before the first check, before the new manager is
  built, before the swap (with the new manager), before \<^verbatim>\<open>end_restart\<close>.\<close>

datatype task = Checking | Building | Swapping manager | Ending

record gate =
  g_zygote :: "manager option"
  g_restarting :: bool
  g_tasks :: "task list"
  g_running :: "manager list"
  g_next :: manager

definition manager_running :: "gate \<Rightarrow> manager \<Rightarrow> bool" where
  "manager_running g m = (m \<in> set (g_running g))"

definition get_zygote :: "gate \<Rightarrow> manager option" where
  "get_zygote g = g_zygote g"

text \<open>\<^verbatim>\<open>compare_exchange(false, true)\<close>: whether it succeeded, and the new state.\<close>

definition try_begin_restart :: "gate \<Rightarrow> bool \<times> gate" where
  "try_begin_restart g = (if g_restarting g then (False, g) else (True, g\<lparr>g_restarting := True\<rparr>))"

definition end_restart :: "gate \<Rightarrow> gate" where
  "end_restart g = g\<lparr>g_restarting := False\<rparr>"

definition request_zygote_restart :: "gate \<Rightarrow> gate" where
  "request_zygote_restart g =
     (case try_begin_restart g of
        (ok, g') \<Rightarrow> if ok then g'\<lparr>g_tasks := g_tasks g' @ [Checking]\<rparr> else g')"

text \<open>The installed manager, if it is running.\<close>

definition zygote_up :: "gate \<Rightarrow> bool" where
  "zygote_up g = (case get_zygote g of None \<Rightarrow> False | Some z \<Rightarrow> manager_running g z)"

subsection \<open>\<^verbatim>\<open>try_restart_zygote\<close>, step by step\<close>

definition restart_check :: "nat \<Rightarrow> gate \<Rightarrow> gate" where
  "restart_check i g = g\<lparr>g_tasks := (g_tasks g)[i := if zygote_up g then Ending else Building]\<rparr>"

text \<open>\<^verbatim>\<open>ZygoteManager::new\<close> gives a new running manager or fails.\<close>

definition restart_build :: "nat \<Rightarrow> bool \<Rightarrow> gate \<Rightarrow> gate" where
  "restart_build i ok g =
     (if ok then g\<lparr>g_tasks := (g_tasks g)[i := Swapping (g_next g)],
                   g_running := g_next g # g_running g, g_next := Suc (g_next g)\<rparr>
      else g\<lparr>g_tasks := (g_tasks g)[i := Ending]\<rparr>)"

text \<open>Under the write lock; if a live manager is installed the new one is dropped, which kills its process.\<close>

definition restart_swap :: "nat \<Rightarrow> manager \<Rightarrow> gate \<Rightarrow> gate" where
  "restart_swap i new_z g =
     (if zygote_up g then g\<lparr>g_tasks := (g_tasks g)[i := Ending], g_running := removeAll new_z (g_running g)\<rparr>
      else g\<lparr>g_tasks := (g_tasks g)[i := Ending], g_zygote := Some new_z\<rparr>)"

definition restart_end :: "nat \<Rightarrow> gate \<Rightarrow> gate" where
  "restart_end i g = end_restart (g\<lparr>g_tasks := take i (g_tasks g) @ drop (Suc i) (g_tasks g)\<rparr>)"

text \<open>The connection to a manager's process is lost.\<close>

definition manager_dies :: "manager \<Rightarrow> gate \<Rightarrow> gate" where
  "manager_dies m g = g\<lparr>g_running := removeAll m (g_running g)\<rparr>"

text \<open>Startup: with \<^verbatim>\<open>python_zygote\<close> set, \<^verbatim>\<open>main\<close> installs a manager if one can be built.\<close>

definition gate_start :: "bool \<Rightarrow> bool \<Rightarrow> gate" where
  "gate_start enabled ok =
     (if enabled \<and> ok then \<lparr>g_zygote = Some 0, g_restarting = False, g_tasks = [], g_running = [0], g_next = 1\<rparr>
      else \<lparr>g_zygote = None, g_restarting = False, g_tasks = [], g_running = [], g_next = 0\<rparr>)"

inductive gstep :: "gate \<Rightarrow> gate \<Rightarrow> bool" where
    request: "gstep g (request_zygote_restart g)"
  | check: "i < length (g_tasks g) \<Longrightarrow> g_tasks g ! i = Checking \<Longrightarrow> gstep g (restart_check i g)"
  | build: "i < length (g_tasks g) \<Longrightarrow> g_tasks g ! i = Building \<Longrightarrow> gstep g (restart_build i ok g)"
  | swap: "i < length (g_tasks g) \<Longrightarrow> g_tasks g ! i = Swapping m \<Longrightarrow> gstep g (restart_swap i m g)"
  | finish: "i < length (g_tasks g) \<Longrightarrow> g_tasks g ! i = Ending \<Longrightarrow> gstep g (restart_end i g)"
  | dies: "gstep g (manager_dies m g)"

definition greach :: "bool \<Rightarrow> bool \<Rightarrow> gate \<Rightarrow> bool" where
  "greach enabled ok g = gstep\<^sup>*\<^sup>* (gate_start enabled ok) g"

inductive_cases gstep_E: "gstep g g'"

lemmas gate_op_defs =
  request_zygote_restart_def try_begin_restart_def end_restart_def restart_check_def restart_build_def
  restart_swap_def restart_end_def manager_dies_def

section \<open>Invariants\<close>

text \<open>One task if the flag is set, none otherwise; every running manager is installed or about to be swapped in.\<close>

definition single_flight :: "gate \<Rightarrow> bool" where
  "single_flight g \<longleftrightarrow> (if g_restarting g then \<exists>t. g_tasks g = [t] else g_tasks g = [])"

definition accounted :: "gate \<Rightarrow> bool" where
  "accounted g \<longleftrightarrow> (\<forall>m\<in>set (g_running g). g_zygote g = Some m \<or> Swapping m \<in> set (g_tasks g))"

definition fresh_ids :: "gate \<Rightarrow> bool" where
  "fresh_ids g \<longleftrightarrow> (\<forall>m\<in>set (g_running g). m < g_next g) \<and> (\<forall>m. g_zygote g = Some m \<longrightarrow> m < g_next g)
     \<and> (\<forall>m. Swapping m \<in> set (g_tasks g) \<longrightarrow> m < g_next g \<and> g_zygote g \<noteq> Some m)"

lemma single_flight_step: "gstep g g' \<Longrightarrow> single_flight g \<Longrightarrow> single_flight g'"
  by (erule gstep_E) (auto simp: single_flight_def gate_op_defs split: if_splits)

lemma fresh_step: "gstep g g' \<Longrightarrow> single_flight g \<Longrightarrow> fresh_ids g \<Longrightarrow> fresh_ids g'"
  by (erule gstep_E) (auto simp: fresh_ids_def single_flight_def gate_op_defs split: if_splits)

lemma accounted_step: "gstep g g' \<Longrightarrow> single_flight g \<Longrightarrow> accounted g \<Longrightarrow> accounted g'"
  by (erule gstep_E)
    (auto simp: accounted_def single_flight_def gate_op_defs zygote_up_def get_zygote_def manager_running_def
      split: if_splits option.splits)

lemma gate_reach:
  assumes "greach enabled ok g"
  shows "single_flight g" "accounted g" "fresh_ids g"
proof -
  have "single_flight g \<and> accounted g \<and> fresh_ids g"
    using assms unfolding greach_def
  proof (induction rule: rtranclp_induct)
    case base
    show ?case by (simp add: gate_start_def single_flight_def accounted_def fresh_ids_def)
  next
    case (step y z)
    then show ?case using single_flight_step fresh_step accounted_step by blast
  qed
  then show "single_flight g" "accounted g" "fresh_ids g" by auto
qed

section \<open>Progress\<close>

lemma task_ends:
  assumes "g_tasks g = [t]"
  shows "\<exists>g'. gstep\<^sup>*\<^sup>* g g' \<and> g_tasks g' = [] \<and> \<not> g_restarting g'"
proof -
  have ending: "\<exists>g'. gstep\<^sup>*\<^sup>* g g' \<and> g_tasks g' = [] \<and> \<not> g_restarting g'" if "g_tasks g = [Ending]" for g
    using gstep.finish [of 0 g] that by (intro exI [of _ "restart_end 0 g"]) (auto simp: restart_end_def end_restart_def)
  have building: "\<exists>g'. gstep\<^sup>*\<^sup>* g g' \<and> g_tasks g' = [] \<and> \<not> g_restarting g'" if "g_tasks g = [Building]" for g
  proof -
    have "gstep g (restart_build 0 False g)" using that by (intro gstep.build) simp_all
    moreover have "g_tasks (restart_build 0 False g) = [Ending]" using that by (simp add: restart_build_def)
    ultimately show ?thesis using ending converse_rtranclp_into_rtranclp by metis
  qed
  show ?thesis
  proof (cases t)
    case Checking
    have "gstep g (restart_check 0 g)" using assms Checking by (intro gstep.check) simp_all
    moreover have "g_tasks (restart_check 0 g) = [Ending] \<or> g_tasks (restart_check 0 g) = [Building]"
      using assms by (simp add: restart_check_def)
    ultimately show ?thesis using ending building converse_rtranclp_into_rtranclp by metis
  next
    case (Swapping m)
    have "gstep g (restart_swap 0 m g)" using assms Swapping by (intro gstep.swap) simp_all
    moreover have "g_tasks (restart_swap 0 m g) = [Ending]" using assms by (simp add: restart_swap_def)
    ultimately show ?thesis using ending converse_rtranclp_into_rtranclp by metis
  qed (use assms ending building in auto)
qed

lemma restart_from_open:
  assumes "g_tasks g = []" and "\<not> g_restarting g" and "\<not> zygote_up g" and "fresh_ids g"
  shows "\<exists>g'. gstep\<^sup>*\<^sup>* g g' \<and> g_tasks g' = [] \<and> \<not> g_restarting g' \<and> zygote_up g'"
proof -
  let ?a = "request_zygote_restart g" let ?b = "restart_check 0 ?a"
  let ?c = "restart_build 0 True ?b" let ?d = "restart_swap 0 (g_next g) ?c" let ?e = "restart_end 0 ?d"
  have a: "g_tasks ?a = [Checking]" "g_next ?a = g_next g" "\<not> zygote_up ?a" "g_zygote ?a = g_zygote g"
      "g_running ?a = g_running g"
    using assms
    by (simp_all add: request_zygote_restart_def try_begin_restart_def zygote_up_def get_zygote_def manager_running_def
        split: option.splits)
  have b: "g_tasks ?b = [Building]" "g_next ?b = g_next g" "g_zygote ?b = g_zygote g" "g_running ?b = g_running g"
    using a by (simp_all add: restart_check_def)
  have c: "g_tasks ?c = [Swapping (g_next g)]" "g_running ?c = g_next g # g_running g"
    using b by (simp_all add: restart_build_def)
  have d: "g_tasks ?d = [Ending]" using c by (simp add: restart_swap_def)
  have up: "zygote_up ?d"
  proof (cases "zygote_up ?c")
    case True
    then obtain z where z: "g_zygote g = Some z" "z \<in> set (g_next g # g_running g)"
      using b c by (auto simp: zygote_up_def get_zygote_def manager_running_def restart_build_def split: option.splits)
    moreover have "z \<notin> set (g_running g)"
      using assms(3) z(1) by (simp add: zygote_up_def get_zygote_def manager_running_def)
    ultimately have "z = g_next g" by simp
    with z(1) assms(4) show ?thesis by (simp add: fresh_ids_def)
  next
    case False
    then show ?thesis
      using c by (simp add: restart_swap_def zygote_up_def get_zygote_def manager_running_def)
  qed
  have "gstep g ?a" by (rule gstep.request)
  moreover have "gstep ?a ?b" using a by (intro gstep.check) simp_all
  moreover have "gstep ?b ?c" using b by (intro gstep.build) simp_all
  moreover have "gstep ?c ?d" using c by (intro gstep.swap) simp_all
  moreover have "gstep ?d ?e" using d by (intro gstep.finish) simp_all
  ultimately have "gstep\<^sup>*\<^sup>* g ?e" by (meson rtranclp.rtrancl_into_rtrancl rtranclp.rtrancl_refl)
  moreover have "g_tasks ?e = []" "\<not> g_restarting ?e" "zygote_up ?e"
    using d up by (simp_all add: restart_end_def end_restart_def zygote_up_def get_zygote_def manager_running_def
        split: option.splits)
  ultimately show ?thesis by blast
qed

section \<open>Properties\<close>

text \<open>C19. Restarts are single-flight: in every reachable state at most one restart task exists, the flag is set
  exactly while it does, and a request is admitted exactly when none does.\<close>

theorem restart_single_flight:
  assumes "greach enabled ok g"
  shows "length (g_tasks g) \<le> 1 \<and> (g_restarting g \<longleftrightarrow> g_tasks g \<noteq> []) \<and> (fst (try_begin_restart g) \<longleftrightarrow> g_tasks g = [])
    \<and> g_tasks (request_zygote_restart g) = (if g_tasks g = [] then [Checking] else g_tasks g)"
  using gate_reach(1) [OF assms]
  by (auto simp: single_flight_def try_begin_restart_def request_zygote_restart_def split: if_splits)

theorem restart_single_flight_witness:
  "g_tasks (request_zygote_restart (request_zygote_restart (gate_start True True))) = [Checking]"
proof -
  have "greach True True (request_zygote_restart (gate_start True True))"
    unfolding greach_def by (intro r_into_rtranclp gstep.request)
  from restart_single_flight [OF this] show ?thesis
    by (simp add: request_zygote_restart_def try_begin_restart_def gate_start_def)
qed

text \<open>C25. No interpreter is leaked: every manager that is running is the installed one or the one that the
  restart task is about to swap in. While no restart is under way only the installed one can be
  running.\<close>

theorem no_zygote_leaked:
  assumes "greach enabled ok g"
  shows "(\<forall>m. manager_running g m \<longrightarrow> get_zygote g = Some m \<or> Swapping m \<in> set (g_tasks g))
    \<and> (\<not> g_restarting g \<longrightarrow> (\<forall>m. manager_running g m \<longrightarrow> get_zygote g = Some m))"
  using gate_reach(1,2) [OF assms]
  by (auto simp: accounted_def single_flight_def manager_running_def get_zygote_def split: if_splits)

theorem no_zygote_leaked_witness: "{m. manager_running (gate_start True True) m} \<subseteq> {0}"
proof -
  have "greach True True (gate_start True True)" by (simp add: greach_def)
  from no_zygote_leaked [OF this] show ?thesis by (auto simp: gate_start_def get_zygote_def)
qed

text \<open>A live manager is never replaced: a step from a reachable state in which the installed manager runs
  leaves it installed, and it keeps running unless the step is its own death.\<close>

theorem live_zygote_kept:
  assumes "greach enabled ok g" and "gstep g g'" and "get_zygote g = Some m" and "manager_running g m"
  shows "get_zygote g' = Some m \<and> (manager_running g' m \<or> g' = manager_dies m g)"
  using assms(2)
proof (rule gstep_E)
  fix i m' assume s: "g' = restart_swap i m' g" "i < length (g_tasks g)" "g_tasks g ! i = Swapping m'"
  then have "Swapping m' \<in> set (g_tasks g)" by (metis nth_mem)
  then have "m' \<noteq> m"
    using gate_reach(3) [OF assms(1)] assms(3) by (auto simp: fresh_ids_def get_zygote_def)
  with s assms(3,4) show ?thesis
    by (auto simp: restart_swap_def zygote_up_def get_zygote_def manager_running_def)
qed (use assms(3,4) in \<open>auto simp: gate_op_defs get_zygote_def manager_running_def split: if_splits\<close>)

theorem live_zygote_kept_witness:
  "get_zygote (request_zygote_restart (gate_start True True)) = Some 0"
proof -
  have "greach True True (gate_start True True)" by (simp add: greach_def)
  moreover have "get_zygote (gate_start True True) = Some 0" "manager_running (gate_start True True) 0"
    by (simp_all add: gate_start_def get_zygote_def manager_running_def)
  ultimately show ?thesis using live_zygote_kept [OF _ gstep.request] by blast
qed



end
