(* ===== verification/Zygote_Start.thy ===== *)
theory Zygote_Start
  imports Process Zygote_Run
begin

text \<open>
  \<^verbatim>\<open>ZygoteManager::new\<close> of \<^verbatim>\<open>server/src/services/zygote.rs\<close>: the socket pair, the worker process, and
  what each failure leaves behind. The descriptors of the server are a table that says of each
  whether it is closed on \<^verbatim>\<open>exec\<close>; a process starts with a copy of those that are not. What the
  system calls answer is the parameter \<open>start_calls\<close>.
\<close>

section \<open>Model\<close>

type_synonym fd = nat

record server_proc =
  sp_fds :: "(fd, bool) table"
  sp_children :: "(command \<times> fd list) list"

text \<open>What the calls answer: the two descriptors of the pair, whether the process could be spawned, whether
  the socket could be made non-blocking and handed to the runtime.\<close>

record start_calls =
  sc_pair :: "(fd \<times> fd, string) result"
  sc_spawn :: "command \<Rightarrow> (unit, string) result"
  sc_nonblocking :: "(unit, string) result"
  sc_from_std :: "(unit, string) result"

definition open_fds :: "server_proc \<Rightarrow> fd list" where
  "open_fds s = map fst (sp_fds s)"

text \<open>The descriptors a process starts with when it is spawned now.\<close>

definition inherited :: "server_proc \<Rightarrow> fd list" where
  "inherited s = map fst (filter (\<lambda>(fd, cloexec). \<not> cloexec) (sp_fds s))"

definition close_fd :: "fd \<Rightarrow> server_proc \<Rightarrow> server_proc" where
  "close_fd fd s = s\<lparr>sp_fds := filter (\<lambda>e. fst e \<noteq> fd) (sp_fds s)\<rparr>"

text \<open>\<^verbatim>\<open>socketpair(AF_UNIX, SOCK_STREAM, 0)\<close>: no \<^verbatim>\<open>SOCK_CLOEXEC\<close>, so both ends are inherited.\<close>

definition socketpair :: "start_calls \<Rightarrow> server_proc \<Rightarrow> (fd \<times> fd, string) result \<times> server_proc" where
  "socketpair sc s =
     (case sc_pair sc of
        Inl e \<Rightarrow> (Inl e, s)
      | Inr (a, b) \<Rightarrow> (Inr (a, b), s\<lparr>sp_fds := (a, False) # (b, False) # sp_fds s\<rparr>))"

definition worker_command ::
  "environment \<Rightarrow> string \<Rightarrow> string \<Rightarrow> string \<Rightarrow> string list \<Rightarrow> proxy_config \<Rightarrow> fd \<Rightarrow> command" where
  "worker_command env python_path lib_so lib_dir warm_modules proxy worker_fd =
     stdin_null (in_dir LIB_PATH
       (with_args [''-B'', ''pool/zygote_worker.py'', nat_digits worker_fd, lib_so, lib_dir, str_join '','' warm_modules]
         (with_envs (proxy_env_vars proxy) (pass_path env (env_clear (command_new python_path))))))"

definition zygote_new ::
  "start_calls \<Rightarrow> environment \<Rightarrow> string \<Rightarrow> string \<Rightarrow> string \<Rightarrow> string list \<Rightarrow> proxy_config \<Rightarrow> server_proc
     \<Rightarrow> (zygote, string) result \<times> server_proc" where
  "zygote_new sc env python_path lib_so lib_dir warm_modules proxy s =
     (case socketpair sc s of
        (Inl e, s1) \<Rightarrow> (Inl e, s1)
      | (Inr (server_fd, worker_fd), s1) \<Rightarrow>
          (let cmd = worker_command env python_path lib_so lib_dir warm_modules proxy worker_fd in
           case sc_spawn sc cmd of
             Inl e \<Rightarrow> (Inl e, s1)
           | Inr u \<Rightarrow>
               (let s2 = close_fd worker_fd (s1\<lparr>sp_children := (cmd, inherited s1) # sp_children s1\<rparr>) in
                case and_then (sc_nonblocking sc) (\<lambda>u. sc_from_std sc) of
                  Inl e \<Rightarrow> (Inl e, close_fd server_fd s2)
                | Inr u \<Rightarrow> (Inr new_manager, s2))))"

subsection \<open>The other side\<close>

text \<open>\<^verbatim>\<open>main\<close> of \<^verbatim>\<open>zygote_worker.py\<close>: what the worker reads from its command line, with \<^verbatim>\<open>int\<close> on a string of
  digits.\<close>

definition worker_main_args :: "string list \<Rightarrow> (fd \<times> string \<times> string \<times> string list) option" where
  "worker_main_args argv =
     (case argv of
        prog # ctrl_fd # lib_so # lib_dir # rest \<Rightarrow>
          map_option (\<lambda>fd. (fd, lib_so, lib_dir,
            case rest of [] \<Rightarrow> [] | w # ws \<Rightarrow> if w \<noteq> [] then str_split (CHR '','') w else []))
            (parse_nat ctrl_fd)
      | _ \<Rightarrow> None)"

section \<open>Facts\<close>

lemma parse_nat_digits: "parse_nat (nat_digits n) = Some n"
  by (simp add: parse_nat_def parse_digits_nat_digits)

lemma worker_command_args:
  "cmd_args (worker_command env py so dir ms proxy fd) =
     [''-B'', ''pool/zygote_worker.py'', nat_digits fd, so, dir, str_join '','' ms]"
  by (simp add: worker_command_def command_defs split: option.split)

lemma join_nonempty: "[] \<notin> set ms \<Longrightarrow> str_join sep ms = [] \<longleftrightarrow> ms = []"
  by (induction sep ms rule: str_join.induct) auto

lemma worker_child_env:
  "child_env server_env (worker_command env py so dir ms proxy fd) k =
     (case map_of (proxy_env_vars proxy) k of
        Some v \<Rightarrow> Some v
      | None \<Rightarrow> if k = ''PATH'' then env ''PATH'' else None)"
  by (simp add: worker_command_def child_env_def command_defs map_of_with_envs proxy_vars_rev table_simps
      split: option.split)

lemma fresh_filter: "fd \<notin> fst ` set es \<Longrightarrow> filter (\<lambda>e. fst e \<noteq> fd) es = es"
  by (induction es) auto

lemmas start_defs = zygote_new_def socketpair_def close_fd_def open_fds_def inherited_def

section \<open>Properties\<close>

text \<open>The worker reads back what the server wrote on its command line: its end of the socket pair, the
  library, the directory and the modules to import, when the names of the modules are not empty and
  contain no comma.\<close>

theorem worker_arguments_roundtrip:
  assumes "\<forall>m\<in>set warm_modules. m \<noteq> [] \<and> CHR '','' \<notin> set m"
  shows "worker_main_args (drop 1 (cmd_args (worker_command env python_path lib_so lib_dir warm_modules proxy fd))) =
    Some (fd, lib_so, lib_dir, warm_modules)"
proof -
  have "str_join '','' warm_modules = [] \<longleftrightarrow> warm_modules = []" using assms by (intro join_nonempty) auto
  moreover have "str_split (CHR '','') (str_join '','' warm_modules) = warm_modules" if "warm_modules \<noteq> []"
    using assms that by (intro str_split_join) auto
  ultimately show ?thesis by (auto simp: worker_main_args_def worker_command_args parse_nat_digits)
qed

theorem worker_arguments_roundtrip_witness:
  "worker_main_args (drop 1 (cmd_args (worker_command (\<lambda>v. None) ''python3'' ''./libpython.so'' LIB_PATH
     [''json'', ''math''] default_proxy 7))) = Some (7, ''./libpython.so'', LIB_PATH, [''json'', ''math''])"
  by (rule worker_arguments_roundtrip) simp

text \<open>C33. What starting the zygote leaves behind, in every case. If no socket pair can be made, nothing has
  changed. If the process cannot be spawned, both ends of the pair stay open, and no one is left who
  could close them. If the socket cannot be handed to the runtime, both ends are closed, and the
  process that was spawned is not. If the start succeeds, the server keeps its own end only.\<close>

theorem zygote_start_effects:
  assumes "case sc_pair sc of Inl e \<Rightarrow> True | Inr (a, b) \<Rightarrow> a \<noteq> b \<and> {a, b} \<inter> set (open_fds s) = {}"
  shows "case zygote_new sc env py so dir ms proxy s of (r, s') \<Rightarrow>
    (case sc_pair sc of
       Inl e \<Rightarrow> r = Inl e \<and> s' = s
     | Inr (server_fd, worker_fd) \<Rightarrow>
         (let cmd = worker_command env py so dir ms proxy worker_fd in
          case sc_spawn sc cmd of
            Inl e \<Rightarrow> r = Inl e \<and> open_fds s' = server_fd # worker_fd # open_fds s \<and> sp_children s' = sp_children s
          | Inr u \<Rightarrow>
              sp_children s' = (cmd, server_fd # worker_fd # inherited s) # sp_children s
              \<and> (if sc_nonblocking sc = Inr () \<and> sc_from_std sc = Inr ()
                 then r = Inr new_manager \<and> open_fds s' = server_fd # open_fds s
                 else isl r \<and> open_fds s' = open_fds s)))"
proof (cases "sc_pair sc")
  case (Inr ab)
  moreover obtain a b where "ab = (a, b)" by fastforce
  ultimately have ab: "sc_pair sc = Inr (a, b)" by simp
  with assms have "a \<noteq> b" "a \<notin> fst ` set (sp_fds s)" "b \<notin> fst ` set (sp_fds s)" by (auto simp: open_fds_def)
  with ab show ?thesis
    by (cases "sc_nonblocking sc"; cases "sc_from_std sc")
      (simp_all add: start_defs Let_def fresh_filter split: sum.split)
qed (simp add: start_defs)

theorem zygote_start_effects_witness:
  "open_fds (snd (zygote_new \<lparr>sc_pair = Inr (5, 6), sc_spawn = (\<lambda>c. Inl ''ENOENT''), sc_nonblocking = Inr (), sc_from_std = Inr ()\<rparr>
     (\<lambda>v. None) ''python3'' ''./libpython.so'' LIB_PATH [] default_proxy \<lparr>sp_fds = [(0, False), (3, True)], sp_children = []\<rparr>)) =
     [5, 6, 0, 3]"
  using zygote_start_effects [where s = "\<lparr>sp_fds = [(0, False), (3, True)], sp_children = []\<rparr>" and sc = "\<lparr>sc_pair = Inr (5, 6), sc_spawn = (\<lambda>c. Inl ''ENOENT''), sc_nonblocking = Inr (), sc_from_std = Inr ()\<rparr>"
      and env = "\<lambda>v. None" and py = "''python3''" and so = "''./libpython.so''" and dir = LIB_PATH and ms = "[]"
      and proxy = default_proxy]
  by (simp add: open_fds_def case_prod_beta)

text \<open>The server's end of the pair is not closed on \<^verbatim>\<open>exec\<close>: after a successful start every process that is
  spawned starts with it, until the server closes it. The zygote worker itself has both ends.\<close>

lemma control_socket_inherited:
  assumes "sc_pair sc = Inr (server_fd, worker_fd)" and "server_fd \<noteq> worker_fd"
    and "zygote_new sc env py so dir ms proxy s = (Inr z, s')"
  shows "server_fd \<in> set (inherited s') \<and> (\<exists>cmd fds. hd (sp_children s') = (cmd, fds) \<and> {server_fd, worker_fd} \<subseteq> set fds)"
proof -
  from assms have "sp_fds s' = (server_fd, False) # filter (\<lambda>e. fst e \<noteq> worker_fd) (sp_fds s)"
      "\<exists>cmd. sp_children s' = (cmd, server_fd # worker_fd # inherited s) # sp_children s"
    by (auto simp: start_defs Let_def split: sum.splits)
  then show ?thesis by (auto simp: inherited_def)
qed

end
