(* ===== verification/Server_Main.thy ===== *)
theory Server_Main
  imports Handlers Restart Zygote_Start
begin

text \<open>
  \<^verbatim>\<open>main\<close> of \<^verbatim>\<open>server/src/main.rs\<close>: the startup sequence up to the point where requests are accepted,
  and the table of routes. Reading files, the TOML parser, the environment, the operating system and
  the channel crate are the fields of the record \<open>system\<close>; logging is left out.
\<close>

section \<open>Model\<close>

record ('c, 'j) system =
  sys_read :: "string \<Rightarrow> (string, string) result"
  sys_toml :: "string \<Rightarrow> (raw_config, string) result"
  sys_env :: environment
  sys_os :: os
  sys_exists :: "string \<Rightarrow> bool"
  sys_start :: start_calls
  sys_prctl_ok :: bool
  sys_chan :: "('c, 'j message) chan_ops"

text \<open>The state in which the server starts to listen: its configuration, its shared state, the commands that
  were run on the way, in order, and the warnings and errors that were logged.\<close>

record ('c, 'j) startup =
  st_config :: config
  st_queue :: "('c, 'j) queue"
  st_commands :: "command list"
  st_warnings :: "string list"
  st_gate :: gate
  st_proc :: server_proc
  st_dumpable :: bool

definition config_path :: "environment \<Rightarrow> string" where
  "config_path env = (case env ''CONFIG_PATH'' of Some p \<Rightarrow> p | None \<Rightarrow> ''runtime/config.toml'')"

definition privileged_setup :: "('c, 'j) system \<Rightarrow> config \<Rightarrow> string list \<times> command list" where
  "privileged_setup sys config =
     (if cfg_privilege config then
        (case install_python_dependencies (sys_read sys) (sys_os sys) config of
           (r, pip_cmds) \<Rightarrow>
             (case prepare_environment (sys_exists sys) (sys_os sys) config of
                (warnings, env_cmds) \<Rightarrow>
                  ((case r of Inl e \<Rightarrow> [''Failed to install initial Python dependencies: '' @ e] | Inr u \<Rightarrow> []) @ warnings,
                   pip_cmds @ env_cmds)))
      else ([], []))"

definition start_zygote :: "('c, 'j) system \<Rightarrow> config \<Rightarrow> server_proc \<Rightarrow> string list \<times> gate \<times> server_proc" where
  "start_zygote sys config proc =
     (if cfg_python_zygote config then
        (case zygote_new (sys_start sys) (sys_env sys) (cfg_python_path config) ''./libpython.so'' LIB_PATH
                (cfg_python_zygote_preload_modules config) (cfg_proxy config) proc of
           (Inr z, proc') \<Rightarrow> ([], gate_start True True, proc')
         | (Inl e, proc') \<Rightarrow> ([''Failed to start Python zygote: '' @ e], gate_start True False, proc'))
      else ([], gate_start False False, proc))"

text \<open>\<open>None\<close> is the panic of \<^verbatim>\<open>expect("Failed to load config")\<close>. Whether \<^verbatim>\<open>prctl(PR_SET_DUMPABLE, 0)\<close> succeeds is
  not checked.\<close>

definition main_startup :: "('c, 'j) system \<Rightarrow> server_proc \<Rightarrow> ('c, 'j) startup option" where
  "main_startup sys proc =
     (case load_config (sys_read sys) (sys_toml sys) (sys_env sys) (config_path (sys_env sys)) of
        Inl e \<Rightarrow> None
      | Inr config \<Rightarrow>
          (let queue = start (sys_chan sys) (cfg_max_workers config) in
           case privileged_setup sys config of
             (warnings, cmds) \<Rightarrow>
               (case start_zygote sys config proc of
                  (errors, gate, proc') \<Rightarrow> Some
                    \<lparr>st_config = config, st_queue = queue, st_commands = cmds, st_warnings = warnings @ errors,
                     st_gate = gate, st_proc = proc', st_dumpable = (\<not> sys_prctl_ok sys)\<rparr>)))"

text \<open>The whole of \<^verbatim>\<open>main\<close> up to the requests: the port is bound last, on all interfaces. A failure to bind it ends \<^verbatim>\<open>main\<close> with
  the error, after everything else has been done.\<close>

definition main_serve ::
  "(string \<Rightarrow> u16 \<Rightarrow> (unit, string) result) \<Rightarrow> ('c, 'j) system \<Rightarrow> server_proc \<Rightarrow> ((unit, string) result \<times> ('c, 'j) startup) option" where
  "main_serve bind sys proc =
     map_option (\<lambda>st. (bind ''0.0.0.0'' (app_port (cfg_app (st_config st))), st)) (main_startup sys proc)"

subsection \<open>Routes\<close>

datatype http_method = GET | POST
datatype endpoint = Health | Run_code | Get_dependencies | Update_dependencies

text \<open>The table of routes; the last two exist only if the feature \<^verbatim>\<open>dependencies-api\<close> is compiled in.\<close>

definition routes :: "bool \<Rightarrow> ((http_method \<times> string) \<times> endpoint) list" where
  "routes dependencies_api =
     [((GET, ''/health''), Health), ((POST, ''/v1/sandbox/run''), Run_code)] @
     (if dependencies_api then
        [((GET, ''/v1/sandbox/dependencies''), Get_dependencies),
         ((POST, ''/v1/sandbox/dependencies/update''), Update_dependencies)]
      else [])"

text \<open>A request with the bodies its handler would extract; a reply at once, with the commands run for it, or a
  job for the queue.\<close>

record http_request =
  rq_method :: http_method
  rq_path :: string
  rq_api_key :: "bytes option"
  rq_query :: "(string, string) table"
  rq_run :: run_code_request
  rq_update :: update_dependency_request

datatype reply = Not_found | Reply http_response "command list" | Submit run_code_request

definition dispatch ::
  "bool \<Rightarrow> (bytes \<Rightarrow> string option) \<Rightarrow> (bytes \<Rightarrow> bytes \<Rightarrow> bool) \<Rightarrow> ('c, 'j) system \<Rightarrow> ('c, 'j) startup \<Rightarrow> http_request \<Rightarrow> reply" where
  "dispatch dependencies_api to_str ct_eq sys st rq =
     (case map_of (routes dependencies_api) (rq_method rq, rq_path rq) of
        None \<Rightarrow> Not_found
      | Some Health \<Rightarrow> Reply (health (st_queue st)) []
      | Some Run_code \<Rightarrow>
          (case run_code to_str ct_eq (st_config st) (rq_api_key rq) (rq_run rq) of
             Inl refused \<Rightarrow> Reply refused []
           | Inr req \<Rightarrow> Submit req)
      | Some Get_dependencies \<Rightarrow>
          (case get_dependencies to_str ct_eq (sys_os sys) (st_config st) (rq_api_key rq) (rq_query rq) of
             (resp, cmds) \<Rightarrow> Reply resp cmds)
      | Some Update_dependencies \<Rightarrow>
          (case update_dependencies to_str ct_eq (sys_read sys) (sys_os sys) (st_config st) (rq_api_key rq) (rq_update rq) of
             (resp, cmds) \<Rightarrow> Reply resp cmds))"

section \<open>Facts\<close>

lemma startup_cases:
  "main_startup sys proc = None \<longleftrightarrow>
     isl (load_config (sys_read sys) (sys_toml sys) (sys_env sys) (config_path (sys_env sys)))"
  by (simp add: main_startup_def Let_def split: sum.split prod.split)

lemma startup_Some:
  assumes "main_startup sys proc = Some st"
  shows "load_config (sys_read sys) (sys_toml sys) (sys_env sys) (config_path (sys_env sys)) = Inr (st_config st)"
    "st_queue st = start (sys_chan sys) (cfg_max_workers (st_config st))"
    "st_commands st = snd (privileged_setup sys (st_config st))"
    "st_gate st = fst (snd (start_zygote sys (st_config st) proc))"
    "st_proc st = snd (snd (start_zygote sys (st_config st) proc))"
  using assms by (auto simp: main_startup_def Let_def split: sum.splits prod.splits)

lemma install_commands:
  "snd (install_python_dependencies read os config) =
     (case read (LIB_PATH @ ''/requirements.txt'') of
        Inl e \<Rightarrow> []
      | Inr t \<Rightarrow> if requirement_lines t = [] then [] else [pip_install_command config (requirement_lines t)])"
  by (auto simp: install_python_dependencies_def Let_def split: sum.split outcome.split)

lemma prepare_commands:
  "snd (prepare_environment ex os config) =
     map env_sh_command (filter ex (cfg_python_lib_paths config @ cfg_nodejs_lib_paths config))"
  using copy_all_commands [of ex os "cfg_python_lib_paths config"] copy_all_commands [of ex os "cfg_nodejs_lib_paths config"]
  by (simp add: prepare_environment_def case_prod_beta)

lemma start_zygote_gate:
  "get_zygote (fst (snd (start_zygote sys config proc))) \<noteq> None \<longleftrightarrow>
     cfg_python_zygote config \<and> \<not> isl (fst (zygote_new (sys_start sys) (sys_env sys) (cfg_python_path config) ''./libpython.so''
        LIB_PATH (cfg_python_zygote_preload_modules config) (cfg_proxy config) proc))"
  by (auto simp: start_zygote_def gate_start_def get_zygote_def split: prod.split sum.split)

section \<open>A server\<close>

text \<open>The shipped configuration over a list channel, with an operating system in which every child times out.\<close>

definition demo_system :: "(run_code_request message list \<times> nat, run_code_request) system" where
  "demo_system =
     \<lparr>sys_read = (\<lambda>p. Inr []), sys_toml = (\<lambda>t. Inr shipped_config), sys_env = (\<lambda>v. None),
      sys_os = (\<lambda>c i t. Timed_out), sys_exists = (\<lambda>p. False),
      sys_start = \<lparr>sc_pair = Inl ''EMFILE'', sc_spawn = (\<lambda>c. Inr ()), sc_nonblocking = Inr (), sc_from_std = Inr ()\<rparr>,
      sys_prctl_ok = True, sys_chan = list_channel\<rparr>"

definition demo_startup :: "(run_code_request message list \<times> nat, run_code_request) startup" where
  "demo_startup = the (main_startup demo_system \<lparr>sp_fds = [], sp_children = []\<rparr>)"

lemma demo_starts:
  "main_startup demo_system \<lparr>sp_fds = [], sp_children = []\<rparr> = Some demo_startup"
  "st_config demo_startup = override_with_env (\<lambda>v. None) (config_of_raw shipped_config)"
proof -
  have "main_startup demo_system \<lparr>sp_fds = [], sp_children = []\<rparr> \<noteq> None"
    unfolding startup_cases by (simp add: demo_system_def load_config_def)
  then show "main_startup demo_system \<lparr>sp_fds = [], sp_children = []\<rparr> = Some demo_startup"
    by (simp add: demo_startup_def)
  from startup_Some(1) [OF this] show "st_config demo_startup = override_with_env (\<lambda>v. None) (config_of_raw shipped_config)"
    by (simp add: demo_system_def load_config_def)
qed

section \<open>Properties\<close>

text \<open>C31. Startup fails exactly when the configuration cannot be loaded. Otherwise it reaches the point where
  requests are accepted, whatever pip, the copies into the jail and the zygote do: with the
  configured number of waiting workers; in non-privileged mode without running any command; in
  privileged mode after one call of pip, if there is something to install, and one copy for every
  configured path that exists, in this order; and with a zygote exactly if one is configured and its
  process could be started. The port is bound last, so that all this has happened even if it is not free.\<close>

theorem startup_sequence:
  "(main_serve bind sys proc = None \<longleftrightarrow>
      isl (load_config (sys_read sys) (sys_toml sys) (sys_env sys) (config_path (sys_env sys))))
   \<and> (\<forall>bound st. main_serve bind sys proc = Some (bound, st) \<longrightarrow>
       bound = bind ''0.0.0.0'' (app_port (cfg_app (st_config st)))
       \<and> q_workers (st_queue st) = replicate (cfg_max_workers (st_config st)) Waiting
       \<and> st_commands st =
           (if cfg_privilege (st_config st) then
              (case sys_read sys (LIB_PATH @ ''/requirements.txt'') of
                 Inl e \<Rightarrow> []
               | Inr t \<Rightarrow> if requirement_lines t = [] then []
                          else [pip_install_command (st_config st) (requirement_lines t)]) @
              map env_sh_command (filter (sys_exists sys)
                (cfg_python_lib_paths (st_config st) @ cfg_nodejs_lib_paths (st_config st)))
            else [])
       \<and> (get_zygote (st_gate st) \<noteq> None \<longleftrightarrow> cfg_python_zygote (st_config st)
           \<and> \<not> isl (fst (zygote_new (sys_start sys) (sys_env sys) (cfg_python_path (st_config st)) ''./libpython.so'' LIB_PATH
               (cfg_python_zygote_preload_modules (st_config st)) (cfg_proxy (st_config st)) proc))))"
proof (intro conjI allI impI)
  show "main_serve bind sys proc = None \<longleftrightarrow>
      isl (load_config (sys_read sys) (sys_toml sys) (sys_env sys) (config_path (sys_env sys)))"
    by (simp add: main_serve_def startup_cases)
next
  fix bound st assume "main_serve bind sys proc = Some (bound, st)"
  then have st: "main_startup sys proc = Some st" and "bound = bind ''0.0.0.0'' (app_port (cfg_app (st_config st)))"
    by (auto simp: main_serve_def)
  then show "bound = bind ''0.0.0.0'' (app_port (cfg_app (st_config st)))" by simp
  show "q_workers (st_queue st) = replicate (cfg_max_workers (st_config st)) Waiting"
    using startup_Some(2) [OF st] by (simp add: start_def)
  show "st_commands st =
           (if cfg_privilege (st_config st) then
              (case sys_read sys (LIB_PATH @ ''/requirements.txt'') of
                 Inl e \<Rightarrow> []
               | Inr t \<Rightarrow> if requirement_lines t = [] then []
                          else [pip_install_command (st_config st) (requirement_lines t)]) @
              map env_sh_command (filter (sys_exists sys)
                (cfg_python_lib_paths (st_config st) @ cfg_nodejs_lib_paths (st_config st)))
            else [])"
    unfolding startup_Some(3) [OF st] install_commands [symmetric, where os = "sys_os sys"]
      prepare_commands [symmetric, where os = "sys_os sys"]
    by (simp add: privileged_setup_def case_prod_beta)
  show "get_zygote (st_gate st) \<noteq> None \<longleftrightarrow> cfg_python_zygote (st_config st)
           \<and> \<not> isl (fst (zygote_new (sys_start sys) (sys_env sys) (cfg_python_path (st_config st)) ''./libpython.so'' LIB_PATH
               (cfg_python_zygote_preload_modules (st_config st)) (cfg_proxy (st_config st)) proc))"
    unfolding startup_Some(4) [OF st] by (rule start_zygote_gate)
qed

theorem startup_sequence_witness:
  "q_workers (st_queue demo_startup) = replicate 4 Waiting \<and> get_zygote (st_gate demo_startup) = None"
proof -
  have "cfg_max_workers (st_config demo_startup) = 4"
    by (simp add: demo_starts(2) override_with_env_def config_of_raw_def shipped_config_def or_default_def env_parse_def Let_def)
  moreover have "isl (fst (zygote_new (sys_start demo_system) env py so dir ms proxy p))" for env py so dir ms proxy p
    by (simp add: demo_system_def zygote_new_def socketpair_def)
  ultimately show ?thesis
    using startup_sequence [of "\<lambda>host port. Inr ()" demo_system "\<lparr>sp_fds = [], sp_children = []\<rparr>"] demo_starts(1)
    by (auto simp: main_serve_def)
qed

text \<open>C32. The surface of the server. A request without the configured key gets nothing done: apart from the
  health check, whatever the method and the path, it is answered with 401 or not found, no command
  is run and no job submitted. Without the feature for dependencies no request makes the server run
  a command of its own.\<close>

theorem unauthorized_request_inert:
  assumes "constant_time_eq ct_eq"
    and "Option.bind (rq_api_key rq) to_str \<noteq> Some (app_key (cfg_app (st_config st)))"
  shows "dispatch feature to_str ct_eq sys st rq \<in>
    {Not_found, Reply (health (st_queue st)) [],
     Reply \<lparr>http_status = 401, http_body = json_of_api_response (api_error 401 ''Invalid API key'')\<rparr> []}
    \<and> (\<forall>rq'. case dispatch False to_str ct_eq sys st rq' of Reply resp cmds \<Rightarrow> cmds = [] | _ \<Rightarrow> True)"
proof
  note refused = constant_time_eq.key_refused [OF assms]
  show "dispatch feature to_str ct_eq sys st rq \<in>
    {Not_found, Reply (health (st_queue st)) [],
     Reply \<lparr>http_status = 401, http_body = json_of_api_response (api_error 401 ''Invalid API key'')\<rparr> []}"
    by (simp add: dispatch_def run_code_def get_dependencies_def update_dependencies_def refused
        split: option.split endpoint.split)
  show "\<forall>rq'. case dispatch False to_str ct_eq sys st rq' of Reply resp cmds \<Rightarrow> cmds = [] | _ \<Rightarrow> True"
    by (auto simp: dispatch_def routes_def split: reply.split sum.split option.split endpoint.split if_splits)
qed

theorem unauthorized_request_inert_witness:
  "\<forall>sys st run upd. dispatch True (\<lambda>b. Some (bytes_str b)) slice_ct_eq sys (st\<lparr>st_config := config_of_raw shipped_config\<rparr>)
     \<lparr>rq_method = POST, rq_path = ''/v1/sandbox/run'', rq_api_key = Some (str_bytes ''guess''), rq_query = [], rq_run = run,
      rq_update = upd\<rparr> =
     Reply \<lparr>http_status = 401, http_body = json_of_api_response (api_error 401 ''Invalid API key'')\<rparr> []"
proof (intro allI)
  fix sys :: "('c, 'j) system" and st :: "('c, 'j) startup" and run upd
  let ?st = "st\<lparr>st_config := config_of_raw shipped_config\<rparr>"
  let ?rq = "\<lparr>rq_method = POST, rq_path = ''/v1/sandbox/run'', rq_api_key = Some (str_bytes ''guess''), rq_query = [],
    rq_run = run, rq_update = upd\<rparr>"
  let ?d = "dispatch True (\<lambda>b. Some (bytes_str b)) slice_ct_eq sys ?st ?rq"
  have "app_key (cfg_app (st_config ?st)) = ''sandbox''"
    by (simp add: config_of_raw_def app_of_raw_def shipped_config_def)
  then have "Option.bind (rq_api_key ?rq) (\<lambda>b. Some (bytes_str b)) \<noteq> Some (app_key (cfg_app (st_config ?st)))" by simp
  from unauthorized_request_inert [OF slices.constant_time_eq_axioms this, of True sys]
  have "?d \<in> {Not_found, Reply (health (st_queue ?st)) [],
     Reply \<lparr>http_status = 401, http_body = json_of_api_response (api_error 401 ''Invalid API key'')\<rparr> []}" by blast
  moreover have "?d \<noteq> Not_found" by (simp add: dispatch_def routes_def run_code_def split: sum.split)
  moreover have "?d \<noteq> Reply (health (st_queue ?st)) []"
    by (auto simp: dispatch_def routes_def run_code_def api_key_from_request_def Let_def health_def http_ok_def slice_ct_eq_iff
        config_of_raw_def app_of_raw_def shipped_config_def dest: arg_cong [of _ _ str_bytes] split: if_splits)
  ultimately show "?d = Reply \<lparr>http_status = 401, http_body = json_of_api_response (api_error 401 ''Invalid API key'')\<rparr> []" by blast
qed

end
