(* ===== verification/Jail.thy ===== *)
theory Jail
  imports Setup
begin

text \<open>
  \<^verbatim>\<open>runtime/script/env.sh\<close>: the script that the server runs for every configured path to fill the chroot
  jail. The script decides by tests on files and by the exit status of the programs it calls; these, and
  what \<^verbatim>\<open>find\<close> prints, are the parameter \<open>shell\<close>. An operation maps the commands run so far to
  an exit status and the commands run afterwards. Paths are free of the characters that have a
  meaning in patterns, and file names do not begin with a dash.
\<close>

section \<open>Model\<close>

datatype jail_cmd =
    Mkdir_p string
  | Cp_P string string
  | Cp string string
  | Chmod_444 string
  | Ln_f string string

record shell =
  sh_is_link :: "string \<Rightarrow> bool" \<comment> \<open>\<^verbatim>\<open>[ -L f ]\<close>\<close>
  sh_is_device :: "string \<Rightarrow> bool" \<comment> \<open>\<^verbatim>\<open>[ -b f ] || [ -c f ]\<close>\<close>
  sh_is_file :: "string \<Rightarrow> bool" \<comment> \<open>\<^verbatim>\<open>[ -f f ]\<close>\<close>
  sh_is_dir :: "string \<Rightarrow> bool" \<comment> \<open>\<^verbatim>\<open>[ -d f ]\<close>\<close>
  sh_find :: "string \<Rightarrow> string list" \<comment> \<open>what \<^verbatim>\<open>find f -type f,l\<close> prints, a line each\<close>
  sh_status :: "jail_cmd list \<Rightarrow> jail_cmd \<Rightarrow> nat"

definition run_cmd :: "shell \<Rightarrow> jail_cmd \<Rightarrow> jail_cmd list \<Rightarrow> nat \<times> jail_cmd list" where
  "run_cmd sh c tr = (sh_status sh tr c, tr @ [c])"

subsection \<open>Text\<close>

definition strip_end :: "char set \<Rightarrow> string \<Rightarrow> string" where
  "strip_end cs s = rev (dropWhile (\<lambda>c. c \<in> cs) (rev s))"

text \<open>\<^verbatim>\<open>$(...)\<close> drops line feeds at the end.\<close>

definition substituted :: "string \<Rightarrow> string" where
  "substituted out = strip_end {CHR 0x0A} out"

text \<open>\<^verbatim>\<open>dirname\<close>: without the slashes at the end, what stands before the last slash.\<close>

definition dirname :: "string \<Rightarrow> string" where
  "dirname path =
     (let s = strip_end {CHR ''/''} path in
      if s = [] then if path = [] then ''.'' else ''/''
      else if CHR ''/'' \<notin> set s then ''.''
      else
        let d = strip_end {CHR ''/''} (strip_end (UNIV - {CHR ''/''}) s) in
        if d = [] then ''/'' else d)"

text \<open>\<^verbatim>\<open>${file#prefix}\<close>\<close>

definition remove_prefix :: "string \<Rightarrow> string \<Rightarrow> string" where
  "remove_prefix prefix s = (if starts_with prefix s then drop (length prefix) s else s)"

text \<open>\<^verbatim>\<open>read -r\<close> in a loop: whole lines, without blanks at both ends.\<close>

definition strip_blanks :: "string \<Rightarrow> string" where
  "strip_blanks s = strip_end {CHR '' '', CHR 0x09} (dropWhile (\<lambda>c. c \<in> {CHR '' '', CHR 0x09}) s)"

definition read_lines :: "string \<Rightarrow> string list" where
  "read_lines out = map strip_blanks (butlast (str_split (CHR 0x0A) out))"

definition find_output :: "shell \<Rightarrow> string \<Rightarrow> string" where
  "find_output sh src = concat (map (\<lambda>f. f @ [CHR 0x0A]) (sh_find sh src))"

subsection \<open>The script\<close>

definition copy_and_link :: "shell \<Rightarrow> string \<Rightarrow> string \<Rightarrow> jail_cmd list \<Rightarrow> nat \<times> jail_cmd list" where
  "copy_and_link sh src_file dest_file tr =
     (if sh_is_link sh src_file then run_cmd sh (Cp_P src_file dest_file) tr
      else if sh_is_device sh src_file then
        run_cmd sh (Chmod_444 dest_file) (snd (run_cmd sh (Cp src_file dest_file) tr))
      else
        case run_cmd sh (Ln_f src_file dest_file) tr of
          (st, tr1) \<Rightarrow>
            if st = 0 then (st, tr1)
            else case run_cmd sh (Cp src_file dest_file) tr1 of
              (st, tr2) \<Rightarrow> if st = 0 then run_cmd sh (Chmod_444 dest_file) tr2 else (st, tr2))"

text \<open>The loop over the files that were found; its status is that of the last round.\<close>

fun place_files :: "shell \<Rightarrow> string \<Rightarrow> string \<Rightarrow> string list \<Rightarrow> nat \<Rightarrow> jail_cmd list \<Rightarrow> nat \<times> jail_cmd list" where
  "place_files sh src dest [] st tr = (st, tr)"
| "place_files sh src dest (file # files) st tr =
     (let rel_path = remove_prefix (src @ ''/'') file;
          rel_dir = substituted (dirname rel_path);
          tr1 = snd (run_cmd sh (Mkdir_p (dest @ ''/'' @ src @ ''/'' @ rel_dir)) tr)
      in case copy_and_link sh file (dest @ ''/'' @ src @ ''/'' @ rel_path) tr1 of
           (st', tr') \<Rightarrow> place_files sh src dest files st' tr')"

definition env_sh :: "shell \<Rightarrow> string list \<Rightarrow> nat \<times> jail_cmd list" where
  "env_sh sh args =
     (case args of
        [src, dest] \<Rightarrow>
          if sh_is_file sh src then
            copy_and_link sh src (dest @ ''/'' @ src)
              (snd (run_cmd sh (Mkdir_p (substituted (dirname (dest @ ''/'' @ src)))) []))
          else if sh_is_dir sh src then
            place_files sh src dest (read_lines (find_output sh src)) 0 (snd (run_cmd sh (Mkdir_p (dest @ ''/'' @ src)) []))
          else (1, [])
      | _ \<Rightarrow> (1, []))"

section \<open>Facts\<close>

text \<open>The path a command writes to, and the outcome for one file.\<close>

fun cmd_target :: "jail_cmd \<Rightarrow> string" where
  "cmd_target (Mkdir_p d) = d"
| "cmd_target (Cp_P s d) = d"
| "cmd_target (Cp s d) = d"
| "cmd_target (Chmod_444 d) = d"
| "cmd_target (Ln_f s d) = d"

lemma copy_and_link_targets:
  "\<exists>cs. snd (copy_and_link sh s d tr) = tr @ cs \<and> cs \<noteq> [] \<and> (\<forall>c\<in>set cs. cmd_target c = d)"
  by (auto simp: copy_and_link_def run_cmd_def)

lemma strip_end_append: "strip_end cs s @ drop (length (strip_end cs s)) s = s"
proof -
  have "rev (dropWhile (\<lambda>c. c \<in> cs) (rev s)) @ rev (takeWhile (\<lambda>c. c \<in> cs) (rev s)) = s"
    by (metis rev_append rev_rev_ident takeWhile_dropWhile_id)
  then show ?thesis unfolding strip_end_def by (metis append_eq_conv_conj)
qed

lemma strip_end_id: "s = [] \<or> last s \<notin> cs \<Longrightarrow> strip_end cs s = s"
  by (cases s rule: rev_cases) (simp_all add: strip_end_def)

lemma read_lines_printed:
  assumes "\<forall>l\<in>set ls. CHR 0x0A \<notin> set l \<and> strip_blanks l = l"
  shows "read_lines (concat (map (\<lambda>l. l @ [CHR 0x0A]) ls)) = ls"
proof -
  have "str_split (CHR 0x0A) (concat (map (\<lambda>l. l @ [CHR 0x0A]) ls)) = ls @ [[]]"
    using assms by (induction ls) (simp_all add: str_split_append_sep)
  with assms show ?thesis by (simp add: read_lines_def map_idI)
qed

lemma place_files_append:
  "place_files sh src dest (fs @ gs) st tr = (case place_files sh src dest fs st tr of (st', tr') \<Rightarrow> place_files sh src dest gs st' tr')"
  by (induction fs arbitrary: st tr) (simp_all add: Let_def split: prod.split)

text \<open>A shell in which only hard links can fail, as they do across file systems.\<close>

definition links_only :: "shell \<Rightarrow> (string \<Rightarrow> bool) \<Rightarrow> bool" where
  "links_only sh linkable \<longleftrightarrow> (\<forall>tr c. sh_status sh tr c = 0 \<longleftrightarrow> (\<forall>f d. c = Ln_f f d \<longrightarrow> linkable f))"

definition placed :: "shell \<Rightarrow> (string \<Rightarrow> bool) \<Rightarrow> string \<Rightarrow> string \<Rightarrow> jail_cmd list" where
  "placed sh linkable f d =
     (if sh_is_link sh f then [Cp_P f d] else if linkable f then [Ln_f f d] else [Ln_f f d, Cp f d, Chmod_444 d])"

lemma links_only_simps:
  assumes "links_only sh linkable"
  shows "sh_status sh tr (Mkdir_p d) = 0" "sh_status sh tr (Cp_P s d) = 0" "sh_status sh tr (Cp s d) = 0" "sh_status sh tr (Chmod_444 d) = 0"
    "sh_status sh tr (Ln_f s d) = 0 \<longleftrightarrow> linkable s"
  using assms unfolding links_only_def by blast+

lemma copy_and_link_placed:
  assumes "links_only sh linkable" and "\<not> sh_is_device sh f"
  shows "copy_and_link sh f d tr = (0, tr @ placed sh linkable f d)"
  using assms(2) by (auto simp: copy_and_link_def run_cmd_def placed_def links_only_simps [OF assms(1)])

lemma place_files_placed:
  assumes "links_only sh linkable" and "\<forall>f\<in>set fs. starts_with (src @ ''/'') f \<and> \<not> sh_is_device sh f"
  shows "place_files sh src dest fs 0 tr =
    (0, tr @ concat (map (\<lambda>f. Mkdir_p (dest @ ''/'' @ src @ ''/'' @ substituted (dirname (drop (Suc (length src)) f)))
                              # placed sh linkable f (dest @ ''/'' @ f)) fs))"
  using assms(2)
proof (induction fs arbitrary: tr)
  case (Cons f fs)
  have "src @ ''/'' @ drop (Suc (length src)) f = f"
    using Cons.prems by (auto simp: starts_with_def) (metis append_assoc append_take_drop_id append_Cons append_Nil)
  moreover have "remove_prefix (src @ ''/'') f = drop (Suc (length src)) f" using Cons.prems by (simp add: remove_prefix_def)
  ultimately have "remove_prefix (src @ ''/'') f = drop (Suc (length src)) f" "dest @ ''/'' @ src @ ''/'' @ drop (Suc (length src)) f = dest @ ''/'' @ f"
    by simp_all
  with Cons show ?case by (simp add: Let_def run_cmd_def copy_and_link_placed [OF assms(1)])
qed simp

text \<open>The directory that is created for a single file lies in the jail.\<close>

lemma strip_end_prefix:
  assumes "dest \<noteq> []" and "last dest \<notin> cs"
  shows "\<exists>y. strip_end cs (dest @ x) = dest @ y \<and> (\<exists>z. x = y @ z)"
proof (induction x rule: rev_induct)
  case Nil
  show ?case using assms strip_end_id [of dest cs] by auto
next
  case (snoc c x)
  show ?case
  proof (cases "c \<in> cs")
    case True
    then have "strip_end cs (dest @ x @ [c]) = strip_end cs (dest @ x)" by (simp add: strip_end_def)
    with snoc show ?thesis by (metis append_assoc)
  next
    case False
    then show ?thesis using strip_end_id [of "dest @ x @ [c]" cs] by auto
  qed
qed

definition in_jail :: "string \<Rightarrow> string \<Rightarrow> bool" where
  "in_jail dest p \<longleftrightarrow> p = dest \<or> starts_with (dest @ ''/'') p"

lemma in_jailI: "(\<exists>z. CHR ''/'' # x = y @ z) \<Longrightarrow> in_jail dest (dest @ y)"
  by (cases y) (auto simp: in_jail_def starts_with_def)

lemma dirname_in_jail:
  assumes "dest \<noteq> []" and "last dest \<notin> {CHR ''/'', CHR 0x0A}" and "src \<noteq> []" and "last src \<noteq> CHR ''/''"
  shows "in_jail dest (substituted (dirname (dest @ ''/'' @ src)))"
proof -
  let ?p = "dest @ ''/'' @ src"
  have p: "strip_end {CHR ''/''} ?p = ?p" using assms(3,4) by (intro strip_end_id) simp
  obtain x a where x: "strip_end (UNIV - {CHR ''/''}) ?p = dest @ ''/'' @ x" "src = x @ a"
    using strip_end_prefix [of "dest @ ''/''" "UNIV - {CHR ''/''}" src] by auto
  obtain y b where y: "strip_end {CHR ''/''} (dest @ ''/'' @ x) = dest @ y" "''/'' @ x = y @ b"
    using strip_end_prefix [of dest "{CHR ''/''}" "''/'' @ x"] assms(1,2) by auto
  have "dirname ?p = dest @ y" unfolding dirname_def Let_def p x(1) y(1) using assms(1) by simp
  moreover obtain z c where z: "strip_end {CHR 0x0A} (dest @ y) = dest @ z" "y = z @ c"
    using strip_end_prefix [of dest "{CHR 0x0A}" y] assms(1,2) by auto
  ultimately have "substituted (dirname ?p) = dest @ z" by (simp add: substituted_def)
  moreover have "CHR ''/'' # src = z @ c @ b @ a" using x(2) y(2) z(2) by simp
  ultimately show ?thesis using in_jailI by metis
qed

lemma place_files_targets:
  assumes "\<forall>c\<in>set tr. in_jail dest (cmd_target c)"
  shows "\<forall>c\<in>set (snd (place_files sh src dest fs st tr)). in_jail dest (cmd_target c)"
  using assms
proof (induction fs arbitrary: st tr)
  case (Cons f fs)
  let ?d = "dest @ ''/'' @ src @ ''/'' @ remove_prefix (src @ ''/'') f"
  let ?m = "Mkdir_p (dest @ ''/'' @ src @ ''/'' @ substituted (dirname (remove_prefix (src @ ''/'') f)))"
  obtain cs where cs: "snd (copy_and_link sh f ?d (tr @ [?m])) = (tr @ [?m]) @ cs" "\<forall>c\<in>set cs. cmd_target c = ?d"
    using copy_and_link_targets by metis
  have "in_jail dest ?d" "in_jail dest (cmd_target ?m)" by (auto simp: in_jail_def starts_with_def)
  with cs Cons.prems have "\<forall>c\<in>set (snd (copy_and_link sh f ?d (tr @ [?m]))). in_jail dest (cmd_target c)" by auto
  from Cons.IH [OF this] show ?case by (simp add: Let_def run_cmd_def split: prod.split)
qed simp

lemma last_file_status:
  "fst (place_files sh src dest (fs @ [f]) st tr) =
     fst (copy_and_link sh f (dest @ ''/'' @ src @ ''/'' @ remove_prefix (src @ ''/'') f)
       (snd (place_files sh src dest fs st tr) @ [Mkdir_p (dest @ ''/'' @ src @ ''/'' @ substituted (dirname (remove_prefix (src @ ''/'') f)))]))"
  by (simp add: place_files_append Let_def run_cmd_def split: prod.split)

text \<open>The names that the script handles as they are.\<close>

definition clean_name :: "string \<Rightarrow> bool" where
  "clean_name f \<longleftrightarrow> CHR 0x0A \<notin> set f \<and> strip_blanks f = f"

lemma found_lines: "\<forall>f\<in>set (sh_find sh src). clean_name f \<Longrightarrow> read_lines (find_output sh src) = sh_find sh src"
  unfolding find_output_def by (rule read_lines_printed) (simp add: clean_name_def)

text \<open>The exit status as \<^verbatim>\<open>wait\<close> reports it.\<close>

definition exit_status :: "nat \<Rightarrow> i32" where
  "exit_status st = push_bit 8 (of_nat st)"

lemma status_success_exit: "status_success (exit_status 0)"
  by (simp add: exit_status_def status_success_def)

text \<open>A directory with two files and a link; hard links of the second file fail.\<close>

definition demo_shell :: shell where
  "demo_shell =
     \<lparr>sh_is_link = (\<lambda>f. f = ''/d/l''), sh_is_device = (\<lambda>f. False), sh_is_file = (\<lambda>f. False), sh_is_dir = (\<lambda>f. f = ''/d''),
      sh_find = (\<lambda>f. [''/d/l'', ''/d/b'', ''/d/a'']), sh_status = (\<lambda>tr c. if \<exists>d. c = Ln_f ''/d/b'' d then 1 else 0)\<rparr>"

lemma demo_shell_facts:
  "\<not> sh_is_file demo_shell ''/d''" "sh_is_dir demo_shell ''/d''" "links_only demo_shell (\<lambda>f. f \<noteq> ''/d/b'')"
  "\<forall>f\<in>set (sh_find demo_shell ''/d''). starts_with (''/d'' @ ''/'') f \<and> clean_name f \<and> \<not> sh_is_device demo_shell f"
  "sh_find demo_shell ''/d'' = [''/d/l'', ''/d/b''] @ [''/d/a'']"
proof -
  show "links_only demo_shell (\<lambda>f. f \<noteq> ''/d/b'')" by (auto simp: links_only_def demo_shell_def)
qed (simp_all add: demo_shell_def starts_with_def clean_name_def strip_blanks_def strip_end_def)

section \<open>Properties\<close>

text \<open>C37. What the jail contains after \<^verbatim>\<open>env.sh\<close> has run for a directory. If no program fails but for hard links, then the script
  succeeds, and every file and symbolic link below the directory has been placed at its own path
  below the jail, after the directory for it was created, and nothing else was done: a symbolic link is
  copied as it is, a file is hard-linked, or copied and made read-only where no link is possible. A file that
  is hard-linked keeps its permissions.\<close>

theorem jail_mirrors_directory:
  assumes "\<not> sh_is_file sh src" and "sh_is_dir sh src" and "links_only sh linkable"
    and "\<forall>f\<in>set (sh_find sh src). starts_with (src @ ''/'') f \<and> clean_name f \<and> \<not> sh_is_device sh f"
  shows "env_sh sh [src, dest] =
    (0, Mkdir_p (dest @ ''/'' @ src) #
        concat (map (\<lambda>f. Mkdir_p (dest @ ''/'' @ src @ ''/'' @ substituted (dirname (drop (Suc (length src)) f))) #
                  (if sh_is_link sh f then [Cp_P f (dest @ ''/'' @ f)]
                   else if linkable f then [Ln_f f (dest @ ''/'' @ f)]
                   else [Ln_f f (dest @ ''/'' @ f), Cp f (dest @ ''/'' @ f), Chmod_444 (dest @ ''/'' @ f)])) (sh_find sh src)))"
proof -
  have "read_lines (find_output sh src) = sh_find sh src" using assms(4) by (intro found_lines) blast
  moreover have "\<forall>f\<in>set (sh_find sh src). starts_with (src @ ''/'') f \<and> \<not> sh_is_device sh f" using assms(4) by blast
  note placed = place_files_placed [OF assms(3) this, of dest "[Mkdir_p (dest @ ''/'' @ src)]"]
  ultimately have "env_sh sh [src, dest] = place_files sh src dest (sh_find sh src) 0 [Mkdir_p (dest @ ''/'' @ src)]"
    using assms(1,2) by (simp add: env_sh_def run_cmd_def)
  then show ?thesis unfolding placed placed_def by simp
qed

theorem jail_mirrors_directory_witness:
  "env_sh demo_shell [''/d'', ''/j''] =
    (0, [Mkdir_p ''/j//d'', Mkdir_p ''/j//d/.'', Cp_P ''/d/l'' ''/j//d/l'',
         Mkdir_p ''/j//d/.'', Ln_f ''/d/b'' ''/j//d/b'', Cp ''/d/b'' ''/j//d/b'', Chmod_444 ''/j//d/b'',
         Mkdir_p ''/j//d/.'', Ln_f ''/d/a'' ''/j//d/a''])"
  using jail_mirrors_directory [OF demo_shell_facts(1-4), of "''/j''"]
  by (simp add: demo_shell_def dirname_def substituted_def strip_end_def)



text \<open>The exit status of the script for a directory is that of the last file only. If the last file that was found can be
  linked, the server records no warning for the directory, whatever failed before it.\<close>

theorem jail_failures_hidden:
  assumes "\<not> sh_is_file sh src" and "sh_is_dir sh src" and "sh_find sh src = fs @ [f]" and "\<forall>g\<in>set (fs @ [f]). clean_name g"
    and "\<not> sh_is_link sh f" and "\<not> sh_is_device sh f" and "\<And>tr d. sh_status sh tr (Ln_f f d) = 0"
    and "os (env_sh_command src) [] None = Exited out err (exit_status (fst (env_sh sh [src, LIB_PATH])))"
  shows "fst (env_sh sh [src, LIB_PATH]) = 0 \<and> fst (copy_into_jail path_exists os src) = Inr ()"
proof -
  have "read_lines (find_output sh src) = fs @ [f]" using found_lines [of sh src] assms(3,4) by simp
  then have "fst (env_sh sh [src, LIB_PATH]) = 0"
    using assms(1,2,5-7) by (simp add: env_sh_def last_file_status copy_and_link_def run_cmd_def)
  with assms(8) status_success_exit show ?thesis by (simp add: copy_into_jail_def Let_def)
qed

theorem jail_failures_hidden_witness:
  "fst (copy_into_jail (\<lambda>p. True) (\<lambda>c i t. Exited [] [] (exit_status (fst (env_sh demo_shell [''/d'', LIB_PATH])))) ''/d'') = Inr ()"
proof -
  have "\<forall>g\<in>set ([''/d/l'', ''/d/b''] @ [''/d/a'']). clean_name g" using demo_shell_facts(4,5) by simp
  moreover have "\<not> sh_is_link demo_shell ''/d/a''" "\<not> sh_is_device demo_shell ''/d/a''" "\<And>tr d. sh_status demo_shell tr (Ln_f ''/d/a'' d) = 0"
    by (simp_all add: demo_shell_def)
  ultimately show ?thesis
    using jail_failures_hidden [OF demo_shell_facts(1,2,5), of
        "\<lambda>c i t. Exited [] [] (exit_status (fst (env_sh demo_shell [''/d'', LIB_PATH])))"] by blast
qed

text \<open>A configured path that is itself a symbolic link to a directory: \<^verbatim>\<open>[ -d ]\<close> follows the link, \<^verbatim>\<open>find\<close> does not and prints the
  link. Nothing of the directory is placed in the jail; the link is copied to a path that repeats its own.\<close>

theorem jail_linked_directory:
  assumes "\<not> sh_is_file sh src" and "sh_is_dir sh src" and "sh_is_link sh src" and "sh_find sh src = [src]" and "clean_name src"
  shows "snd (env_sh sh [src, dest]) =
    [Mkdir_p (dest @ ''/'' @ src), Mkdir_p (dest @ ''/'' @ src @ ''/'' @ substituted (dirname src)), Cp_P src (dest @ ''/'' @ src @ ''/'' @ src)]"
proof -
  have "remove_prefix (src @ ''/'') src = src" by (simp add: remove_prefix_def starts_with_longer)
  moreover have "read_lines (find_output sh src) = [src]" using found_lines [of sh src] assms(4,5) by simp
  ultimately show ?thesis using assms(1-3) by (simp add: env_sh_def copy_and_link_def run_cmd_def Let_def)
qed

end
