(* ===== verification/Zygote_Worker.thy ===== *)
theory Zygote_Worker
  imports Zygote_Start
begin

text \<open>
  \<^verbatim>\<open>runtime/pool/zygote_worker.py\<close>: the event loop of the zygote worker, the process at the other end of
  the control socket. One round of the loop selects descriptors that are ready and handles them one
  after the other: control frames start or kill children, pipes yield the output of children, and the
  end of both pipes of a child ends its request. Each handler is an operation below; a step of
  the relation \<open>wstep\<close> is the selection of a round or the handling of one descriptor. What the
  operating system answers (forks, reads, the state of a child, how many bytes the socket takes) are
  arguments. The last fields of the state record history: the requests started, the messages queued,
  the bytes the socket took, what was read from the pipes, the exit codes, the children that exist and
  the signals sent.
\<close>

section \<open>Model\<close>

type_synonym pid = nat

record req_info =
  ri_pid :: pid
  ri_out :: fd
  ri_err :: fd
  ri_open :: "fd set"

datatype ready = Ctrl | Pipe fd

record worker =
  wk_recv_buf :: bytes
  wk_out :: bytes
  wk_reqs :: "u32 \<rightharpoonup> req_info"
  wk_fd_map :: "fd \<rightharpoonup> u32 \<times> u8"
  wk_ready :: "ready list"
  wk_exit :: "int option"
  wk_started :: "u32 set"
  wk_msgs :: "message list"
  wk_sent :: bytes
  wk_reads :: "message list"
  wk_codes :: "u32 \<rightharpoonup> i32"
  wk_live :: "pid set"
  wk_kills :: "(pid \<times> bool) list"

definition SEND_BUF_CAP :: nat where "SEND_BUF_CAP = 4 * 1024 * 1024"
definition MAX_FRAME_PAYLOAD :: nat where "MAX_FRAME_PAYLOAD = 16 * 1024 * 1024"

definition worker_init :: worker where
  "worker_init =
     \<lparr>wk_recv_buf = [], wk_out = [], wk_reqs = Map.empty, wk_fd_map = Map.empty, wk_ready = [], wk_exit = None,
      wk_started = {}, wk_msgs = [], wk_sent = [], wk_reads = [], wk_codes = Map.empty, wk_live = {}, wk_kills = []\<rparr>"

subsection \<open>Output\<close>

text \<open>\<^verbatim>\<open>_flush\<close>, when the socket takes \<open>n\<close> bytes.\<close>

definition flush :: "nat \<Rightarrow> worker \<Rightarrow> worker" where
  "flush n w = w\<lparr>wk_sent := wk_sent w @ take n (wk_out w), wk_out := drop n (wk_out w)\<rparr>"

text \<open>\<^verbatim>\<open>_send\<close>: queue the frame and flush.\<close>

definition send :: "nat \<Rightarrow> u8 \<Rightarrow> u32 \<Rightarrow> bytes \<Rightarrow> worker \<Rightarrow> worker" where
  "send n msg_type req_id payload w =
     flush n (w\<lparr>wk_out := wk_out w @ encode_frame msg_type req_id payload,
                wk_msgs := wk_msgs w @ [(msg_type, req_id, payload)]\<rparr>)"

subsection \<open>Control frames\<close>

text \<open>\<^verbatim>\<open>_handle_run\<close> in the parent, once the child is forked: its process and the read ends of its pipes.\<close>

definition handle_run :: "u32 \<Rightarrow> pid \<times> fd \<times> fd \<Rightarrow> worker \<Rightarrow> worker" where
  "handle_run req_id child w =
     (case child of (pid, out_r, err_r) \<Rightarrow>
        w\<lparr>wk_reqs := (wk_reqs w)(req_id \<mapsto> \<lparr>ri_pid = pid, ri_out = out_r, ri_err = err_r, ri_open = {out_r, err_r}\<rparr>),
          wk_fd_map := (wk_fd_map w)(out_r \<mapsto> (req_id, MSG_STDOUT), err_r \<mapsto> (req_id, MSG_STDERR)),
          wk_started := insert req_id (wk_started w), wk_live := insert pid (wk_live w)\<rparr>)"

text \<open>\<^verbatim>\<open>os.kill(pid, SIGKILL)\<close>; the record says whether the process was a child of the worker at that moment.\<close>

definition sigkill :: "pid \<Rightarrow> worker \<Rightarrow> worker" where
  "sigkill pid w = w\<lparr>wk_kills := wk_kills w @ [(pid, pid \<in> wk_live w)]\<rparr>"

definition handle_kill :: "u32 \<Rightarrow> worker \<Rightarrow> worker" where
  "handle_kill req_id w =
     (case wk_reqs w req_id of
        None \<Rightarrow> w
      | Some req \<Rightarrow> sigkill (ri_pid req) w)"

text \<open>
  The frames in the receive buffer, each handled as it is taken off. \<open>fork\<close> says what becomes of a
  request to run: \<open>None\<close> if its JSON, a pipe or the fork fails. The exception leaves the loop then, and
  the frames behind it stay in the buffer until more bytes arrive.
\<close>

lemma recv_buf_handlers [simp]:
  "wk_recv_buf (handle_run r c w) = wk_recv_buf w" "wk_recv_buf (handle_kill r w) = wk_recv_buf w"
  by (simp_all add: handle_run_def handle_kill_def sigkill_def split: prod.split option.split)

function ctrl_frames :: "(worker \<Rightarrow> u32 \<Rightarrow> bytes \<Rightarrow> (pid \<times> fd \<times> fd) option) \<Rightarrow> worker \<Rightarrow> worker" where
  "ctrl_frames fork w =
     (case next_frame MAX_FRAME_PAYLOAD (wk_recv_buf w) of
        Incomplete \<Rightarrow> w
      | Oversized n \<Rightarrow> w\<lparr>wk_exit := Some 1\<rparr>
      | Frame mtype req_id payload rest \<Rightarrow>
          (let w1 = w\<lparr>wk_recv_buf := rest\<rparr> in
           if mtype = MSG_RUN then
             (case fork w1 req_id payload of
                None \<Rightarrow> w1
              | Some child \<Rightarrow> ctrl_frames fork (handle_run req_id child w1))
           else if mtype = MSG_KILL then ctrl_frames fork (handle_kill req_id w1)
           else ctrl_frames fork w1))"
  by pat_completeness auto
termination
  by (relation "measure (\<lambda>(f, w). length (wk_recv_buf w))") auto

declare ctrl_frames.simps [simp del]

text \<open>The control socket is readable: \<open>None\<close> if nothing is there after all, no bytes if the server is gone.\<close>

definition on_ctrl :: "(worker \<Rightarrow> u32 \<Rightarrow> bytes \<Rightarrow> (pid \<times> fd \<times> fd) option) \<Rightarrow> bytes option \<Rightarrow> worker \<Rightarrow> worker" where
  "on_ctrl fork chunk w =
     (case chunk of
        None \<Rightarrow> w
      | Some bs \<Rightarrow>
          if bs = [] then w\<lparr>wk_exit := Some 0\<rparr>
          else ctrl_frames fork (w\<lparr>wk_recv_buf := wk_recv_buf w @ bs\<rparr>))"

subsection \<open>Pipes\<close>

text \<open>What \<^verbatim>\<open>waitpid(pid, WNOHANG)\<close> finds: no such child, a child that has ended with a status, or one that
  runs on; it is killed then, and the second \<^verbatim>\<open>waitpid\<close> gives its status or finds no child.\<close>

datatype reap = No_child | Zombie i32 | Alive "i32 option"

text \<open>\<^verbatim>\<open>os.waitstatus_to_exitcode\<close>, for a status of a child that has ended.\<close>

definition waitstatus_to_exitcode :: "i32 \<Rightarrow> i32" where
  "waitstatus_to_exitcode st =
     (if st AND 0x7F = 0 then drop_bit 8 st AND 0xFF else - (st AND 0x7F))"

definition exit_code_of :: "reap \<Rightarrow> i32" where
  "exit_code_of r =
     (case r of
        No_child \<Rightarrow> - 1
      | Zombie st \<Rightarrow> waitstatus_to_exitcode st
      | Alive None \<Rightarrow> - 1
      | Alive (Some st) \<Rightarrow> waitstatus_to_exitcode st)"

definition terminated_msg :: bytes where
  "terminated_msg = str_bytes ''process terminated''"

text \<open>\<^verbatim>\<open>_teardown_pipe_fd\<close>; \<open>n\<close> and \<open>m\<close> are the bytes the socket takes at the two calls of \<^verbatim>\<open>_send\<close>.\<close>

definition teardown_pipe_fd :: "nat \<Rightarrow> nat \<Rightarrow> reap \<Rightarrow> fd \<Rightarrow> u32 \<Rightarrow> worker \<Rightarrow> worker" where
  "teardown_pipe_fd n m reap fd req_id w =
     (let w1 = w\<lparr>wk_fd_map := (wk_fd_map w)(fd := None)\<rparr> in
      case wk_reqs w1 req_id of
        None \<Rightarrow> w1
      | Some req \<Rightarrow>
          (let still_open = ri_open req - {fd} in
           if still_open \<noteq> {} then w1\<lparr>wk_reqs := (wk_reqs w1)(req_id \<mapsto> req\<lparr>ri_open := still_open\<rparr>)\<rparr>
           else
             let pid = ri_pid req;
                 w2 = w1\<lparr>wk_reqs := (wk_reqs w1)(req_id := None)\<rparr>;
                 w3 = (case reap of
                         Alive st \<Rightarrow> sigkill pid (send n MSG_STDERR req_id terminated_msg w2)
                       | _ \<Rightarrow> w2);
                 code = exit_code_of reap
             in send m MSG_DONE req_id (u32_to_be_bytes code)
                  (w3\<lparr>wk_live := wk_live w3 - {pid}, wk_codes := (wk_codes w3)(req_id \<mapsto> code)\<rparr>)))"

text \<open>\<^verbatim>\<open>_on_pipe_readable\<close> with what \<^verbatim>\<open>os.read\<close> gave, nothing for the end of the stream or an error. A descriptor
  that was closed earlier in the round is skipped.\<close>

definition on_pipe_readable :: "nat \<Rightarrow> nat \<Rightarrow> reap \<Rightarrow> bytes \<Rightarrow> fd \<Rightarrow> worker \<Rightarrow> worker" where
  "on_pipe_readable n m reap data fd w =
     (case wk_fd_map w fd of
        None \<Rightarrow> w
      | Some (req_id, mtype) \<Rightarrow>
          if data \<noteq> [] then send m mtype req_id data (w\<lparr>wk_reads := wk_reads w @ [(mtype, req_id, data)]\<rparr>)
          else teardown_pipe_fd n m reap fd req_id w)"

subsection \<open>The loop\<close>

text \<open>Child pipes are selected only while the outbound buffer has headroom.\<close>

definition selectable :: "worker \<Rightarrow> ready set" where
  "selectable w = insert Ctrl (if length (wk_out w) < SEND_BUF_CAP then Pipe ` dom (wk_fd_map w) else {})"

text \<open>
  What the worker relies on: a fork yields a process that is not one of its children already and two
  descriptors that are not in use, and the server does not reuse the number of a request, which it counts
  upwards.
\<close>

definition fork_ok :: "(worker \<Rightarrow> u32 \<Rightarrow> bytes \<Rightarrow> (pid \<times> fd \<times> fd) option) \<Rightarrow> bool" where
  "fork_ok fork \<longleftrightarrow> (\<forall>w r p pid a b. fork w r p = Some (pid, a, b) \<longrightarrow>
     r \<notin> wk_started w \<and> pid \<notin> wk_live w \<and> a \<noteq> b \<and> wk_fd_map w a = None \<and> wk_fd_map w b = None)"

text \<open>
  A send to a server that is gone ends the process at once (\<^verbatim>\<open>_flush\<close>); if that happens inside the handler of
  a pipe, the state is the one before the handler. A failed read of a pipe is its end.
\<close>

inductive wstep :: "worker \<Rightarrow> worker \<Rightarrow> bool" where
    select: "wk_exit w = None \<Longrightarrow> wk_ready w = [] \<Longrightarrow> distinct rs \<Longrightarrow> set rs \<subseteq> selectable w \<Longrightarrow>
      wstep w (flush n (w\<lparr>wk_ready := rs\<rparr>))"
  | ctrl: "wk_exit w = None \<Longrightarrow> wk_ready w = Ctrl # rs \<Longrightarrow> fork_ok fork \<Longrightarrow>
      wstep w (on_ctrl fork chunk (w\<lparr>wk_ready := rs\<rparr>))"
  | pipe: "wk_exit w = None \<Longrightarrow> wk_ready w = Pipe fd # rs \<Longrightarrow> length data \<le> 65536 \<Longrightarrow>
      wstep w (on_pipe_readable n m reap data fd (w\<lparr>wk_ready := rs\<rparr>))"
  | server_gone: "wk_exit w = None \<Longrightarrow> wk_out w \<noteq> [] \<or> (\<exists>fd rs. wk_ready w = Pipe fd # rs) \<Longrightarrow>
      wstep w (w\<lparr>wk_exit := Some 0\<rparr>)"

definition wreach :: "worker \<Rightarrow> bool" where
  "wreach w = wstep\<^sup>*\<^sup>* worker_init w"

inductive_cases wstep_E: "wstep w w'"

section \<open>Invariants\<close>

definition stream_ok :: "worker \<Rightarrow> bool" where
  "stream_ok w \<longleftrightarrow> wk_sent w @ wk_out w = concat (map encode_message (wk_msgs w))
     \<and> (\<forall>m\<in>set (wk_msgs w). length (snd (snd m)) \<le> 65536)"

definition tables_ok :: "worker \<Rightarrow> bool" where
  "tables_ok w \<longleftrightarrow>
     (\<forall>fd r t. wk_fd_map w fd = Some (r, t) \<longrightarrow> t \<in> {MSG_STDOUT, MSG_STDERR} \<and> (\<exists>q. wk_reqs w r = Some q \<and> fd \<in> ri_open q))
     \<and> (\<forall>r q. wk_reqs w r = Some q \<longrightarrow> r \<in> wk_started w \<and> ri_open q \<noteq> {} \<and> (\<forall>fd\<in>ri_open q. \<exists>t. wk_fd_map w fd = Some (r, t)))"

definition children_ok :: "worker \<Rightarrow> bool" where
  "children_ok w \<longleftrightarrow> (\<forall>pid. pid \<in> wk_live w \<longleftrightarrow> (\<exists>r q. wk_reqs w r = Some q \<and> ri_pid q = pid))
     \<and> (\<forall>r r' q q'. wk_reqs w r = Some q \<longrightarrow> wk_reqs w r' = Some q' \<longrightarrow> ri_pid q = ri_pid q' \<longrightarrow> r = r')
     \<and> (\<forall>k\<in>set (wk_kills w). snd k)"

definition absent :: "u32 \<Rightarrow> message list \<Rightarrow> bool" where
  "absent r ms \<longleftrightarrow> (\<forall>m\<in>set ms. fst (snd m) \<noteq> r)"

text \<open>The messages of a request that has ended: its output, then the exit code, then nothing.\<close>

definition ended_ok :: "u32 \<Rightarrow> worker \<Rightarrow> bool" where
  "ended_ok r w \<longleftrightarrow> (\<exists>code ms1 ms2. wk_codes w r = Some code
     \<and> wk_msgs w = ms1 @ (MSG_DONE, r, u32_to_be_bytes code) # ms2 \<and> no_done r ms1 \<and> absent r ms2
     \<and> stream_of MSG_STDOUT r ms1 = stream_of MSG_STDOUT r (wk_reads w)
     \<and> stream_of MSG_STDERR r ms1 \<in> {stream_of MSG_STDERR r (wk_reads w), stream_of MSG_STDERR r (wk_reads w) @ terminated_msg})"

definition request_ok :: "u32 \<Rightarrow> worker \<Rightarrow> bool" where
  "request_ok r w \<longleftrightarrow>
     (if r \<notin> wk_started w then absent r (wk_msgs w) \<and> absent r (wk_reads w)
      else if wk_reqs w r \<noteq> None then no_done r (wk_msgs w)
        \<and> stream_of MSG_STDOUT r (wk_msgs w) = stream_of MSG_STDOUT r (wk_reads w)
        \<and> stream_of MSG_STDERR r (wk_msgs w) = stream_of MSG_STDERR r (wk_reads w)
      else ended_ok r w)"

definition worker_ok :: "worker \<Rightarrow> bool" where
  "worker_ok w \<longleftrightarrow> stream_ok w \<and> tables_ok w \<and> children_ok w \<and> (\<forall>r. request_ok r w)"

subsection \<open>Fields\<close>

lemma flush_fields [simp]:
  "wk_recv_buf (flush n w) = wk_recv_buf w" "wk_reqs (flush n w) = wk_reqs w" "wk_fd_map (flush n w) = wk_fd_map w"
  "wk_ready (flush n w) = wk_ready w" "wk_exit (flush n w) = wk_exit w" "wk_started (flush n w) = wk_started w"
  "wk_msgs (flush n w) = wk_msgs w" "wk_reads (flush n w) = wk_reads w" "wk_codes (flush n w) = wk_codes w"
  "wk_live (flush n w) = wk_live w" "wk_kills (flush n w) = wk_kills w"
  by (simp_all add: flush_def)

lemma send_fields [simp]:
  "wk_recv_buf (send n t r d w) = wk_recv_buf w" "wk_reqs (send n t r d w) = wk_reqs w"
  "wk_fd_map (send n t r d w) = wk_fd_map w" "wk_ready (send n t r d w) = wk_ready w" "wk_exit (send n t r d w) = wk_exit w"
  "wk_started (send n t r d w) = wk_started w" "wk_msgs (send n t r d w) = wk_msgs w @ [(t, r, d)]"
  "wk_reads (send n t r d w) = wk_reads w" "wk_codes (send n t r d w) = wk_codes w" "wk_live (send n t r d w) = wk_live w"
  "wk_kills (send n t r d w) = wk_kills w"
  by (simp_all add: send_def)

lemma sigkill_fields [simp]:
  "wk_recv_buf (sigkill p w) = wk_recv_buf w" "wk_reqs (sigkill p w) = wk_reqs w" "wk_fd_map (sigkill p w) = wk_fd_map w"
  "wk_ready (sigkill p w) = wk_ready w" "wk_exit (sigkill p w) = wk_exit w" "wk_started (sigkill p w) = wk_started w"
  "wk_msgs (sigkill p w) = wk_msgs w" "wk_reads (sigkill p w) = wk_reads w" "wk_codes (sigkill p w) = wk_codes w"
  "wk_live (sigkill p w) = wk_live w" "wk_kills (sigkill p w) = wk_kills w @ [(p, p \<in> wk_live w)]"
  "wk_out (sigkill p w) = wk_out w" "wk_sent (sigkill p w) = wk_sent w"
  by (simp_all add: sigkill_def)

lemma stream_flush [simp]: "stream_ok (flush n w) = stream_ok w"
  by (simp add: stream_ok_def flush_def)

lemma stream_send: "stream_ok w \<Longrightarrow> length d \<le> 65536 \<Longrightarrow> stream_ok (send n t r d w)"
  unfolding send_def stream_flush by (simp add: stream_ok_def encode_message_def)

text \<open>Invariants depend on the tables and the history only.\<close>

lemma worker_ok_cong:
  assumes "worker_ok w" and "wk_sent w' @ wk_out w' = wk_sent w @ wk_out w" and "wk_reqs w' = wk_reqs w" "wk_fd_map w' = wk_fd_map w"
    "wk_started w' = wk_started w" "wk_msgs w' = wk_msgs w" "wk_reads w' = wk_reads w" "wk_codes w' = wk_codes w"
    "wk_live w' = wk_live w" "wk_kills w' = wk_kills w"
  shows "worker_ok w'"
  using assms(1)
  unfolding worker_ok_def stream_ok_def tables_ok_def children_ok_def request_ok_def ended_ok_def assms(2-) .

subsection \<open>Preservation\<close>

lemma stream_of_append [simp]: "stream_of t r (ms @ ms') = stream_of t r ms @ stream_of t r ms'"
  by (simp add: stream_of_def)

lemma absent_simps [simp]:
  "absent r []" "absent r (ms @ ms') \<longleftrightarrow> absent r ms \<and> absent r ms'" "absent r ((t, r', d) # ms) \<longleftrightarrow> r' \<noteq> r \<and> absent r ms"
  by (auto simp: absent_def)

lemma absent_stream: "absent r ms \<Longrightarrow> stream_of t r ms = []"
  by (auto simp: absent_def stream_of_def)

lemma absent_no_done: "absent r ms \<Longrightarrow> no_done r ms"
  by (auto simp: absent_def no_done_def list_all_iff)

lemma no_done_append [simp]: "no_done r (ms @ ms') \<longleftrightarrow> no_done r ms \<and> no_done r ms'"
  by (simp add: no_done_def)

lemma no_done_single [simp]: "no_done r [(t, r', d)] \<longleftrightarrow> \<not> (t = MSG_DONE \<and> r' = r)"
  by (simp add: no_done_def)

text \<open>A message about a request in progress leaves every other request as it was.\<close>

lemma request_other:
  assumes "request_ok k w" and "k \<in> wk_started w' \<longleftrightarrow> k \<in> wk_started w" and "wk_reqs w' k = wk_reqs w k"
    and "wk_codes w' k = wk_codes w k" and "wk_msgs w' = wk_msgs w @ ms" and "wk_reads w' = wk_reads w @ rs"
    and "absent k ms" and "absent k rs"
  shows "request_ok k w'"
proof -
  note streams = absent_stream [OF assms(7)] absent_stream [OF assms(8)]
  show ?thesis
  proof (cases "k \<in> wk_started w \<and> wk_reqs w k = None")
    case True
    with assms(1) obtain code ms1 ms2 where "wk_codes w k = Some code"
        "wk_msgs w = ms1 @ (MSG_DONE, k, u32_to_be_bytes code) # ms2" "no_done k ms1" "absent k ms2"
        "stream_of MSG_STDOUT k ms1 = stream_of MSG_STDOUT k (wk_reads w)"
        "stream_of MSG_STDERR k ms1 \<in> {stream_of MSG_STDERR k (wk_reads w), stream_of MSG_STDERR k (wk_reads w) @ terminated_msg}"
      unfolding request_ok_def ended_ok_def by auto
    then have "ended_ok k w'"
      unfolding ended_ok_def using assms(4-8) streams
      by (intro exI [of _ code] exI [of _ ms1] exI [of _ "ms2 @ ms"]) simp
    with True assms(2,3) show ?thesis by (simp add: request_ok_def)
  next
    case False
    with assms absent_no_done [OF assms(7)] streams show ?thesis by (auto simp: request_ok_def)
  qed
qed

lemma tables_okD:
  assumes "worker_ok w"
  shows "\<And>fd r t. wk_fd_map w fd = Some (r, t) \<Longrightarrow>
      t \<in> {MSG_STDOUT, MSG_STDERR} \<and> (\<exists>q. wk_reqs w r = Some q \<and> fd \<in> ri_open q)"
    and "\<And>r q. wk_reqs w r = Some q \<Longrightarrow>
      r \<in> wk_started w \<and> ri_open q \<noteq> {} \<and> (\<forall>fd\<in>ri_open q. \<exists>t. wk_fd_map w fd = Some (r, t))"
  using assms unfolding worker_ok_def tables_ok_def by blast+

lemma children_okD:
  assumes "worker_ok w"
  shows "\<And>pid. pid \<in> wk_live w \<longleftrightarrow> (\<exists>r q. wk_reqs w r = Some q \<and> ri_pid q = pid)"
    and "\<And>r r' q q'. wk_reqs w r = Some q \<Longrightarrow> wk_reqs w r' = Some q' \<Longrightarrow> ri_pid q = ri_pid q' \<Longrightarrow> r = r'"
    and "\<forall>k\<in>set (wk_kills w). snd k"
  using assms unfolding worker_ok_def children_ok_def by blast+

lemma ok_handle_run:
  assumes ok: "worker_ok w" and f: "r \<notin> wk_started w" "pid \<notin> wk_live w" "a \<noteq> b" "wk_fd_map w a = None" "wk_fd_map w b = None"
  shows "worker_ok (handle_run r (pid, a, b) w)"
proof -
  let ?w = "handle_run r (pid, a, b) w"
  have none: "wk_reqs w r = None"
    using ok f(1) by (cases "wk_reqs w r") (auto simp: worker_ok_def tables_ok_def)
  have "stream_ok ?w" using ok by (simp add: worker_ok_def stream_ok_def handle_run_def)
  moreover have "tables_ok ?w"
    using ok f none by (fastforce simp: worker_ok_def tables_ok_def handle_run_def)
  moreover have "children_ok ?w"
  proof -
    let ?q = "\<lparr>ri_pid = pid, ri_out = a, ri_err = b, ri_open = {a, b}\<rparr>"
    have c: "wk_live ?w = insert pid (wk_live w)" "wk_reqs ?w = (wk_reqs w)(r \<mapsto> ?q)" "wk_kills ?w = wk_kills w"
      by (simp_all add: handle_run_def)
    note old = children_okD [OF ok]
    have "p \<in> wk_live ?w \<longleftrightarrow> (\<exists>k q. wk_reqs ?w k = Some q \<and> ri_pid q = p)" for p
    proof
      assume "p \<in> wk_live ?w"
      then consider "p = pid" | k q where "wk_reqs w k = Some q" "ri_pid q = p" "k \<noteq> r" using old(1) none c(1) by fastforce
      then show "\<exists>k q. wk_reqs ?w k = Some q \<and> ri_pid q = p"
      proof cases
        case 1
        then show ?thesis by (intro exI [of _ r] exI [of _ ?q]) (simp add: c)
      next
        case (2 k q)
        then show ?thesis by (intro exI [of _ k] exI [of _ q]) (simp add: c)
      qed
    qed (use old(1) in \<open>auto simp: c split: if_splits\<close>)
    moreover have "k = k'" if "wk_reqs ?w k = Some q" "wk_reqs ?w k' = Some q'" "ri_pid q = ri_pid q'" for k k' q q'
    proof -
      have other: "ri_pid u \<noteq> pid" if "wk_reqs w j = Some u" for j u using old(1) f(2) that by blast
      show ?thesis
        using that other [of k q] other [of k' q'] old(2) [of k q k' q'] by (cases "k = r"; cases "k' = r") (auto simp: c)
    qed
    ultimately show ?thesis using old(3) unfolding children_ok_def by (simp add: c(3))
  qed
  moreover have "request_ok k ?w" for k
  proof (cases "k = r")
    case True
    have "request_ok r w" using ok by (simp add: worker_ok_def)
    with True f(1) show ?thesis by (simp add: request_ok_def handle_run_def absent_stream absent_no_done)
  next
    case False
    show ?thesis by (rule request_other [where w = w and ms = "[]" and rs = "[]"]) (use ok False in \<open>simp_all add: worker_ok_def handle_run_def\<close>)
  qed
  ultimately show ?thesis by (simp add: worker_ok_def)
qed

lemma ok_sigkill [simp]:
  "stream_ok (sigkill p w) = stream_ok w" "tables_ok (sigkill p w) = tables_ok w" "request_ok r (sigkill p w) = request_ok r w"
  by (simp_all add: stream_ok_def tables_ok_def request_ok_def ended_ok_def)

lemma children_sigkill: "children_ok w \<Longrightarrow> p \<in> wk_live w \<Longrightarrow> children_ok (sigkill p w)"
  by (simp add: children_ok_def)

lemma ok_handle_kill:
  assumes "worker_ok w"
  shows "worker_ok (handle_kill r w)"
proof (cases "wk_reqs w r")
  case (Some q)
  with assms have "ri_pid q \<in> wk_live w" by (auto simp: worker_ok_def children_ok_def)
  with assms Some show ?thesis by (simp add: handle_kill_def worker_ok_def children_sigkill)
qed (use assms in \<open>simp add: handle_kill_def\<close>)

lemma fork_okD:
  assumes "fork_ok fork" and "fork w r p = Some (pid, a, b)"
  shows "r \<notin> wk_started w" "pid \<notin> wk_live w" "a \<noteq> b" "wk_fd_map w a = None" "wk_fd_map w b = None"
  using assms unfolding fork_ok_def by blast+

lemma ok_ctrl_frames: "fork_ok fork \<Longrightarrow> worker_ok w \<Longrightarrow> worker_ok (ctrl_frames fork w)"
proof (induction fork w rule: ctrl_frames.induct)
  case (1 fork w)
  show ?case
  proof (cases "next_frame MAX_FRAME_PAYLOAD (wk_recv_buf w)")
    case Incomplete
    with 1 show ?thesis by (simp add: ctrl_frames.simps [of fork w])
  next
    case (Oversized n)
    have "worker_ok (w\<lparr>wk_exit := Some 1\<rparr>)" by (rule worker_ok_cong [OF 1(5)]) simp_all
    with Oversized show ?thesis by (simp add: ctrl_frames.simps [of fork w])
  next
    case (Frame t r p rest)
    let ?w = "w\<lparr>wk_recv_buf := rest\<rparr>"
    have ok: "worker_ok ?w" by (rule worker_ok_cong [OF 1(5)]) simp_all
    show ?thesis
    proof (cases "t = MSG_RUN")
      case True
      show ?thesis
      proof (cases "fork ?w r p")
        case None
        with Frame True ok show ?thesis by (simp add: ctrl_frames.simps [of fork w])
      next
        case (Some child)
        obtain pid a b where c: "child = (pid, a, b)" by (cases child) auto
        with Some 1(4) have "worker_ok (handle_run r child ?w)"
          unfolding c by (intro ok_handle_run [OF ok] fork_okD [of fork ?w r p]) simp_all
        from 1(1) [OF Frame refl True Some 1(4) this] show ?thesis
          using Frame True Some by (simp add: ctrl_frames.simps [of fork w])
      qed
    next
      case False
      with 1(2) [OF Frame refl False _ 1(4) ok_handle_kill [OF ok]] 1(3) [OF Frame refl False _ 1(4) ok] Frame
      show ?thesis by (simp add: ctrl_frames.simps [of fork w] Let_def)
    qed
  qed
qed

lemma ok_on_ctrl:
  assumes "fork_ok fork" and "worker_ok w"
  shows "worker_ok (on_ctrl fork chunk w)"
proof -
  have "worker_ok (w\<lparr>wk_exit := Some 0\<rparr>)" "worker_ok (w\<lparr>wk_recv_buf := wk_recv_buf w @ bs\<rparr>)" for bs
    by (rule worker_ok_cong [OF assms(2)]; simp)+
  with assms show ?thesis by (simp add: on_ctrl_def ok_ctrl_frames split: option.split)
qed

lemma ok_pipe_data:
  assumes ok: "worker_ok w" and fd: "wk_fd_map w fd = Some (r, t)" and "length data \<le> 65536"
  shows "worker_ok (send m t r data (w\<lparr>wk_reads := wk_reads w @ [(t, r, data)]\<rparr>))"
proof -
  let ?u = "w\<lparr>wk_reads := wk_reads w @ [(t, r, data)]\<rparr>" let ?w = "send m t r data ?u"
  obtain q where r: "wk_reqs w r = Some q" "r \<in> wk_started w" "t \<in> {MSG_STDOUT, MSG_STDERR}"
    using ok fd unfolding worker_ok_def tables_ok_def by blast
  have "stream_ok ?u" using ok by (simp add: worker_ok_def stream_ok_def)
  then have "stream_ok ?w" using assms(3) by (rule stream_send)
  moreover have "tables_ok ?w" "children_ok ?w"
    using ok unfolding worker_ok_def tables_ok_def children_ok_def by simp_all
  moreover have "request_ok k ?w" for k
  proof (cases "k = r")
    case True
    with ok r have "no_done k (wk_msgs w)" "stream_of MSG_STDOUT k (wk_msgs w) = stream_of MSG_STDOUT k (wk_reads w)"
        "stream_of MSG_STDERR k (wk_msgs w) = stream_of MSG_STDERR k (wk_reads w)"
      unfolding worker_ok_def request_ok_def by (metis option.distinct(1))+
    with True r show ?thesis by (auto simp: request_ok_def msg_defs)
  next
    case False
    show ?thesis by (rule request_other [where w = w and ms = "[(t, r, data)]" and rs = "[(t, r, data)]"]) (use ok False in \<open>simp_all add: worker_ok_def\<close>)
  qed
  ultimately show ?thesis by (simp add: worker_ok_def)
qed

text \<open>The request \<open>r\<close> ends: what the last part of \<^verbatim>\<open>_teardown_pipe_fd\<close> leaves.\<close>

fun is_alive :: "reap \<Rightarrow> bool" where
  "is_alive (Alive st) = True"
| "is_alive _ = False"

lemma teardown_end:
  fixes n m reap
  assumes "wk_reqs w r = Some q" and "ri_open q - {fd} = {}"
  defines "w' \<equiv> teardown_pipe_fd n m reap fd r w"
  shows "wk_reqs w' = (wk_reqs w)(r := None)" "wk_fd_map w' = (wk_fd_map w)(fd := None)" "wk_started w' = wk_started w"
    "wk_reads w' = wk_reads w" "wk_codes w' = (wk_codes w)(r \<mapsto> exit_code_of reap)" "wk_live w' = wk_live w - {ri_pid q}"
    "wk_kills w' = wk_kills w @ (if is_alive reap then [(ri_pid q, ri_pid q \<in> wk_live w)] else [])"
    "wk_msgs w' = wk_msgs w @ (if is_alive reap then [(MSG_STDERR, r, terminated_msg)] else []) @
       [(MSG_DONE, r, u32_to_be_bytes (exit_code_of reap))]"
  using assms(1,2) unfolding w'_def by (cases reap; simp add: teardown_pipe_fd_def Let_def)+

lemma teardown_end_stream:
  assumes "wk_reqs w r = Some q" and "ri_open q - {fd} = {}" and "stream_ok w"
  shows "stream_ok (teardown_pipe_fd n m reap fd r w)"
proof -
  have cong: "stream_ok (w'\<lparr>wk_live := l, wk_codes := c\<rparr>) = stream_ok w'"
      "stream_ok (w'\<lparr>wk_fd_map := f, wk_reqs := q'\<rparr>) = stream_ok w'" for w' :: worker and l c f q'
    by (simp_all add: stream_ok_def)
  have "length terminated_msg \<le> 65536" by (simp add: terminated_msg_def str_bytes_def)
  with assms show ?thesis
    by (cases reap) (simp_all add: teardown_pipe_fd_def Let_def stream_send cong)
qed

lemma ended_request:
  assumes "request_ok r w" and "r \<in> wk_started w" and "wk_reqs w r = Some q" and "wk_started w' = wk_started w"
    and "wk_reqs w' r = None" and "wk_codes w' r = Some code" and "wk_reads w' = wk_reads w"
    and "wk_msgs w' = wk_msgs w @ (if alive then [(MSG_STDERR, r, terminated_msg)] else []) @ [(MSG_DONE, r, u32_to_be_bytes code)]"
  shows "request_ok r w'"
proof -
  have "no_done r (wk_msgs w)" "stream_of MSG_STDOUT r (wk_msgs w) = stream_of MSG_STDOUT r (wk_reads w)"
      "stream_of MSG_STDERR r (wk_msgs w) = stream_of MSG_STDERR r (wk_reads w)"
    using assms(1-3) by (simp_all add: request_ok_def)
  then have "ended_ok r w'" unfolding ended_ok_def using assms(6-8)
    by - (rule exI [of _ code], rule exI [of _ "wk_msgs w @ (if alive then [(MSG_STDERR, r, terminated_msg)] else [])"],
      rule exI [of _ "[]"], auto simp: msg_defs no_done_def)
  with assms(2,4,5) show ?thesis by (simp add: request_ok_def)
qed

lemma tables_end:
  assumes ok: "worker_ok w" and fd: "wk_fd_map w fd = Some (r, t)" and q: "wk_reqs w r = Some q" and last: "ri_open q - {fd} = {}"
    and w': "wk_fd_map w' = (wk_fd_map w)(fd := None)" "wk_reqs w' = (wk_reqs w)(r := None)" "wk_started w' = wk_started w"
  shows "tables_ok w'"
  unfolding tables_ok_def w'
proof (intro conjI allI impI)
  note tab = tables_okD [OF ok]
  fix fd' r' t' assume a: "((wk_fd_map w)(fd := None)) fd' = Some (r', t')"
  then have b: "wk_fd_map w fd' = Some (r', t')" "fd' \<noteq> fd" by (auto split: if_splits)
  from tab(1) [OF b(1)] show "t' \<in> {MSG_STDOUT, MSG_STDERR}" by blast
  from tab(1) [OF b(1)] obtain u where u: "wk_reqs w r' = Some u" "fd' \<in> ri_open u" by blast
  with q last b(2) have "r' \<noteq> r" by auto
  with u show "\<exists>u. ((wk_reqs w)(r := None)) r' = Some u \<and> fd' \<in> ri_open u" by auto
next
  note tab = tables_okD [OF ok]
  fix r' u assume "((wk_reqs w)(r := None)) r' = Some u"
  then have b: "wk_reqs w r' = Some u" "r' \<noteq> r" by (auto split: if_splits)
  from tab(2) [OF b(1)] show "r' \<in> wk_started w" "ri_open u \<noteq> {}" by blast+
  from tab(2) [OF b(1)] b(2) fd show "\<forall>fd'\<in>ri_open u. \<exists>t'. ((wk_fd_map w)(fd := None)) fd' = Some (r', t')"
    by (metis fun_upd_apply option.inject prod.inject)
qed

lemma children_end:
  assumes ok: "worker_ok w" and q: "wk_reqs w r = Some q"
    and w': "wk_reqs w' = (wk_reqs w)(r := None)" "wk_live w' = wk_live w - {ri_pid q}"
      "wk_kills w' = wk_kills w @ (if alive then [(ri_pid q, ri_pid q \<in> wk_live w)] else [])"
  shows "children_ok w'"
proof -
  note old = children_okD [OF ok]
  have upd: "wk_reqs w' k = Some u \<longleftrightarrow> k \<noteq> r \<and> wk_reqs w k = Some u" for k u by (simp add: w'(1))
  have "p \<in> wk_live w' \<longleftrightarrow> p \<noteq> ri_pid q \<and> p \<in> wk_live w" for p by (auto simp: w'(2))
  then have "p \<in> wk_live w' \<longleftrightarrow> (\<exists>k u. wk_reqs w' k = Some u \<and> ri_pid u = p)" for p
    unfolding upd old(1) using old(2) [OF q] q by (metis option.inject)
  moreover have "k = k'" if "wk_reqs w' k = Some u" "wk_reqs w' k' = Some u'" "ri_pid u = ri_pid u'" for k k' u u'
    using that old(2) unfolding upd by blast
  moreover have "ri_pid q \<in> wk_live w" using old(1) q by blast
  moreover have "\<forall>k\<in>set (wk_kills w'). snd k" using old(3) calculation(3) by (auto simp: w'(3))
  ultimately show ?thesis unfolding children_ok_def by blast
qed

lemma ok_teardown_end:
  assumes ok: "worker_ok w" and fd: "wk_fd_map w fd = Some (r, t)" and q: "wk_reqs w r = Some q" and last: "ri_open q - {fd} = {}"
  shows "worker_ok (teardown_pipe_fd n m reap fd r w)"
proof -
  let ?w = "teardown_pipe_fd n m reap fd r w"
  note fields = teardown_end [OF q last, where n = n and m = m and reap = reap]
  have start: "r \<in> wk_started w" using ok q unfolding worker_ok_def tables_ok_def by blast
  have "stream_ok ?w" using ok by (intro teardown_end_stream [OF q last]) (simp add: worker_ok_def)
  moreover have "tables_ok ?w" by (rule tables_end [OF ok fd q last fields(2,1,3)])
  moreover have "children_ok ?w" by (rule children_end [OF ok q fields(1,6,7)])
  moreover have "request_ok k ?w" for k
  proof (cases "k = r")
    case True
    show ?thesis unfolding True
      by (rule ended_request [where w = w and q = q and alive = "is_alive reap"]) (use ok start q in \<open>simp_all add: worker_ok_def fields\<close>)
  next
    case False
    show ?thesis
      by (rule request_other [where w = w and rs = "[]"
            and ms = "(if is_alive reap then [(MSG_STDERR, r, terminated_msg)] else []) @ [(MSG_DONE, r, u32_to_be_bytes (exit_code_of reap))]"])
        (use ok False in \<open>simp_all add: worker_ok_def fields\<close>)
  qed
  ultimately show ?thesis by (simp add: worker_ok_def)
qed

text \<open>One of the two pipes is closed and the other is still open.\<close>

definition pipe_closed :: "fd \<Rightarrow> u32 \<Rightarrow> req_info \<Rightarrow> worker \<Rightarrow> worker" where
  "pipe_closed fd r q w =
     w\<lparr>wk_fd_map := (wk_fd_map w)(fd := None), wk_reqs := (wk_reqs w)(r \<mapsto> q\<lparr>ri_open := ri_open q - {fd}\<rparr>)\<rparr>"

lemma tables_closed:
  assumes ok: "worker_ok w" and fd: "wk_fd_map w fd = Some (r, t)" and q: "wk_reqs w r = Some q" and more: "ri_open q - {fd} \<noteq> {}"
  shows "tables_ok (pipe_closed fd r q w)"
proof -
  let ?q = "q\<lparr>ri_open := ri_open q - {fd}\<rparr>" let ?w = "pipe_closed fd r q w"
  note tab = tables_okD [OF ok]
  have "t' \<in> {MSG_STDOUT, MSG_STDERR} \<and> (\<exists>u. wk_reqs ?w r' = Some u \<and> fd' \<in> ri_open u)"
    if "wk_fd_map ?w fd' = Some (r', t')" for fd' r' t'
  proof -
    have b: "wk_fd_map w fd' = Some (r', t')" "fd' \<noteq> fd" using that by (auto simp: pipe_closed_def split: if_splits)
    from tab(1) [OF b(1)] obtain u where "wk_reqs w r' = Some u" "fd' \<in> ri_open u" "t' \<in> {MSG_STDOUT, MSG_STDERR}" by blast
    with q b(2) show ?thesis by (cases "r' = r") (auto simp: pipe_closed_def)
  qed
  moreover have "r' \<in> wk_started ?w \<and> ri_open u \<noteq> {} \<and> (\<forall>fd'\<in>ri_open u. \<exists>t'. wk_fd_map ?w fd' = Some (r', t'))"
    if "wk_reqs ?w r' = Some u" for r' u
  proof (cases "r' = r")
    case True
    with that have "u = ?q" by (simp add: pipe_closed_def)
    with True more tab(2) [OF q] show ?thesis by (auto simp: pipe_closed_def)
  next
    case other: False
    with that have u: "wk_reqs w r' = Some u" by (simp add: pipe_closed_def)
    have "fd' \<noteq> fd" if "fd' \<in> ri_open u" for fd'
      using tab(2) [OF u] that fd other by (metis option.inject prod.inject)
    with tab(2) [OF u] show ?thesis by (simp add: pipe_closed_def)
  qed
  ultimately show ?thesis unfolding tables_ok_def by blast
qed

lemma children_closed:
  assumes ok: "worker_ok w" and q: "wk_reqs w r = Some q"
  shows "children_ok (pipe_closed fd r q w)"
proof -
  let ?w = "pipe_closed fd r q w"
  note old = children_okD [OF ok]
  have same: "(\<exists>u. wk_reqs ?w k = Some u \<and> ri_pid u = p) \<longleftrightarrow> (\<exists>u. wk_reqs w k = Some u \<and> ri_pid u = p)" for k p
    using q by (simp add: pipe_closed_def)
  then have "p \<in> wk_live ?w \<longleftrightarrow> (\<exists>k u. wk_reqs ?w k = Some u \<and> ri_pid u = p)" for p
    using old(1) [of p] by (simp add: pipe_closed_def)
  moreover have "k = k'" if "wk_reqs ?w k = Some u" "wk_reqs ?w k' = Some u'" "ri_pid u = ri_pid u'" for k k' u u'
    using same [of k "ri_pid u"] same [of k' "ri_pid u'"] that old(2) by metis
  moreover have "\<forall>k\<in>set (wk_kills ?w). snd k" using old(3) by (simp add: pipe_closed_def)
  ultimately show ?thesis unfolding children_ok_def by blast
qed

lemma ok_teardown:
  assumes ok: "worker_ok w" and fd: "wk_fd_map w fd = Some (r, t)"
  shows "worker_ok (teardown_pipe_fd n m reap fd r w)"
proof -
  obtain q where q: "wk_reqs w r = Some q" "fd \<in> ri_open q" using ok fd unfolding worker_ok_def tables_ok_def by blast
  show ?thesis
  proof (cases "ri_open q - {fd} = {}")
    case True
    then show ?thesis by (rule ok_teardown_end [OF ok fd q(1)])
  next
    case False
    let ?w = "pipe_closed fd r q w"
    have eq: "teardown_pipe_fd n m reap fd r w = ?w" using q False by (simp add: teardown_pipe_fd_def pipe_closed_def Let_def)
    have start: "r \<in> wk_started w" using ok q unfolding worker_ok_def tables_ok_def by blast
    have "stream_ok ?w" using ok by (simp add: worker_ok_def stream_ok_def pipe_closed_def)
    moreover have "request_ok k ?w" for k
    proof -
      have "request_ok k w" using ok by (simp add: worker_ok_def)
      moreover have "request_ok k ?w" if "request_ok k w" "k \<noteq> r"
        by (rule request_other [where w = w and ms = "[]" and rs = "[]"]) (use that in \<open>simp_all add: pipe_closed_def\<close>)
      ultimately show ?thesis using q start by (cases "k = r") (simp_all add: request_ok_def pipe_closed_def)
    qed
    ultimately show ?thesis
      unfolding eq using tables_closed [OF ok fd q(1) False] children_closed [OF ok q(1)] by (simp add: worker_ok_def)
  qed
qed

lemma ok_step:
  assumes "wstep w w'" and "worker_ok w"
  shows "worker_ok w'"
  using assms(1)
proof (rule wstep_E)
  fix rs n assume "w' = flush n (w\<lparr>wk_ready := rs\<rparr>)"
  then show ?thesis by (intro worker_ok_cong [OF assms(2)]) (simp_all add: flush_def)
next
  fix rs fork chunk assume "w' = on_ctrl fork chunk (w\<lparr>wk_ready := rs\<rparr>)" "fork_ok fork"
  moreover have "worker_ok (w\<lparr>wk_ready := rs\<rparr>)" by (rule worker_ok_cong [OF assms(2)]) simp_all
  ultimately show ?thesis by (simp add: ok_on_ctrl)
next
  fix fd rs and data :: bytes and n m reap
  assume a: "w' = on_pipe_readable n m reap data fd (w\<lparr>wk_ready := rs\<rparr>)" "length data \<le> 65536"
  have ok: "worker_ok (w\<lparr>wk_ready := rs\<rparr>)" by (rule worker_ok_cong [OF assms(2)]) simp_all
  show ?thesis
    unfolding a(1) on_pipe_readable_def using ok ok_pipe_data [OF ok _ a(2)] ok_teardown [OF ok]
    by (auto split: option.split)
next
  assume "w' = w\<lparr>wk_exit := Some 0\<rparr>"
  then show ?thesis by (intro worker_ok_cong [OF assms(2)]) simp_all
qed

lemma worker_reach: "wreach w \<Longrightarrow> worker_ok w"
  unfolding wreach_def
proof (induction rule: rtranclp_induct)
  case base
  show ?case
    by (simp add: worker_init_def worker_ok_def stream_ok_def tables_ok_def children_ok_def request_ok_def)
qed (rule ok_step)

section \<open>The outbound buffer\<close>

text \<open>Runs in which at most \<open>k\<close> pipes are open whenever a round is selected.\<close>

inductive wruns :: "nat \<Rightarrow> worker \<Rightarrow> bool" for k where
    wruns_init: "wruns k worker_init"
  | wruns_step: "wruns k w \<Longrightarrow> card (dom (wk_fd_map w)) \<le> k \<Longrightarrow> wstep w w' \<Longrightarrow> wruns k w'"

lemma wruns_reach: "wruns k w \<Longrightarrow> wreach w"
proof (induction rule: wruns.induct)
  case wruns_init
  show ?case by (simp add: wreach_def)
next
  case (wruns_step w w')
  then show ?case unfolding wreach_def by (metis rtranclp.rtrancl_into_rtrancl)
qed

text \<open>What handling one ready pipe may add: the longest frame.\<close>

definition max_frame :: nat where
  "max_frame = 65536 + HEADER_SIZE"

fun is_pipe :: "ready \<Rightarrow> bool" where
  "is_pipe (Pipe fd) = True"
| "is_pipe Ctrl = False"

definition pipes_left :: "worker \<Rightarrow> nat" where
  "pipes_left w = length (filter is_pipe (wk_ready w))"

lemma out_flush: "length (wk_out (flush n w)) \<le> length (wk_out w)"
  by (simp add: flush_def)

lemma out_send: "length (wk_out (send n t r d w)) \<le> length (wk_out w) + HEADER_SIZE + length d"
  unfolding send_def by (rule order_trans [OF out_flush]) simp

lemma out_ctrl_frames: "wk_out (ctrl_frames fork w) = wk_out w \<and> wk_ready (ctrl_frames fork w) = wk_ready w"
proof (induction fork w rule: ctrl_frames.induct)
  case (1 fork w)
  have "wk_out (handle_run r c u) = wk_out u" "wk_ready (handle_run r c u) = wk_ready u"
      "wk_out (handle_kill r u) = wk_out u" "wk_ready (handle_kill r u) = wk_ready u" for r c u
    by (simp_all add: handle_run_def handle_kill_def split: prod.split option.split)
  with 1 show ?case
    by (simp add: ctrl_frames.simps [of fork w] Let_def split: frame_head.split option.split)
qed

lemma out_on_ctrl: "wk_out (on_ctrl fork chunk w) = wk_out w" "wk_ready (on_ctrl fork chunk w) = wk_ready w"
  by (simp_all add: on_ctrl_def out_ctrl_frames split: option.split)

lemma out_teardown:
  "length (wk_out (teardown_pipe_fd n m reap fd r w)) \<le> length (wk_out w) + max_frame"
  "wk_ready (teardown_pipe_fd n m reap fd r w) = wk_ready w"
proof -
  have two: "length (wk_out (send m t r (u32_to_be_bytes c) u)) \<le> length (wk_out w) + max_frame"
    if "length (wk_out u) \<le> length (wk_out w) + HEADER_SIZE + 18" for t u c
    by (rule order_trans [OF out_send]) (use that in \<open>simp add: max_frame_def HEADER_SIZE_def\<close>)
  have killed: "length (wk_out (send n t r terminated_msg u)) \<le> length (wk_out u) + HEADER_SIZE + 18" for t u
    by (rule order_trans [OF out_send]) (simp add: terminated_msg_def str_bytes_def)
  show "length (wk_out (teardown_pipe_fd n m reap fd r w)) \<le> length (wk_out w) + max_frame"
    unfolding teardown_pipe_fd_def Let_def
    by (auto intro!: two order_trans [OF killed] split: option.split reap.split)
  show "wk_ready (teardown_pipe_fd n m reap fd r w) = wk_ready w"
    by (simp add: teardown_pipe_fd_def Let_def split: option.split reap.split)
qed

lemma out_on_pipe:
  assumes "length data \<le> 65536"
  shows "length (wk_out (on_pipe_readable n m reap data fd w)) \<le> length (wk_out w) + max_frame"
    "wk_ready (on_pipe_readable n m reap data fd w) = wk_ready w"
proof -
  have "length (wk_out (send m t r data (w\<lparr>wk_reads := l\<rparr>))) \<le> length (wk_out w) + max_frame" for t r l
    by (rule order_trans [OF out_send]) (use assms in \<open>simp add: max_frame_def\<close>)
  then show "length (wk_out (on_pipe_readable n m reap data fd w)) \<le> length (wk_out w) + max_frame"
    using out_teardown(1) by (auto simp: on_pipe_readable_def split: option.split)
  show "wk_ready (on_pipe_readable n m reap data fd w) = wk_ready w"
    using out_teardown(2) by (simp add: on_pipe_readable_def split: option.split)
qed

lemma finite_ctrl_frames: "finite (dom (wk_fd_map w)) \<Longrightarrow> finite (dom (wk_fd_map (ctrl_frames fork w)))"
proof (induction fork w rule: ctrl_frames.induct)
  case (1 fork w)
  have "finite (dom (wk_fd_map (handle_run r c u))) = finite (dom (wk_fd_map u))"
      "wk_fd_map (handle_kill r u) = wk_fd_map u" for r c u
    by (simp_all add: handle_run_def handle_kill_def split: prod.split option.split)
  with 1 show ?case
    by (simp add: ctrl_frames.simps [of fork w] Let_def split: frame_head.split option.split)
qed

lemma finite_fds_step:
  assumes "wstep w w'" and "finite (dom (wk_fd_map w))"
  shows "finite (dom (wk_fd_map w'))"
proof -
  have "finite (dom (wk_fd_map (teardown_pipe_fd n m reap fd r u)))" if "finite (dom (wk_fd_map u))" for n m reap fd r u
    using that by (simp add: teardown_pipe_fd_def Let_def split: option.split reap.split)
  then have "finite (dom (wk_fd_map (on_pipe_readable n m reap data fd u)))" if "finite (dom (wk_fd_map u))" for n m reap data fd u
    using that by (simp add: on_pipe_readable_def split: option.split)
  with assms show ?thesis
    by (cases rule: wstep.cases) (simp_all add: on_ctrl_def finite_ctrl_frames split: option.split)
qed

lemma selected_pipes:
  assumes "distinct rs" and "set rs \<subseteq> selectable w" and "finite (dom (wk_fd_map w))"
  shows "length (filter is_pipe rs) \<le> (if length (wk_out w) < SEND_BUF_CAP then card (dom (wk_fd_map w)) else 0)"
proof -
  have "set (filter is_pipe rs) \<subseteq> (if length (wk_out w) < SEND_BUF_CAP then Pipe ` dom (wk_fd_map w) else {})"
    using assms(2) by (auto simp: selectable_def split: if_splits)
  moreover have "length (filter is_pipe rs) = card (set (filter is_pipe rs))"
    by (rule distinct_card [symmetric]) (simp add: assms(1))
  ultimately show ?thesis
    using card_mono [of "Pipe ` dom (wk_fd_map w)" "set (filter is_pipe rs)"] card_image_le [of "dom (wk_fd_map w)" Pipe] assms(3)
    by (auto split: if_splits)
qed

lemma out_bounded:
  assumes "wruns k w"
  shows "length (wk_out w) + max_frame * pipes_left w \<le> SEND_BUF_CAP + max_frame * k \<and> finite (dom (wk_fd_map w))"
  using assms
proof (induction rule: wruns.induct)
  case wruns_init
  show ?case by (simp add: worker_init_def pipes_left_def)
next
  case (wruns_step w w')
  have "length (wk_out w') + max_frame * pipes_left w' \<le> SEND_BUF_CAP + max_frame * k"
    using wruns_step.hyps(3)
  proof (cases rule: wstep.cases)
    case (select rs n)
    let ?n = "length (filter is_pipe rs)"
    have out: "length (wk_out w') \<le> length (wk_out w)" "pipes_left w' = ?n"
      unfolding select(1) pipes_left_def using out_flush [of n "w\<lparr>wk_ready := rs\<rparr>"] by simp_all
    note sel = selected_pipes [OF select(4,5)]
    show ?thesis
    proof (cases "length (wk_out w) < SEND_BUF_CAP")
      case True
      then have "?n \<le> k" using sel wruns_step by simp
      then have "max_frame * ?n \<le> max_frame * k" by simp
      with True out(1) show ?thesis unfolding out(2) by linarith
    next
      case False
      then have "?n = 0" using sel wruns_step by simp
      with out wruns_step show ?thesis by simp
    qed
  next
    case (ctrl rs fork chunk)
    with wruns_step show ?thesis by (simp add: out_on_ctrl pipes_left_def)
  next
    case (pipe fd rs data n m reap)
    have "length (wk_out w') \<le> length (wk_out w) + max_frame" "wk_ready w' = rs"
      unfolding pipe(1) using out_on_pipe [OF pipe(4), of n m reap fd "w\<lparr>wk_ready := rs\<rparr>"] by simp_all
    moreover have "pipes_left w = Suc (length (filter is_pipe rs))" by (simp add: pipes_left_def pipe(3))
    ultimately show ?thesis using wruns_step.IH by (simp add: pipes_left_def)
  next
    case server_gone
    with wruns_step show ?thesis by (simp add: pipes_left_def)
  qed
  with finite_fds_step wruns_step show ?case by blast
qed

section \<open>A run\<close>

text \<open>One request: its child writes one byte and exits with code 1.\<close>

definition demo_fork :: "worker \<Rightarrow> u32 \<Rightarrow> bytes \<Rightarrow> (pid \<times> fd \<times> fd) option" where
  "demo_fork w r p =
     (if r \<notin> wk_started w \<and> 7 \<notin> wk_live w \<and> wk_fd_map w 8 = None \<and> wk_fd_map w 9 = None then Some (7, 8, 9) else None)"

definition demo_worker :: worker where
  "demo_worker =
     \<lparr>wk_recv_buf = [], wk_out = [], wk_reqs = Map.empty, wk_fd_map = Map.empty, wk_ready = [], wk_exit = None, wk_started = {1},
      wk_msgs = [(MSG_STDOUT, 1, [104]), (MSG_DONE, 1, u32_to_be_bytes 1)],
      wk_sent = encode_frame MSG_STDOUT 1 [104] @ encode_frame MSG_DONE 1 (u32_to_be_bytes 1),
      wk_reads = [(MSG_STDOUT, 1, [104])], wk_codes = [1 \<mapsto> 1], wk_live = {}, wk_kills = []\<rparr>"

lemma flush_zero: "flush 0 w = w"
  by (simp add: flush_def)

lemma ready_reset: "wk_ready w = [] \<Longrightarrow> w\<lparr>wk_ready := rs, wk_ready := []\<rparr> = w" "wk_ready w = [] \<Longrightarrow> w\<lparr>wk_ready := []\<rparr> = w"
  by simp_all

lemma reach_ctrl:
  assumes "wreach w" and "wk_exit w = None" and "wk_ready w = []" and "fork_ok fork"
  shows "wreach (on_ctrl fork chunk w)"
proof -
  let ?u = "w\<lparr>wk_ready := [Ctrl]\<rparr>"
  have "wstep w ?u" using wstep.select [of w "[Ctrl]" 0] assms by (simp add: selectable_def flush_zero)
  moreover have "wstep ?u (on_ctrl fork chunk w)"
    using wstep.ctrl [of ?u "[]" fork chunk] assms ready_reset [OF assms(3)] by simp
  ultimately show ?thesis using assms(1) unfolding wreach_def by (meson rtranclp.rtrancl_into_rtrancl)
qed

text \<open>A step that is not a read of the control socket.\<close>

definition local_step :: "worker \<Rightarrow> worker \<Rightarrow> bool" where
  "local_step w w' \<longleftrightarrow> wstep w w' \<and> (\<forall>rs. wk_ready w \<noteq> Ctrl # rs)"

lemma local_reach: "local_step\<^sup>*\<^sup>* w w' \<Longrightarrow> wreach w \<Longrightarrow> wreach w'"
  by (induction rule: rtranclp_induct)
    (auto simp: wreach_def local_step_def intro: rtranclp.rtrancl_into_rtrancl)

lemma local_pipe:
  assumes "wk_exit w = None" and "wk_ready w = []" and "Pipe fd \<in> selectable w" and "length data \<le> 65536"
  shows "local_step\<^sup>*\<^sup>* w (on_pipe_readable n m reap data fd w)"
proof -
  let ?u = "w\<lparr>wk_ready := [Pipe fd]\<rparr>"
  have "local_step w ?u" using wstep.select [of w "[Pipe fd]" 0] assms by (simp add: local_step_def flush_zero)
  moreover have "local_step ?u (on_pipe_readable n m reap data fd w)"
    using wstep.pipe [of ?u fd "[]" data n m reap] assms ready_reset [OF assms(2)] by (simp add: local_step_def)
  ultimately show ?thesis by (meson rtranclp.rtrancl_into_rtrancl rtranclp.rtrancl_refl)
qed

definition demo_started :: worker where
  "demo_started = handle_run 1 (7, 8, 9) worker_init"

lemma demo_ctrl: "on_ctrl demo_fork (Some (encode_frame MSG_RUN 1 [])) worker_init = demo_started"
proof -
  have frame: "next_frame MAX_FRAME_PAYLOAD (encode_frame MSG_RUN 1 []) = Frame MSG_RUN 1 [] []"
    using next_frame_encode [of MAX_FRAME_PAYLOAD MSG_RUN 1 "[]" "[]"] by (simp add: fits_def)
  have short: "next_frame MAX_FRAME_PAYLOAD [] = Incomplete" by (simp add: next_frame_short HEADER_SIZE_def)
  have buf: "worker_init\<lparr>wk_recv_buf := []\<rparr> = worker_init"
      "wk_recv_buf worker_init = []" by (simp_all add: worker_init_def)
  have "encode_frame MSG_RUN 1 [] \<noteq> []" by (simp add: encode_frame_bytes)
  moreover have "demo_fork worker_init 1 [] = Some (7, 8, 9)" by (simp add: demo_fork_def worker_init_def)
  moreover have "ctrl_frames demo_fork (handle_run 1 (7, 8, 9) worker_init) = handle_run 1 (7, 8, 9) worker_init"
    by (simp add: ctrl_frames.simps buf(2) short)
  ultimately show ?thesis
    by (simp add: demo_started_def on_ctrl_def ctrl_frames.simps [of demo_fork "worker_init\<lparr>wk_recv_buf := _\<rparr>"] frame buf Let_def)
qed

lemma demo_run: "local_step\<^sup>*\<^sup>* demo_started demo_worker"
proof -
  let ?w2 = "on_pipe_readable 0 10 No_child [104] 8 demo_started"
  let ?w3 = "on_pipe_readable 0 0 No_child [] 9 ?w2"
  let ?w4 = "on_pipe_readable 0 13 (Zombie 256) [] 8 ?w3"
  note run = on_pipe_readable_def teardown_pipe_fd_def demo_started_def handle_run_def worker_init_def selectable_def SEND_BUF_CAP_def
    HEADER_SIZE_def send_def flush_def Let_def
  have "local_step\<^sup>*\<^sup>* demo_started ?w2" by (rule local_pipe) (simp_all add: run)
  also have "local_step\<^sup>*\<^sup>* ?w2 ?w3" by (rule local_pipe) (simp_all add: run)
  also have "local_step\<^sup>*\<^sup>* ?w3 ?w4" by (rule local_pipe) (simp_all add: run)
  also have "?w4 = demo_worker"
    by (simp add: run demo_worker_def exit_code_of_def waitstatus_to_exitcode_def insert_Diff_if)
  finally show ?thesis .
qed

lemma demo_worker_reach: "wreach demo_worker"
proof (rule local_reach [OF demo_run])
  have "fork_ok demo_fork" by (auto simp: fork_ok_def demo_fork_def split: if_splits)
  then show "wreach demo_started"
    unfolding demo_ctrl [symmetric] by (intro reach_ctrl) (simp_all add: worker_init_def wreach_def)
qed

section \<open>Properties\<close>

text \<open>C9. What the worker sends about a request. Its stream consists of whole frames. Nothing is sent about a
  request that was not started. While a request is in progress, what was read from its two pipes
  has been sent, in order and nothing else. A request that has ended has exactly one frame with
  its exit code, after all of its output and followed by nothing; a notice of termination may stand at
  the end of its error output.\<close>

theorem worker_reports_requests:
  assumes "wreach w"
  shows "wk_sent w @ wk_out w = concat (map encode_message (wk_msgs w))
    \<and> (r \<notin> wk_started w \<longrightarrow> absent r (wk_msgs w))
    \<and> (wk_reqs w r \<noteq> None \<longrightarrow> no_done r (wk_msgs w)
        \<and> stream_of MSG_STDOUT r (wk_msgs w) = stream_of MSG_STDOUT r (wk_reads w)
        \<and> stream_of MSG_STDERR r (wk_msgs w) = stream_of MSG_STDERR r (wk_reads w))
    \<and> (r \<in> wk_started w \<and> wk_reqs w r = None \<longrightarrow>
        (\<exists>code ms1 ms2. wk_codes w r = Some code
           \<and> wk_msgs w = ms1 @ (MSG_DONE, r, u32_to_be_bytes code) # ms2 \<and> no_done r ms1 \<and> absent r ms2
           \<and> stream_of MSG_STDOUT r ms1 = stream_of MSG_STDOUT r (wk_reads w)
           \<and> stream_of MSG_STDERR r ms1 \<in>
               {stream_of MSG_STDERR r (wk_reads w), stream_of MSG_STDERR r (wk_reads w) @ terminated_msg}))"
proof -
  note ok = worker_reach [OF assms]
  have "stream_ok w" "request_ok r w" "wk_reqs w r \<noteq> None \<longrightarrow> r \<in> wk_started w"
    using ok tables_okD(2) [OF ok, of r] by (auto simp: worker_ok_def)
  then show ?thesis
    unfolding stream_ok_def request_ok_def ended_ok_def by (simp split: if_splits)
qed

theorem worker_reports_requests_witness:
  "wk_sent demo_worker @ wk_out demo_worker = concat (map encode_message (wk_msgs demo_worker)) \<and> absent 2 (wk_msgs demo_worker)"
  using worker_reports_requests [OF demo_worker_reach, of 2] by (simp add: demo_worker_def)

text \<open>C28. No child is lost while the worker runs: the children that exist are exactly those of the requests in progress, each
  the child of one request, so none is left running or unreaped; and the worker has never signalled a
  process that was not its child at that moment.\<close>

theorem worker_children_accounted:
  assumes "wreach w" and "wk_exit w = None"
  shows "(\<forall>pid. pid \<in> wk_live w \<longleftrightarrow> (\<exists>r q. wk_reqs w r = Some q \<and> ri_pid q = pid))
    \<and> (\<forall>r r' q q'. wk_reqs w r = Some q \<and> wk_reqs w r' = Some q' \<and> ri_pid q = ri_pid q' \<longrightarrow> r = r')
    \<and> (\<forall>k\<in>set (wk_kills w). snd k)"
  using children_okD [OF worker_reach [OF assms(1)]] by blast

theorem worker_children_accounted_witness: "wk_live demo_worker = {}"
  using worker_children_accounted [OF demo_worker_reach _] by (simp add: demo_worker_def)

text \<open>C29. Backpressure: the outbound buffer is bounded. As long as at most \<open>k\<close> pipes are open at a time it never
  holds more than its cap and one longest frame for each of them, however slowly the server reads
  and however fast the children write.\<close>

theorem worker_buffer_bounded:
  assumes "wruns k w"
  shows "length (wk_out w) \<le> SEND_BUF_CAP + k * (65536 + HEADER_SIZE)"
proof -
  have "length (wk_out w) + max_frame * pipes_left w \<le> SEND_BUF_CAP + max_frame * k" using out_bounded [OF assms] by blast
  then show ?thesis by (simp add: max_frame_def mult.commute)
qed

theorem worker_buffer_bounded_witness: "length (wk_out worker_init) \<le> SEND_BUF_CAP + 8 * (65536 + HEADER_SIZE)"
  by (rule worker_buffer_bounded) (rule wruns_init)

end
