(* ===== verification/Zygote_Link.thy ===== *)
theory Zygote_Link
  imports Zygote_Worker
begin

text \<open>
  The two ends of the control socket together: the stream that the worker of \<^verbatim>\<open>pool/zygote_worker.py\<close>
  produces, read by the reader task of \<^verbatim>\<open>services/zygote.rs\<close>.
\<close>

section \<open>Facts\<close>

lemma delivered_grows: "set (delivered z) \<subseteq> set (delivered (fold (handle_frame mx) ms z))"
proof (induction ms arbitrary: z)
  case (Cons m ms)
  with delivered_mono_handle_frame [of z mx m] show ?case by fastforce
qed simp

text \<open>The worker and the server read the status of a child that has ended in the same way.\<close>

lemma exit_conventions_agree: "st AND 0x7F \<noteq> 0x7F \<Longrightarrow> waitstatus_to_exitcode st = exit_code_from_status st"
  by (simp add: waitstatus_to_exitcode_def exit_code_from_status_def status_signal_def status_code_def Let_def)

text \<open>The last message of a request is not among the messages before its first.\<close>

lemma ended_after:
  assumes "ended_ok r w" and "wk_msgs w = seen @ ms" and "absent r seen"
  shows "\<exists>code ms1 ms2. wk_codes w r = Some code \<and> ms = ms1 @ (MSG_DONE, r, u32_to_be_bytes code) # ms2 \<and> no_done r ms1
    \<and> stream_of MSG_STDOUT r ms1 = stream_of MSG_STDOUT r (wk_reads w)
    \<and> stream_of MSG_STDERR r ms1 \<in> {stream_of MSG_STDERR r (wk_reads w), stream_of MSG_STDERR r (wk_reads w) @ terminated_msg}"
proof -
  obtain code ms0 ms2 where e: "wk_codes w r = Some code"
      "wk_msgs w = ms0 @ (MSG_DONE, r, u32_to_be_bytes code) # ms2" "no_done r ms0"
      "stream_of MSG_STDOUT r ms0 = stream_of MSG_STDOUT r (wk_reads w)"
      "stream_of MSG_STDERR r ms0 \<in> {stream_of MSG_STDERR r (wk_reads w), stream_of MSG_STDERR r (wk_reads w) @ terminated_msg}"
    using assms(1) unfolding ended_ok_def by blast
  have "seen @ ms = ms0 @ (MSG_DONE, r, u32_to_be_bytes code) # ms2" using assms(2) e(2) by simp
  then obtain us where us: "ms0 = seen @ us" "ms = us @ (MSG_DONE, r, u32_to_be_bytes code) # ms2"
  proof (cases "length seen \<le> length ms0")
    case True
    with \<open>seen @ ms = _\<close> have "seen = take (length seen) ms0"
        "ms = drop (length seen) ms0 @ (MSG_DONE, r, u32_to_be_bytes code) # ms2"
      by (simp_all add: append_eq_append_conv_if)
    then show ?thesis using that [of "drop (length seen) ms0"] by (metis append_take_drop_id)
  next
    case False
    with \<open>seen @ ms = _\<close> obtain vs where "seen = ms0 @ vs" "vs @ ms = (MSG_DONE, r, u32_to_be_bytes code) # ms2" "vs \<noteq> []"
      by (auto simp: append_eq_append_conv2)
    then show ?thesis using assms(3) by (cases vs) auto
  qed
  have "stream_of t r ms0 = stream_of t r us" for t by (simp add: us(1) absent_stream [OF assms(3)])
  with e(1,3-5) us show ?thesis by (intro exI [of _ code] exI [of _ us] exI [of _ ms2]) simp
qed

subsection \<open>From the server to the worker\<close>

text \<open>The handling of one control message, and what it needs of the fork: that it succeeds and does not depend
  on the receive buffer.\<close>

definition ctrl_message :: "(worker \<Rightarrow> u32 \<Rightarrow> bytes \<Rightarrow> (pid \<times> fd \<times> fd) option) \<Rightarrow> message \<Rightarrow> worker \<Rightarrow> worker" where
  "ctrl_message fork m w =
     (case m of (mtype, req_id, payload) \<Rightarrow>
        if mtype = MSG_RUN then (case fork w req_id payload of None \<Rightarrow> w | Some child \<Rightarrow> handle_run req_id child w)
        else if mtype = MSG_KILL then handle_kill req_id w
        else w)"

definition forks :: "(worker \<Rightarrow> u32 \<Rightarrow> bytes \<Rightarrow> (pid \<times> fd \<times> fd) option) \<Rightarrow> bool" where
  "forks fork \<longleftrightarrow> (\<forall>w r p b. fork w r p \<noteq> None \<and> fork (w\<lparr>wk_recv_buf := b\<rparr>) r p = fork w r p)"

lemma handlers_recv_buf:
  "handle_run r c (w\<lparr>wk_recv_buf := b\<rparr>) = (handle_run r c w)\<lparr>wk_recv_buf := b\<rparr>"
  "handle_kill r (w\<lparr>wk_recv_buf := b\<rparr>) = (handle_kill r w)\<lparr>wk_recv_buf := b\<rparr>"
  by (simp_all add: handle_run_def handle_kill_def sigkill_def split: prod.split option.split)

lemma ctrl_message_recv_buf: "forks fork \<Longrightarrow> ctrl_message fork m (w\<lparr>wk_recv_buf := b\<rparr>) = (ctrl_message fork m w)\<lparr>wk_recv_buf := b\<rparr>"
  by (auto simp: ctrl_message_def forks_def handlers_recv_buf split: prod.split option.split)

lemma ctrl_frames_encoded:
  assumes "forks fork" and "list_all (fits MAX_FRAME_PAYLOAD) ms" and "next_frame MAX_FRAME_PAYLOAD rest = Incomplete"
  shows "ctrl_frames fork (w\<lparr>wk_recv_buf := concat (map encode_message ms) @ rest\<rparr>) = (fold (ctrl_message fork) ms w)\<lparr>wk_recv_buf := rest\<rparr>"
  using assms(2)
proof (induction ms arbitrary: w)
  case Nil
  then show ?case using assms(3) by (subst ctrl_frames.simps) simp
next
  case (Cons m ms)
  obtain t r p where m: "m = (t, r, p)" by (cases m) auto
  let ?rest = "concat (map encode_message ms) @ rest"
  have "next_frame MAX_FRAME_PAYLOAD (encode_message m @ ?rest) = Frame t r p ?rest"
    using Cons.prems unfolding m encode_message_def by (simp add: next_frame_encode)
  moreover obtain child where "fork w r p = Some child" using assms(1) unfolding forks_def by blast
  moreover have "fork (w\<lparr>wk_recv_buf := b\<rparr>) r p = fork w r p" for b using assms(1) by (simp add: forks_def)
  ultimately have "ctrl_frames fork (w\<lparr>wk_recv_buf := encode_message m @ ?rest\<rparr>) =
      ctrl_frames fork ((ctrl_message fork m w)\<lparr>wk_recv_buf := ?rest\<rparr>)"
    by (subst ctrl_frames.simps) (simp add: m ctrl_message_def handlers_recv_buf Let_def)
  with Cons show ?case by simp
qed

text \<open>A piece of an encoded stream: whole messages, and the beginning of the next.\<close>

lemma encoded_prefix:
  assumes "list_all (fits mx) ms" and "a @ b = concat (map encode_message ms)"
  shows "\<exists>ms1 ms2 c. ms = ms1 @ ms2 \<and> a = concat (map encode_message ms1) @ c \<and> c @ b = concat (map encode_message ms2)
    \<and> next_frame mx c = Incomplete"
  using assms
proof (induction ms arbitrary: a)
  case Nil
  then show ?case by (intro exI [of _ "[]"]) (simp add: next_frame_short HEADER_SIZE_def)
next
  case (Cons m ms)
  obtain t r p where m: "m = (t, r, p)" by (cases m) auto
  have whole: "next_frame mx (a @ b) = Frame t r p (concat (map encode_message ms))"
    using Cons.prems unfolding m encode_message_def by (simp add: next_frame_encode)
  show ?case
  proof (cases "next_frame mx a")
    case Incomplete
    with Cons.prems show ?thesis by (intro exI [of _ "[]"] exI [of _ "m # ms"] exI [of _ a]) simp
  next
    case (Oversized n)
    with whole show ?thesis by (simp add: next_frame_append)
  next
    case (Frame t' r' p' rest)
    then have "next_frame mx (a @ b) = Frame t' r' p' (rest @ b)" by (simp add: next_frame_append)
    with whole have eq: "t' = t" "r' = r" "p' = p" "rest @ b = concat (map encode_message ms)" by simp_all
    then obtain ms1 ms2 c where "ms = ms1 @ ms2" "rest = concat (map encode_message ms1) @ c"
        "c @ b = concat (map encode_message ms2)" "next_frame mx c = Incomplete"
      using Cons.IH [of rest] Cons.prems(1) by auto
    moreover have "a = encode_message m @ rest" using next_frame_decoded(1) [OF Frame] eq by (simp add: m encode_message_def)
    ultimately show ?thesis by (intro exI [of _ "m # ms1"] exI [of _ ms2] exI [of _ c]) simp
  qed
qed

lemma complete_at_end:
  assumes "list_all (fits mx) ms" and "next_frame mx (concat (map encode_message ms)) = Incomplete"
  shows "ms = []"
proof (cases ms)
  case (Cons m ms')
  obtain t r p where "m = (t, r, p)" by (cases m) auto
  with Cons assms show ?thesis by (simp add: encode_message_def next_frame_encode)
qed

lemma ctrl_stream:
  assumes "forks fork" and "list_all (fits MAX_FRAME_PAYLOAD) ms" and "[] \<notin> set chunks"
    and "wk_recv_buf w @ concat chunks = concat (map encode_message ms)" and "next_frame MAX_FRAME_PAYLOAD (wk_recv_buf w) = Incomplete"
  shows "fold (\<lambda>c. on_ctrl fork (Some c)) chunks w = (fold (ctrl_message fork) ms w)\<lparr>wk_recv_buf := []\<rparr>"
  using assms(2-)
proof (induction chunks arbitrary: w ms)
  case Nil
  then have "ms = []" using complete_at_end by (metis append_Nil2 concat.simps(1))
  with Nil show ?case by simp
next
  case (Cons a chunks)
  obtain ms1 ms2 c where p: "ms = ms1 @ ms2" "wk_recv_buf w @ a = concat (map encode_message ms1) @ c"
      "c @ concat chunks = concat (map encode_message ms2)" "next_frame MAX_FRAME_PAYLOAD c = Incomplete"
    using encoded_prefix [OF Cons.prems(1), of "wk_recv_buf w @ a" "concat chunks"] Cons.prems(3) by auto
  let ?w = "(fold (ctrl_message fork) ms1 w)\<lparr>wk_recv_buf := c\<rparr>"
  have "on_ctrl fork (Some a) w = ?w"
    using ctrl_frames_encoded [OF assms(1) _ p(4), of ms1 w] Cons.prems(1,2) by (auto simp: on_ctrl_def p(1,2))
  moreover have "fold (\<lambda>c. on_ctrl fork (Some c)) chunks ?w = (fold (ctrl_message fork) ms2 ?w)\<lparr>wk_recv_buf := []\<rparr>"
    using Cons.prems(1,2) p by (intro Cons.IH) simp_all
  moreover have "fold (ctrl_message fork) ms2 (u\<lparr>wk_recv_buf := b\<rparr>) = (fold (ctrl_message fork) ms2 u)\<lparr>wk_recv_buf := b\<rparr>" for u b
    by (induction ms2 arbitrary: u) (simp_all add: ctrl_message_recv_buf [OF assms(1)])
  ultimately show ?case by (simp add: p(1))
qed

subsection \<open>What the server writes\<close>

definition is_kill :: "message \<Rightarrow> bool" where
  "is_kill m \<longleftrightarrow> (\<exists>r. m = (MSG_KILL, r, []))"

definition writes_kills :: "zygote \<Rightarrow> zygote \<Rightarrow> bool" where
  "writes_kills z z' \<longleftrightarrow> (\<exists>ms. written z' = written z @ map encode_message ms \<and> (\<forall>m\<in>set ms. is_kill m))"

lemma writes_kills_refl: "written z' = written z \<Longrightarrow> writes_kills z z'"
  unfolding writes_kills_def by (rule exI [of _ "[]"]) simp

lemma writes_kills_trans:
  assumes "writes_kills a b" and "writes_kills b c"
  shows "writes_kills a c"
proof -
  obtain ms ms' where "written b = written a @ map encode_message ms" "written c = written b @ map encode_message ms'"
      "\<forall>m\<in>set ms. is_kill m" "\<forall>m\<in>set ms'. is_kill m"
    using assms unfolding writes_kills_def by blast
  then show ?thesis unfolding writes_kills_def by (intro exI [of _ "ms @ ms'"]) auto
qed

lemma writes_kills_one: "written z' = written z @ [encode_frame MSG_KILL r []] \<Longrightarrow> writes_kills z z'"
  unfolding writes_kills_def by (rule exI [of _ "[(MSG_KILL, r, [])]"]) (simp add: encode_message_def is_kill_def)

lemma written_match_send: "written (match_send t d p z) = written z" "written (send_opt tx v z) = written z"
  by (simp_all add: match_send_def send_opt_def split: option.split)

lemma writes_kills_frame: "writes_kills z (handle_frame mx m (z\<lparr>frame_buf := b\<rparr>))"
proof (cases m)
  case (fields t r d)
  let ?z = "handle_frame mx m (z\<lparr>frame_buf := b\<rparr>)"
  have "written ?z = written z \<or> written ?z = written z @ [encode_frame MSG_KILL r []]"
    by (auto simp: fields handle_frame_def write_frame_def remove_pending_def Let_def written_match_send split: option.split)
  then show ?thesis using writes_kills_refl writes_kills_one by blast
qed

lemma writes_kills_lost: "writes_kills z (connection_lost z)" "writes_kills z (stop z)"
  by (rule writes_kills_refl, simp add: connection_lost_def stop_def fail_pending_def)+

lemma writes_kills_read: "on_read mx res z = (z', ok) \<Longrightarrow> writes_kills z z'"
  by (rule on_read_invariant)
    (auto intro: writes_kills_refl writes_kills_trans [OF _ writes_kills_frame] writes_kills_trans [OF _ writes_kills_lost(1)]
      writes_kills_trans [OF _ writes_kills_refl])

text \<open>The messages are requests of calls, each under the number the call has drawn, and kills; and the
  request of a call that waits is among them.\<close>

definition request_of :: "(chan \<Rightarrow> bytes) \<Rightarrow> chan list \<Rightarrow> message \<Rightarrow> bool" where
  "request_of payload calls m \<longleftrightarrow> (\<exists>k<length calls. m = (MSG_RUN, of_nat (Suc k), payload (calls ! k)))"

definition sent_number :: "run_pc \<Rightarrow> u32 \<Rightarrow> bool" where
  "sent_number pc r \<longleftrightarrow> pc = Waiting r \<or> pc = Expired r \<or> (\<exists>v. pc = Received r v)"

definition writes_ok :: "(chan \<Rightarrow> bytes) \<Rightarrow> zsys \<Rightarrow> bool" where
  "writes_ok payload s \<longleftrightarrow> (\<exists>ms. written (mgr s) = map encode_message ms
     \<and> (\<forall>m\<in>set ms. request_of payload (issued s) m \<or> is_kill m)
     \<and> (\<forall>c r. sent_number (pcs s c) r \<longrightarrow> (MSG_RUN, r, payload c) \<in> set ms))"

lemma request_of_later:
  assumes "request_of payload calls m"
  shows "request_of payload (calls @ [c]) m"
proof -
  obtain k where "k < length calls" "m = (MSG_RUN, of_nat (Suc k), payload (calls ! k))"
    using assms unfolding request_of_def by blast
  then show ?thesis unfolding request_of_def by (intro exI [of _ k]) (simp add: nth_append)
qed

lemma writes_ok_kills:
  assumes "writes_ok payload s" and "writes_kills (mgr s) (mgr t)" and "issued t = issued s"
    and "\<And>c r. sent_number (pcs t c) r \<Longrightarrow> sent_number (pcs s c) r"
  shows "writes_ok payload t"
proof -
  obtain ms ms' where "written (mgr s) = map encode_message ms" "\<forall>m\<in>set ms. request_of payload (issued s) m \<or> is_kill m"
      "\<forall>c r. sent_number (pcs s c) r \<longrightarrow> (MSG_RUN, r, payload c) \<in> set ms"
      "written (mgr t) = written (mgr s) @ map encode_message ms'" "\<forall>m\<in>set ms'. is_kill m"
    using assms(1,2) unfolding writes_ok_def writes_kills_def by blast
  with assms(3,4) show ?thesis unfolding writes_ok_def by (intro exI [of _ "ms @ ms'"]) auto
qed

lemma writes_ok_step:
  assumes "zstep mx payload s t" and "writes_ok payload s" and "ids_ok s"
  shows "writes_ok payload t"
  using assms(1)
proof cases
  case (numbered c r z)
  then have t: "written (mgr t) = written (mgr s)" "issued t = issued s @ [c]"
      "\<And>c r. sent_number (pcs t c) r \<Longrightarrow> sent_number (pcs s c) r"
    by (auto simp: take_id_def sent_number_def split: if_splits)
  obtain ms where ms: "written (mgr s) = map encode_message ms" "\<forall>m\<in>set ms. request_of payload (issued s) m \<or> is_kill m"
      "\<forall>c r. sent_number (pcs s c) r \<longrightarrow> (MSG_RUN, r, payload c) \<in> set ms"
    using assms(2) unfolding writes_ok_def by blast
  have "\<forall>m\<in>set ms. request_of payload (issued t) m \<or> is_kill m" using ms(2) request_of_later unfolding t(2) by blast
  with t(1,3) ms(1,3) show ?thesis unfolding writes_ok_def by (intro exI [of _ ms]) simp
next
  case (sent c r)
  have "id_of (pcs s c) = Some r" by (simp add: sent(2))
  then obtain k where k: "k < length (issued s)" "issued s ! k = c" "r = of_nat (Suc k)"
    using assms(3) unfolding ids_ok_def by blast
  obtain ms where ms: "written (mgr s) = map encode_message ms" "\<forall>m\<in>set ms. request_of payload (issued s) m \<or> is_kill m"
      "\<forall>c r. sent_number (pcs s c) r \<longrightarrow> (MSG_RUN, r, payload c) \<in> set ms"
    using assms(2) unfolding writes_ok_def by blast
  have "request_of payload (issued s) (MSG_RUN, r, payload c)" unfolding request_of_def using k by (intro exI [of _ k]) simp
  moreover have "sent_number (pcs t d) r' \<longrightarrow> (MSG_RUN, r', payload d) \<in> set (ms @ [(MSG_RUN, r, payload c)])" for d r'
    using ms(3) by (auto simp: sent(1) sent_number_def split: if_splits)
  ultimately show ?thesis
    unfolding writes_ok_def using ms(1,2) by (intro exI [of _ "ms @ [(MSG_RUN, r, payload c)]"])
      (auto simp: sent(1) write_frame_def encode_message_def)
next
  case (reader res z alive)
  show ?thesis by (rule writes_ok_kills [OF assms(2)]) (simp_all add: reader(1) writes_kills_read [OF reader(3)])
next
  case stopped
  show ?thesis by (rule writes_ok_kills [OF assms(2)]) (simp_all add: stopped writes_kills_lost(2))
next
  case (return_expired c r)
  then show ?thesis
    by (intro writes_ok_kills [OF assms(2)] writes_kills_one [of _ _ r])
      (auto simp: expire_def write_frame_def remove_pending_def sent_number_def split: if_splits)
qed (rule writes_ok_kills [OF assms(2)]; (rule writes_kills_refl)?; simp add: register_def remove_pending_def sent_number_def split: if_splits)+

lemma writes_ok_reach: "zreach mx payload s \<Longrightarrow> writes_ok payload s"
proof (rule zreach_invariant)
  show "writes_ok payload init_zsys"
    by (auto simp: writes_ok_def init_zsys_def new_manager_def sent_number_def)
  show "writes_ok payload t" if "zreach mx payload s" "writes_ok payload s" "zstep mx payload s t" for s t
    using writes_ok_step [OF that(3,2)] zreach_ids_ok [OF that(1)] by blast
qed

text \<open>A request that was read is started, and the other messages do not undo it.\<close>

lemma started_mono: "wk_started w \<subseteq> wk_started (ctrl_message fork m w)" "wk_recv_buf (ctrl_message fork m w) = wk_recv_buf w"
  by (auto simp: ctrl_message_def handle_run_def handle_kill_def split: prod.split option.split)

lemma started_fold:
  assumes "forks fork" and "(MSG_RUN, r, p) \<in> set ms \<or> r \<in> wk_started w"
  shows "r \<in> wk_started (fold (ctrl_message fork) ms w)"
  using assms(2)
proof (induction ms arbitrary: w)
  case (Cons m ms)
  have "r \<in> wk_started (ctrl_message fork (MSG_RUN, r, p) w)"
  proof -
    obtain pid a b where "fork w r p = Some (pid, a, b)" using assms(1) unfolding forks_def by (metis not_None_eq prod_cases3)
    then show ?thesis by (simp add: ctrl_message_def handle_run_def)
  qed
  with Cons started_mono(1) [of w fork m] show ?case by auto
qed simp

lemma fold_recv_buf: "wk_recv_buf (fold (ctrl_message fork) ms w) = wk_recv_buf w"
  by (induction ms arbitrary: w) (simp_all add: started_mono(2))

section \<open>Properties\<close>

text \<open>C7. From the pipes of a child to the answer of the server. The worker has ended a request and sent
  everything. The server has read the frames of its stream up to a point before the first frame about
  the request, a call waits for the request, and then the rest of the stream is read, in whatever pieces.
  Then the call is answered with exactly what the child wrote to its standard output, what it wrote
  to its standard error, perhaps with the notice of termination, and its exit code. The cap must
  admit a frame of the worker and the output of the request.\<close>

theorem zygote_end_to_end:
  assumes w: "wreach w" "r \<in> wk_started w" "wk_reqs w r = None" "wk_out w = []"
    and seen: "wk_msgs w = seen @ ms" "absent r seen" "concat (map encode_message seen) @ chunk @ concat chunks = wk_sent w"
    and z: "frame_buf z = []" "map_of (pending_map z) r = Some \<lparr>p_out = [], p_err = [], p_tx = Some c\<rparr>"
    and chunks: "chunk \<noteq> []" "[] \<notin> set chunks"
    and cap: "65536 \<le> mx"
      "length (stream_of MSG_STDOUT r (wk_reads w)) + length (stream_of MSG_STDERR r (wk_reads w) @ terminated_msg) \<le> mx"
  shows "\<exists>z' err code. read_loop mx (ReadOk chunk # map ReadOk chunks) z = (z', True) \<and> wk_codes w r = Some code
    \<and> err \<in> {stream_of MSG_STDERR r (wk_reads w), stream_of MSG_STDERR r (wk_reads w) @ terminated_msg}
    \<and> (c, lossy (stream_of MSG_STDOUT r (wk_reads w)), lossy err, code) \<in> set (delivered z')"
proof -
  note ok = worker_reach [OF w(1)]
  have "stream_ok w" "request_ok r w" using ok by (simp_all add: worker_ok_def)
  then have bytes: "chunk @ concat chunks = concat (map encode_message ms)"
      and small: "\<forall>m\<in>set (wk_msgs w). length (snd (snd m)) \<le> 65536" and "ended_ok r w"
    using w(2-4) seen(3) by (simp_all add: stream_ok_def request_ok_def seen(1))
  then obtain code ms1 ms2 where e: "wk_codes w r = Some code"
      "ms = ms1 @ (MSG_DONE, r, u32_to_be_bytes code) # ms2" "no_done r ms1"
      "stream_of MSG_STDOUT r ms1 = stream_of MSG_STDOUT r (wk_reads w)"
      "stream_of MSG_STDERR r ms1 \<in> {stream_of MSG_STDERR r (wk_reads w), stream_of MSG_STDERR r (wk_reads w) @ terminated_msg}"
    using ended_after [OF _ seen(1,2)] by blast
  have fits: "list_all (fits mx) ms"
  proof -
    have "fits mx m" if "m \<in> set ms" for m
      using bspec [OF small, of m] that cap(1) by (auto simp: fits_def seen(1) split: prod.split)
    then show ?thesis by (simp add: list_all_iff)
  qed
  let ?z1 = "fold (handle_frame mx) ms1 z" let ?z2 = "handle_frame mx (MSG_DONE, r, u32_to_be_bytes code) ?z1"
  have "read_loop mx (ReadOk chunk # map ReadOk chunks) z = (fold (handle_frame mx) ms z, True)"
    by (rule encoded_stream_read [OF fits z(1) chunks bytes])
  moreover have "map_of (pending_map ?z1) r =
      Some \<lparr>p_out = stream_of MSG_STDOUT r ms1, p_err = stream_of MSG_STDERR r ms1, p_tx = Some c\<rparr>"
    using collect_output [OF z(2) e(3), of mx] cap(2) e(4,5) by auto
  from handle_done [OF this, of c mx "u32_to_be_bytes code"]
  have "(c, lossy (stream_of MSG_STDOUT r ms1), lossy (stream_of MSG_STDERR r ms1), code) \<in> set (delivered ?z2)"
    by (simp add: done_exit_code_packed)
  then have "(c, lossy (stream_of MSG_STDOUT r ms1), lossy (stream_of MSG_STDERR r ms1), code)
      \<in> set (delivered (fold (handle_frame mx) ms z))"
    using delivered_grows [of ?z2 mx ms2] by (auto simp: e(2))
  ultimately show ?thesis using e by metis
qed

theorem zygote_end_to_end_witness:
  "\<exists>z' err. read_loop 70000 [ReadOk (take 3 (wk_sent demo_worker)), ReadOk (drop 3 (wk_sent demo_worker))]
      \<lparr>running = True, next_id = 2, pending_map = [(1, \<lparr>p_out = [], p_err = [], p_tx = Some 5\<rparr>)], frame_buf = [], delivered = [],
       written = []\<rparr> = (z', True) \<and> (5, lossy [104], lossy err, 1) \<in> set (delivered z')"
proof -
  let ?z = "\<lparr>running = True, next_id = 2, pending_map = [(1, \<lparr>p_out = [], p_err = [], p_tx = Some 5\<rparr>)], frame_buf = [],
    delivered = [], written = []\<rparr>"
  have len: "length (wk_sent demo_worker) = 23" by (simp add: demo_worker_def HEADER_SIZE_def)
  have "\<exists>z' err code. read_loop 70000 (ReadOk (take 3 (wk_sent demo_worker)) # map ReadOk [drop 3 (wk_sent demo_worker)]) ?z = (z', True)
    \<and> wk_codes demo_worker 1 = Some code
    \<and> err \<in> {stream_of MSG_STDERR 1 (wk_reads demo_worker), stream_of MSG_STDERR 1 (wk_reads demo_worker) @ terminated_msg}
    \<and> (5, lossy (stream_of MSG_STDOUT 1 (wk_reads demo_worker)), lossy err, code) \<in> set (delivered z')"
  proof (rule zygote_end_to_end [OF demo_worker_reach, where seen = "[]" and ms = "wk_msgs demo_worker"])
    show "concat (map encode_message []) @ take 3 (wk_sent demo_worker) @ concat [drop 3 (wk_sent demo_worker)] = wk_sent demo_worker"
      by simp
    show "take 3 (wk_sent demo_worker) \<noteq> []" "[] \<notin> set [drop 3 (wk_sent demo_worker)]"
      using len by (simp_all flip: length_0_conv del: length_0_conv)
  qed (simp_all add: demo_worker_def msg_defs terminated_msg_def str_bytes_def)
  then show ?thesis by (simp add: demo_worker_def msg_defs) blast
qed



end
