(* ===== verification/Zygote_System.thy ===== *)
theory Zygote_System
  imports Zygote_Link
begin

text \<open>
  The zygote as a whole: the manager in the server with its concurrent calls (\<open>Zygote_Run\<close>), the worker with its
  children (\<open>Zygote_Worker\<close>), and the socket between them. The two run concurrently; each
  reads what the other has written, in pieces of any size and at any time. What the worker had to assume of the
  server, that the number of a request is not used twice, is shown here.
\<close>

section \<open>Model\<close>

text \<open>Both ends, and how many bytes of the other's stream each has read.\<close>

record link =
  srv :: zsys
  wrk :: worker
  fed :: nat
  got :: nat

definition link_init :: link where
  "link_init = \<lparr>srv = init_zsys, wrk = worker_init, fed = 0, got = 0\<rparr>"

text \<open>What is on its way in the socket.\<close>

definition uplink :: "link \<Rightarrow> bytes" where
  "uplink s = drop (fed s) (concat (written (mgr (srv s))))"

definition downlink :: "link \<Rightarrow> bytes" where
  "downlink s = drop (got s) (wk_sent (wrk s))"

text \<open>A fork yields a process that is not a child already and descriptors that are not in use.\<close>

definition fork_fresh :: "(worker \<Rightarrow> u32 \<Rightarrow> bytes \<Rightarrow> (pid \<times> fd \<times> fd) option) \<Rightarrow> bool" where
  "fork_fresh fork \<longleftrightarrow> (\<forall>w r p pid a b. fork w r p = Some (pid, a, b) \<longrightarrow>
     pid \<notin> wk_live w \<and> a \<noteq> b \<and> wk_fd_map w a = None \<and> wk_fd_map w b = None)"

text \<open>
  A step of the system: a step of a call, which changes where the call stands; the stop of the manager; a
  read of the reader, of bytes that the worker has sent, or one that fails; a step of the worker on its own;
  and a read of the worker, of bytes that the server has written, of nothing, or of the end of the stream.
\<close>

inductive link_step :: "nat \<Rightarrow> (chan \<Rightarrow> bytes) \<Rightarrow> link \<Rightarrow> link \<Rightarrow> bool" for mx payload where
  call: "zstep mx payload (srv s) z \<Longrightarrow> pcs z \<noteq> pcs (srv s) \<Longrightarrow> link_step mx payload s (s\<lparr>srv := z\<rparr>)"
| stop: "link_step mx payload s (s\<lparr>srv := (srv s)\<lparr>mgr := stop (mgr (srv s)), reader_alive := False\<rparr>\<rparr>)"
| read: "reader_alive (srv s) \<Longrightarrow> data = take n (downlink s) \<Longrightarrow> data \<noteq> [] \<Longrightarrow> on_read mx (ReadOk data) (mgr (srv s)) = (z, alive) \<Longrightarrow>
    link_step mx payload s (s\<lparr>srv := (srv s)\<lparr>mgr := z, reader_alive := alive\<rparr>, got := got s + length data\<rparr>)"
| lost: "reader_alive (srv s) \<Longrightarrow> res = ReadErr \<or> res = ReadOk [] \<Longrightarrow> on_read mx res (mgr (srv s)) = (z, alive) \<Longrightarrow>
    link_step mx payload s (s\<lparr>srv := (srv s)\<lparr>mgr := z, reader_alive := alive\<rparr>\<rparr>)"
| work: "wstep (wrk s) w \<Longrightarrow> (\<forall>rs. wk_ready (wrk s) \<noteq> Ctrl # rs) \<Longrightarrow> link_step mx payload s (s\<lparr>wrk := w\<rparr>)"
| ctrl: "wk_exit (wrk s) = None \<Longrightarrow> wk_ready (wrk s) = Ctrl # rs \<Longrightarrow> fork_fresh fork \<Longrightarrow> data = take n (uplink s) \<Longrightarrow> data \<noteq> [] \<Longrightarrow>
    link_step mx payload s (s\<lparr>wrk := on_ctrl fork (Some data) ((wrk s)\<lparr>wk_ready := rs\<rparr>), fed := fed s + length data\<rparr>)"
| ctrl_none: "wk_exit (wrk s) = None \<Longrightarrow> wk_ready (wrk s) = Ctrl # rs \<Longrightarrow> chunk = None \<or> chunk = Some [] \<Longrightarrow>
    link_step mx payload s (s\<lparr>wrk := on_ctrl fork chunk ((wrk s)\<lparr>wk_ready := rs\<rparr>)\<rparr>)"

definition link_reach :: "nat \<Rightarrow> (chan \<Rightarrow> bytes) \<Rightarrow> link \<Rightarrow> bool" where
  "link_reach mx payload s = (link_step mx payload)\<^sup>*\<^sup>* link_init s"

section \<open>Invariants\<close>

abbreviation encoded :: "message list \<Rightarrow> bytes" where
  "encoded ms \<equiv> concat (map encode_message ms)"

text \<open>The numbers of the requests among messages; the number a call has drawn; a call that has been past sending.\<close>

definition run_ids :: "message list \<Rightarrow> u32 list" where
  "run_ids ms = map (fst \<circ> snd) (filter (\<lambda>m. fst m = MSG_RUN) ms)"

definition number_of :: "zsys \<Rightarrow> chan \<Rightarrow> u32 \<Rightarrow> bool" where
  "number_of z c r \<longleftrightarrow> (\<exists>k<length (issued z). issued z ! k = c \<and> r = of_nat (Suc k))"

fun past_send :: "run_pc \<Rightarrow> bool" where
  "past_send (Waiting r) = True"
| "past_send (Received r v) = True"
| "past_send (Expired r) = True"
| "past_send (Returned v) = True"
| "past_send pc = False"

text \<open>What the server has written: requests of calls, each once, and kills.\<close>

definition server_message :: "(chan \<Rightarrow> bytes) \<Rightarrow> zsys \<Rightarrow> message \<Rightarrow> bool" where
  "server_message payload z m \<longleftrightarrow> is_kill m \<or> (\<exists>c r. m = (MSG_RUN, r, payload c) \<and> number_of z c r \<and> past_send (pcs z c))"

definition server_ok :: "(chan \<Rightarrow> bytes) \<Rightarrow> zsys \<Rightarrow> message list \<Rightarrow> bool" where
  "server_ok payload z sms \<longleftrightarrow> written (mgr z) = map encode_message sms \<and> distinct (run_ids sms)
     \<and> list_all (server_message payload z) sms"

text \<open>What the worker has read of it: whole messages, and what is in its buffer.\<close>

definition up_ok :: "link \<Rightarrow> message list \<Rightarrow> bool" where
  "up_ok s sms \<longleftrightarrow> fed s \<le> length (encoded sms)
     \<and> (\<exists>cms rms. sms = cms @ rms \<and> take (fed s) (encoded sms) = encoded cms @ wk_recv_buf (wrk s)
          \<and> wk_started (wrk s) \<subseteq> set (run_ids cms))"

text \<open>What the reader has read of the worker's messages.\<close>

definition down_ok :: "nat \<Rightarrow> link \<Rightarrow> message list \<Rightarrow> bool" where
  "down_ok mx s hs \<longleftrightarrow> got s \<le> length (wk_sent (wrk s)) \<and> (\<exists>us. wk_msgs (wrk s) = hs @ us)
     \<and> (reader_alive (srv s) \<longrightarrow> take (got s) (wk_sent (wrk s)) = encoded hs @ frame_buf (mgr (srv s))
          \<and> next_frame mx (frame_buf (mgr (srv s))) = Incomplete)"

text \<open>An entry that can still be answered has collected exactly the output of its request.\<close>

definition entries_ok :: "zygote \<Rightarrow> message list \<Rightarrow> bool" where
  "entries_ok z hs \<longleftrightarrow> (\<forall>r p c. map_of (pending_map z) r = Some p \<and> p_tx p = Some c \<longrightarrow>
     p_out p = stream_of MSG_STDOUT r hs \<and> p_err p = stream_of MSG_STDERR r hs \<and> no_done r hs)"

text \<open>An answer tells of a failure, or it is the output and the exit code of the call's own request.\<close>

definition limit_answers :: "nat \<Rightarrow> response set" where
  "limit_answers mx = {v. snd v = (limit_message mx, - 1)}"

definition failures :: "nat \<Rightarrow> response set" where
  "failures mx = {([], ''zygote connection lost'', - 1), ([], ''zygote stopped'', - 1)} \<union> limit_answers mx"

definition own_answer :: "u32 \<Rightarrow> message list \<Rightarrow> response \<Rightarrow> bool" where
  "own_answer r hs v \<longleftrightarrow> (\<exists>ms1 ms2 d. hs = ms1 @ (MSG_DONE, r, d) # ms2 \<and> no_done r ms1
     \<and> v = (lossy (stream_of MSG_STDOUT r ms1), lossy (stream_of MSG_STDERR r ms1), done_exit_code d))"

definition answers_ok :: "response set \<Rightarrow> (chan \<Rightarrow> u32 \<Rightarrow> bool) \<Rightarrow> zygote \<Rightarrow> message list \<Rightarrow> bool" where
  "answers_ok fs number z hs \<longleftrightarrow> (\<forall>c v. (c, v) \<in> set (delivered z) \<longrightarrow> v \<in> fs \<or> (\<exists>r. number c r \<and> own_answer r hs v))"

text \<open>As long as the reader runs the only failure it reports is that the output has passed the cap.\<close>

definition allowed :: "nat \<Rightarrow> zsys \<Rightarrow> response set" where
  "allowed mx z = (if reader_alive z then limit_answers mx else failures mx)"

lemma allowed_range: "limit_answers mx \<subseteq> allowed mx z" "allowed mx z \<subseteq> failures mx"
  by (auto simp: allowed_def failures_def)

definition link_ok :: "nat \<Rightarrow> (chan \<Rightarrow> bytes) \<Rightarrow> link \<Rightarrow> bool" where
  "link_ok mx payload s \<longleftrightarrow> (\<exists>sms hs. server_ok payload (srv s) sms \<and> up_ok s sms \<and> down_ok mx s hs
     \<and> entries_ok (mgr (srv s)) hs \<and> answers_ok (allowed mx (srv s)) (number_of (srv s)) (mgr (srv s)) hs)"

section \<open>The server's side\<close>

lemma run_ids_append [simp]: "run_ids (a @ b) = run_ids a @ run_ids b"
  by (simp add: run_ids_def)

lemma run_ids_kills: "\<forall>m\<in>set ms. is_kill m \<Longrightarrow> run_ids ms = []"
  by (auto simp: run_ids_def is_kill_def msg_defs filter_empty_conv)

lemma number_of_unique:
  assumes "length (issued z) \<le> 2 ^ 32" and "number_of z c r" and "number_of z d r"
  shows "c = d"
proof -
  obtain i j where ij: "i < length (issued z)" "issued z ! i = c" "r = of_nat (Suc i)"
      "j < length (issued z)" "issued z ! j = d" "r = of_nat (Suc j)"
    using assms(2,3) unfolding number_of_def by blast
  have "unat (of_nat i :: u32) = unat (of_nat j :: u32)" using ij(3,6) by simp
  then have "i = j" using ij(1,4) assms(1) by (simp add: unat_of_nat)
  with ij show ?thesis by simp
qed

lemma number_of_later: "number_of z c r \<Longrightarrow> issued z' = issued z @ l \<Longrightarrow> number_of z' c r"
proof -
  assume n: "number_of z c r" and l: "issued z' = issued z @ l"
  from n obtain k where "k < length (issued z)" "issued z ! k = c" "r = of_nat (Suc k)" unfolding number_of_def by blast
  with l show "number_of z' c r" unfolding number_of_def by (intro exI [of _ k]) (simp add: nth_append)
qed

lemma number_of_id:
  assumes "ids_ok z" and "id_of (pcs z c) = Some r"
  shows "number_of z c r"
  using assms unfolding ids_ok_def number_of_def by blast

text \<open>What a step of a call leaves alone.\<close>

lemma mgr_ops_fields [simp]:
  "frame_buf (register r c z) = frame_buf z" "delivered (register r c z) = delivered z" "written (register r c z) = written z"
  "frame_buf (expire r z) = frame_buf z" "delivered (expire r z) = delivered z"
  "written (expire r z) = written z @ [encode_frame MSG_KILL r []]"
  "frame_buf (remove_pending r z) = frame_buf z" "delivered (remove_pending r z) = delivered z" "written (remove_pending r z) = written z"
  "frame_buf (write_frame f z) = frame_buf z" "delivered (write_frame f z) = delivered z" "written (write_frame f z) = written z @ [f]"
  by (simp_all add: register_def expire_def remove_pending_def write_frame_def)

lemma call_step_frame:
  assumes "zstep mx payload z z'" and "pcs z' \<noteq> pcs z"
  shows "delivered (mgr z') = delivered (mgr z)" and "reader_alive z' = reader_alive z" and "frame_buf (mgr z') = frame_buf (mgr z)"
    and "past_send (pcs z c) \<Longrightarrow> past_send (pcs z' c)" and "\<exists>l. issued z' = issued z @ l"
  using assms by (cases rule: zstep.cases; auto simp: take_id_def)+

lemma server_ok_later:
  assumes "server_ok payload z sms" and "written (mgr z') = written (mgr z) @ map encode_message new" and "issued z' = issued z @ l"
    and "\<And>c. past_send (pcs z c) \<Longrightarrow> past_send (pcs z' c)" and "distinct (run_ids sms @ run_ids new)"
    and "list_all (server_message payload z') new"
  shows "server_ok payload z' (sms @ new)"
proof -
  have "server_message payload z' m" if "server_message payload z m" for m
    using that number_of_later [OF _ assms(3)] assms(4) unfolding server_message_def by metis
  then have "list_all (server_message payload z') sms" using assms(1) by (auto simp: server_ok_def list_all_iff)
  with assms show ?thesis by (simp add: server_ok_def)
qed

text \<open>A number that is drawn and not sent yet is not among the numbers sent.\<close>

lemma unsent_number:
  assumes "server_ok payload z sms" and "length (issued z) \<le> 2 ^ 32" and "number_of z c r" and "\<not> past_send (pcs z c)"
  shows "r \<notin> set (run_ids sms)"
proof
  assume "r \<in> set (run_ids sms)"
  then obtain m where m: "m \<in> set sms" "fst m = MSG_RUN" "fst (snd m) = r" by (auto simp: run_ids_def)
  then have "server_message payload z m" using assms(1) by (simp add: server_ok_def list_all_iff)
  with m obtain d where "number_of z d r" "past_send (pcs z d)" by (auto simp: server_message_def is_kill_def msg_defs)
  with number_of_unique [OF assms(2,3)] assms(4) show False by blast
qed

lemma server_call:
  assumes "zstep mx payload z z'" and "pcs z' \<noteq> pcs z" and "zreach mx payload z" and "server_ok payload z sms" and "length (issued z) \<le> 2 ^ 32"
  shows "\<exists>new. server_ok payload z' (sms @ new)"
proof -
  note frame = call_step_frame [OF assms(1,2)]
  obtain l where l: "issued z' = issued z @ l" using frame(5) by blast
  have same: "server_ok payload z' (sms @ [])" if "written (mgr z') = written (mgr z)"
    using that frame(4) assms(4) by (intro server_ok_later [OF assms(4) _ l]) (simp_all add: server_ok_def run_ids_def)
  from assms(1) show ?thesis
  proof cases
    case (sent c r)
    have pc: "id_of (pcs z c) = Some r" "\<not> past_send (pcs z c)" by (simp_all add: sent(2))
    have n: "number_of z c r" by (rule number_of_id [OF zreach_ids_ok [OF assms(3)] pc(1)])
    have "r \<notin> set (run_ids sms)" by (rule unsent_number [OF assms(4,5) n pc(2)])
    moreover have "server_message payload z' (MSG_RUN, r, payload c)"
      unfolding server_message_def using number_of_later [OF n l] by (auto simp: sent(1))
    ultimately have "server_ok payload z' (sms @ [(MSG_RUN, r, payload c)])"
      using assms(4) frame(4) by (intro server_ok_later [OF assms(4) _ l])
        (simp_all add: sent(1) server_ok_def run_ids_def encode_message_def)
    then show ?thesis by blast
  next
    case (return_expired c r)
    have "server_ok payload z' (sms @ [(MSG_KILL, r, [])])"
      using assms(4) frame(4) by (intro server_ok_later [OF assms(4) _ l])
        (simp_all add: return_expired(1) server_ok_def run_ids_def encode_message_def server_message_def is_kill_def msg_defs)
    then show ?thesis by blast
  next
    case (reader res zz alive)
    with assms(2) show ?thesis by simp
  next
    case stopped
    with assms(2) show ?thesis by simp
  next
    case (numbered c r zz)
    then have "written (mgr z') = written (mgr z)" by (auto simp: take_id_def)
    from same [OF this] show ?thesis by blast
  qed (rule exI, rule same, simp)+
qed

section \<open>The reader\<close>

text \<open>Every sender in the table belongs to a call that has drawn the number of the entry.\<close>

definition owned :: "(chan \<Rightarrow> u32 \<Rightarrow> bool) \<Rightarrow> zygote \<Rightarrow> bool" where
  "owned number z \<longleftrightarrow> (\<forall>r p c. map_of (pending_map z) r = Some p \<and> p_tx p = Some c \<longrightarrow> number c r)"

lemma owned_reach:
  assumes "zreach mx payload z"
  shows "owned (number_of z) (mgr z)"
  using zreach_owners_ok [OF assms] number_of_id [OF zreach_ids_ok [OF assms]] id_of_holds
  unfolding owned_def owners_ok_def by blast

lemma owned_handle_frame: "owned number z \<Longrightarrow> owned number (handle_frame mx m z)"
  using table_shrinks_handle_frame [of z mx m] unfolding owned_def table_shrinks_def by fastforce

lemma stream_of_snoc: "stream_of t r (hs @ [(t', r', d)]) = stream_of t r hs @ (if t' = t \<and> r' = r then d else [])"
  by simp

lemma entries_handle_frame:
  assumes "entries_ok z hs"
  shows "entries_ok (handle_frame mx m z) (hs @ [m])"
proof (cases m)
  case (fields t r' d)
  show ?thesis
    unfolding entries_ok_def
  proof (intro allI impI, elim conjE)
    fix r p c
    assume p: "map_of (pending_map (handle_frame mx m z)) r = Some p" "p_tx p = Some c"
    show "p_out p = stream_of MSG_STDOUT r (hs @ [m]) \<and> p_err p = stream_of MSG_STDERR r (hs @ [m]) \<and> no_done r (hs @ [m])"
    proof (cases "r' = r")
      case False
      then have "map_of (pending_map z) r = Some p" using p(1) by (simp add: fields handle_frame_other)
      then have "p_out p = stream_of MSG_STDOUT r hs" "p_err p = stream_of MSG_STDERR r hs" "no_done r hs"
        using assms p(2) unfolding entries_ok_def by blast+
      with False show ?thesis by (simp add: fields)
    next
      case True
      then obtain q where q: "map_of (pending_map z) r = Some q" "p = match_entry t d q"
        using p(1) by (auto simp: fields pending_map_handle_frame table_simps split: option.splits if_splits)
      then have "p_tx q = Some c" "t \<noteq> MSG_DONE" using p(2) by (auto simp: match_entry_def msg_defs split: if_splits)
      with assms q(1) have "p_out q = stream_of MSG_STDOUT r hs" "p_err q = stream_of MSG_STDERR r hs" "no_done r hs"
        unfolding entries_ok_def by blast+
      with q(2) True \<open>t \<noteq> MSG_DONE\<close> show ?thesis by (auto simp: fields match_entry_def msg_defs)
    qed
  qed
qed

lemma own_answer_later: "own_answer r hs v \<Longrightarrow> own_answer r (hs @ us) v"
  unfolding own_answer_def by force

lemma answers_later: "answers_ok fs number z hs \<Longrightarrow> answers_ok fs number z (hs @ us)"
  using own_answer_later unfolding answers_ok_def by blast

text \<open>A frame answers the call of its own entry or none.\<close>

lemma delivered_handle_frame:
  assumes "(c, v) \<in> set (delivered (handle_frame mx (t, r, d) z))" and "(c, v) \<notin> set (delivered z)"
  shows "\<exists>p. map_of (pending_map z) r = Some p \<and> p_tx p = Some c
    \<and> (snd v = (limit_message mx, - 1) \<or> t = MSG_DONE \<and> v = (lossy (p_out p), lossy (p_err p), done_exit_code d))"
proof (cases "map_of (pending_map z) r")
  case None
  with assms show ?thesis by (simp add: handle_frame_unknown)
next
  case (Some p)
  let ?q = "match_entry t d p"
  show ?thesis
  proof (cases "over_limit mx t ?q")
    case True
    then have "p_tx ?q = p_tx p" "t \<noteq> MSG_DONE" by (auto simp: over_limit_def match_entry_def msg_defs)
    with assms Some True show ?thesis
      by (cases "p_tx p") (auto simp: handle_frame_def match_send_def send_opt_def Let_def)
  next
    case False
    with assms Some show ?thesis
      by (cases "p_tx p") (auto simp: handle_frame_def match_send_def send_opt_def Let_def split: if_splits)
  qed
qed

lemma answers_handle_frame:
  assumes "answers_ok fs number z hs" and "entries_ok z hs" and "owned number z" and "limit_answers mx \<subseteq> fs"
  shows "answers_ok fs number (handle_frame mx m z) (hs @ [m])"
proof -
  obtain t r d where m: "m = (t, r, d)" by (cases m) auto
  have old: "v \<in> fs \<or> (\<exists>r. number c r \<and> own_answer r (hs @ [m]) v)" if "(c, v) \<in> set (delivered z)" for c v
    using answers_later [OF assms(1), of "[m]"] that unfolding answers_ok_def by blast
  have "v \<in> fs \<or> (\<exists>r. number c r \<and> own_answer r (hs @ [m]) v)"
    if v: "(c, v) \<in> set (delivered (handle_frame mx m z))" for c v
  proof (cases "(c, v) \<in> set (delivered z)")
    case False
    then obtain p where p: "map_of (pending_map z) r = Some p" "p_tx p = Some c"
        "snd v = (limit_message mx, - 1) \<or> t = MSG_DONE \<and> v = (lossy (p_out p), lossy (p_err p), done_exit_code d)"
      using delivered_handle_frame [OF v [unfolded m]] by blast
    have "p_out p = stream_of MSG_STDOUT r hs" "p_err p = stream_of MSG_STDERR r hs" "no_done r hs" "number c r"
      using assms(2,3) p(1,2) unfolding entries_ok_def owned_def by blast+
    note e = this
    from p(3) have "v \<in> fs \<or> own_answer r (hs @ [m]) v"
    proof
      assume "t = MSG_DONE \<and> v = (lossy (p_out p), lossy (p_err p), done_exit_code d)"
      with e show ?thesis unfolding own_answer_def m by (intro disjI2 exI [of _ hs] exI [of _ "[]"] exI [of _ d]) simp
    qed (use assms(4) in \<open>auto simp: limit_answers_def\<close>)
    with e(4) show ?thesis by blast
  qed (rule old)
  then show ?thesis unfolding answers_ok_def by blast
qed

lemma reader_handles:
  assumes "entries_ok z hs" and "answers_ok fs number z hs" and "owned number z" and "limit_answers mx \<subseteq> fs"
  shows "entries_ok (fold (handle_frame mx) us z) (hs @ us) \<and> answers_ok fs number (fold (handle_frame mx) us z) (hs @ us)
    \<and> owned number (fold (handle_frame mx) us z)"
  using assms
proof (induction us arbitrary: z hs)
  case (Cons m us)
  from Cons.IH [OF entries_handle_frame [OF Cons.prems(1)] answers_handle_frame [OF Cons.prems(2,1,3,4)] owned_handle_frame [OF Cons.prems(3)] Cons.prems(4)]
  show ?case by simp
qed simp

section \<open>The worker's side\<close>

text \<open>What a step of the worker on its own leaves alone, and what a control frame does.\<close>

lemma teardown_fields:
  "wk_recv_buf (teardown_pipe_fd n m reap fd r w) = wk_recv_buf w" "wk_started (teardown_pipe_fd n m reap fd r w) = wk_started w"
  by (simp_all add: teardown_pipe_fd_def Let_def split: option.split reap.split)

lemma on_pipe_fields:
  "wk_recv_buf (on_pipe_readable n m reap data fd w) = wk_recv_buf w" "wk_started (on_pipe_readable n m reap data fd w) = wk_started w"
  by (simp_all add: on_pipe_readable_def teardown_fields split: option.split)

definition grows :: "worker \<Rightarrow> worker \<Rightarrow> bool" where
  "grows w w' \<longleftrightarrow> (\<exists>ms. wk_msgs w' = wk_msgs w @ ms) \<and> (\<exists>bs. wk_sent w' = wk_sent w @ bs)"

lemma grows_refl: "wk_msgs w' = wk_msgs w \<Longrightarrow> wk_sent w' = wk_sent w \<Longrightarrow> grows w w'"
  by (simp add: grows_def)

lemma grows_trans: "grows a b \<Longrightarrow> grows b c \<Longrightarrow> grows a c"
  unfolding grows_def by (metis append.assoc)

lemma grows_flush: "grows w (flush n w)"
  by (simp add: grows_def flush_def)

lemma grows_send: "grows w (send n t r d w)"
  unfolding send_def by (rule grows_trans [OF _ grows_flush]) (simp add: grows_def)

lemma grows_teardown: "grows w (teardown_pipe_fd n m reap fd r w)"
proof (cases "wk_reqs w r")
  case None
  then show ?thesis by (simp add: teardown_pipe_fd_def grows_refl)
next
  case (Some req)
  have finish: "grows w (send m MSG_DONE r d u)" if "grows w u" for d u by (rule grows_trans [OF that grows_send])
  have notice: "grows w (sigkill p (send n MSG_STDERR r d u))" if "grows w u" for p d u
    using grows_trans [OF that grows_send] by (simp add: grows_def)
  have upd: "grows w (u\<lparr>wk_live := l, wk_codes := c\<rparr>)" if "grows w u" for u l c using that by (simp add: grows_def)
  have "grows w (w\<lparr>wk_fd_map := a, wk_reqs := b\<rparr>)" "grows w (w\<lparr>wk_fd_map := a\<rparr>)" for a b by (simp_all add: grows_refl)
  with Some show ?thesis
    by (simp add: teardown_pipe_fd_def Let_def split: reap.split) (blast intro: finish notice upd)
qed

lemma grows_pipe: "grows w (on_pipe_readable n m reap data fd w)"
  using grows_teardown by (auto simp: on_pipe_readable_def grows_refl intro: grows_trans [OF grows_refl grows_send] split: option.split)

lemma worker_local:
  assumes "wstep w w'" and "\<forall>rs. wk_ready w \<noteq> Ctrl # rs"
  shows "wk_recv_buf w' = wk_recv_buf w" and "wk_started w' = wk_started w" and "grows w w'"
proof -
  show "wk_recv_buf w' = wk_recv_buf w" "wk_started w' = wk_started w"
    using assms by (cases rule: wstep.cases; simp add: on_pipe_fields)+
  show "grows w w'"
    using assms(1)
  proof cases
    case (select rs n)
    then show ?thesis using grows_trans [OF grows_refl grows_flush] by simp
  next
    case (pipe fd rs data n m reap)
    then show ?thesis using grows_trans [OF grows_refl grows_pipe] by simp
  qed (use assms(2) in \<open>simp_all add: grows_refl\<close>)
qed

lemma ctrl_frames_quiet: "wk_msgs (ctrl_frames fork w) = wk_msgs w \<and> wk_sent (ctrl_frames fork w) = wk_sent w"
proof (induction fork w rule: ctrl_frames.induct)
  case (1 fork w)
  then show ?case
    by (subst (1 2) ctrl_frames.simps)
      (auto simp: Let_def handle_run_def handle_kill_def split: frame_head.splits option.splits prod.splits)
qed

text \<open>Reading a stream of messages whose numbers are new: whole messages are taken off, a fork is asked for numbers
  that are not in use only, and only the requests that were read are started.\<close>

definition once :: "(worker \<Rightarrow> u32 \<Rightarrow> bytes \<Rightarrow> (pid \<times> fd \<times> fd) option) \<Rightarrow> worker \<Rightarrow> u32 \<Rightarrow> bytes \<Rightarrow> (pid \<times> fd \<times> fd) option" where
  "once fork w r p = (if r \<in> wk_started w then None else fork w r p)"

lemma once_fork_ok: "fork_fresh fork \<Longrightarrow> fork_ok (once fork)"
  by (auto simp: fork_fresh_def fork_ok_def once_def)

text \<open>The handling of one control message, and whether the loop goes on.\<close>

definition ctrl_next :: "(worker \<Rightarrow> u32 \<Rightarrow> bytes \<Rightarrow> (pid \<times> fd \<times> fd) option) \<Rightarrow> message \<Rightarrow> worker \<Rightarrow> worker \<times> bool" where
  "ctrl_next fork m w =
     (case m of (mtype, req_id, payload) \<Rightarrow>
        if mtype = MSG_RUN then (case fork w req_id payload of None \<Rightarrow> (w, False) | Some child \<Rightarrow> (handle_run req_id child w, True))
        else if mtype = MSG_KILL then (handle_kill req_id w, True)
        else (w, True))"

lemma ctrl_frames_next:
  assumes "next_frame MAX_FRAME_PAYLOAD (wk_recv_buf w) = Frame t r p b"
  shows "ctrl_frames fork w = (case ctrl_next fork (t, r, p) (w\<lparr>wk_recv_buf := b\<rparr>) of (u, go) \<Rightarrow> if go then ctrl_frames fork u else u)"
  by (subst ctrl_frames.simps) (simp add: assms ctrl_next_def Let_def split: option.split)

lemma ctrl_next_facts:
  assumes "ctrl_next fork m w = (u, go)"
  shows "wk_recv_buf u = wk_recv_buf w" and "wk_started u \<subseteq> wk_started w \<union> set (run_ids [m])"
    and "set (run_ids [m]) \<inter> wk_started w = {} \<Longrightarrow> ctrl_next (once fork) m w = (u, go)"
  using assms by (auto simp: ctrl_next_def once_def run_ids_def handle_run_def handle_kill_def
      split: prod.splits if_splits option.splits)

lemma ctrl_consumes:
  assumes "wk_recv_buf w @ rest = encoded ms" and "list_all (fits MAX_FRAME_PAYLOAD) ms" and "distinct (run_ids ms)"
    and "set (run_ids ms) \<inter> wk_started w = {}"
  shows "ctrl_frames (once fork) w = ctrl_frames fork w
    \<and> (\<exists>ms1 ms2. ms = ms1 @ ms2 \<and> wk_recv_buf w = encoded ms1 @ wk_recv_buf (ctrl_frames fork w)
        \<and> wk_started (ctrl_frames fork w) \<subseteq> wk_started w \<union> set (run_ids ms1))"
  using assms
proof (induction ms arbitrary: w)
  case Nil
  then have "next_frame MAX_FRAME_PAYLOAD (wk_recv_buf w) = Incomplete" by (simp add: next_frame_short HEADER_SIZE_def)
  with Nil show ?case by (simp add: ctrl_frames.simps [of _ w])
next
  case (Cons m ms)
  have stay: ?case if "\<And>f. ctrl_frames f w = w'" "wk_recv_buf w' = wk_recv_buf w" "wk_started w' = wk_started w" for w'
    using that by (intro conjI exI [of _ "[]"] exI [of _ "m # ms"]) simp_all
  show ?case
  proof (cases "next_frame MAX_FRAME_PAYLOAD (wk_recv_buf w)")
    case Incomplete
    then show ?thesis by (intro stay [of w]) (simp_all add: ctrl_frames.simps [of _ w])
  next
    case (Oversized n)
    then show ?thesis by (intro stay [of "w\<lparr>wk_exit := Some 1\<rparr>"]) (simp_all add: ctrl_frames.simps [of _ w])
  next
    case (Frame t r p b)
    have "next_frame MAX_FRAME_PAYLOAD (encoded (m # ms)) = Frame t r p (b @ rest)"
      using next_frame_append(1) [OF Frame, of rest] Cons.prems(1) by simp
    then have m: "m = (t, r, p)" "b @ rest = encoded ms"
      using Cons.prems(2) by (cases m; simp add: encode_message_def next_frame_encode)+
    have buf: "wk_recv_buf w = encode_message m @ b" using next_frame_decoded(1) [OF Frame] by (simp add: m encode_message_def)
    have run: "run_ids (m # c) = run_ids [m] @ run_ids c" for c using run_ids_append [of "[m]" c] by simp
    obtain u go where u: "ctrl_next fork m (w\<lparr>wk_recv_buf := b\<rparr>) = (u, go)" by fastforce
    note f = ctrl_next_facts [OF u]
    have "ctrl_next (once fork) m (w\<lparr>wk_recv_buf := b\<rparr>) = (u, go)" using Cons.prems(4) by (intro f(3)) (auto simp: run [of ms])
    with u have eq: "ctrl_frames fork w = (if go then ctrl_frames fork u else u)"
        "ctrl_frames (once fork) w = (if go then ctrl_frames (once fork) u else u)"
      using ctrl_frames_next [OF Frame] by (simp_all add: m(1))
    show ?thesis
    proof (cases go)
      case False
      with eq buf f(1,2) show ?thesis by (intro conjI exI [of _ "[m]"] exI [of _ ms]) simp_all
    next
      case True
      have "ctrl_frames (once fork) u = ctrl_frames fork u \<and> (\<exists>ms1 ms2. ms = ms1 @ ms2 \<and> wk_recv_buf u = encoded ms1 @ wk_recv_buf (ctrl_frames fork u)
          \<and> wk_started (ctrl_frames fork u) \<subseteq> wk_started u \<union> set (run_ids ms1))"
        using Cons.prems(2-4) f(1,2) m(2) by (intro Cons.IH) (auto simp: run [of ms])
      then obtain c d where c: "ms = c @ d" "b = encoded c @ wk_recv_buf (ctrl_frames fork u)"
          "wk_started (ctrl_frames fork u) \<subseteq> wk_started u \<union> set (run_ids c)" "ctrl_frames (once fork) u = ctrl_frames fork u"
        using f(1) by auto
      with True eq buf f(2) show ?thesis
        by (intro conjI exI [of _ "m # c"] exI [of _ d]) (auto simp: run [of c])
    qed
  qed
qed

section \<open>Every step keeps the invariant\<close>

definition link_inv :: "nat \<Rightarrow> (chan \<Rightarrow> bytes) \<Rightarrow> link \<Rightarrow> bool" where
  "link_inv mx payload s \<longleftrightarrow> zreach mx payload (srv s)
     \<and> (length (issued (srv s)) \<le> 2 ^ 32 \<longrightarrow> wreach (wrk s) \<and> link_ok mx payload s)"

lemma link_okI:
  assumes "server_ok payload (srv s) sms" and "up_ok s sms" and "down_ok mx s hs" and "entries_ok (mgr (srv s)) hs"
    and "answers_ok (allowed mx (srv s)) (number_of (srv s)) (mgr (srv s)) hs"
  shows "link_ok mx payload s"
  using assms unfolding link_ok_def by blast

lemma answers_more:
  assumes old: "answers_ok fs (number_of z) y hs" "issued z' = issued z @ l" and new: "delivered y' = delivered y @ new"
    "\<And>c v. (c, v) \<in> set new \<Longrightarrow> v \<in> fs'" "fs \<subseteq> fs'"
  shows "answers_ok fs' (number_of z') y' hs"
  unfolding answers_ok_def
proof (intro allI impI)
  fix c v assume "(c, v) \<in> set (delivered y')"
  then consider "(c, v) \<in> set new" | "(c, v) \<in> set (delivered y)" using new(1) by auto
  then show "v \<in> fs' \<or> (\<exists>r. number_of z' c r \<and> own_answer r hs v)"
  proof cases
    case 2
    then have "v \<in> fs \<or> (\<exists>r. number_of z c r \<and> own_answer r hs v)" using old(1) unfolding answers_ok_def by blast
    then show ?thesis using new(3) number_of_later [OF _ old(2)] by blast
  qed (simp add: new(2))
qed

lemma up_ok_server:
  assumes "up_ok s sms" and "wrk t = wrk s" and "fed t = fed s"
  shows "up_ok t (sms @ new)"
proof -
  obtain cms rms where "sms = cms @ rms" "take (fed s) (encoded sms) = encoded cms @ wk_recv_buf (wrk s)"
      "wk_started (wrk s) \<subseteq> set (run_ids cms)" "fed s \<le> length (encoded sms)"
    using assms(1) unfolding up_ok_def by blast
  then show ?thesis unfolding up_ok_def assms(2,3)
    by (intro conjI exI [of _ cms] exI [of _ "rms @ new"]) simp_all
qed

text \<open>A number that is not sent yet has not been answered to.\<close>

lemma number_absent:
  assumes "server_ok payload (srv s) sms" and "up_ok s sms" and "down_ok mx s hs" and "wreach (wrk s)" and "length (issued (srv s)) \<le> 2 ^ 32"
    and "number_of (srv s) c r" and "\<not> past_send (pcs (srv s) c)"
  shows "absent r hs"
proof -
  obtain cms rms where c: "sms = cms @ rms" "wk_started (wrk s) \<subseteq> set (run_ids cms)"
    using assms(2) unfolding up_ok_def by blast
  have "r \<notin> set (run_ids sms)" by (rule unsent_number [OF assms(1,5-7)])
  then have "r \<notin> wk_started (wrk s)" using c by auto
  moreover have "request_ok r (wrk s)" using worker_reach [OF assms(4)] by (simp add: worker_ok_def)
  ultimately have "absent r (wk_msgs (wrk s))" by (simp add: request_ok_def)
  then show ?thesis using assms(3) by (auto simp: down_ok_def)
qed

lemma entries_call:
  assumes "zstep mx payload z z'" and "pcs z' \<noteq> pcs z" and "entries_ok (mgr z) hs"
    and new: "\<And>c r. pcs z c = Numbered r \<Longrightarrow> absent r hs"
  shows "entries_ok (mgr z') hs"
proof -
  have sub: ?thesis if "\<And>r p. map_of (pending_map (mgr z')) r = Some p \<Longrightarrow> map_of (pending_map (mgr z)) r = Some p"
    using assms(3) that unfolding entries_ok_def by blast
  from assms(1) show ?thesis
  proof cases
    case (registered c r)
    have "absent r hs" by (rule new [OF registered(2)])
    then have "stream_of MSG_STDOUT r hs = []" "stream_of MSG_STDERR r hs = []" "no_done r hs"
      by (simp_all add: absent_stream absent_no_done)
    then show ?thesis
      using assms(3) unfolding entries_ok_def registered(1) by (auto simp: register_def table_simps split: if_splits)
  next
    case (numbered c r zz)
    then show ?thesis by (intro sub) (auto simp: take_id_def)
  next
    case (reader res zz alive)
    with assms(2) show ?thesis by simp
  next
    case stopped
    with assms(2) show ?thesis by simp
  qed (rule sub, simp add: remove_pending_def expire_def table_simps split: if_splits)+
qed

lemma link_okD:
  assumes "link_ok mx payload s"
  obtains sms hs where "server_ok payload (srv s) sms" "up_ok s sms" "down_ok mx s hs" "entries_ok (mgr (srv s)) hs"
    "answers_ok (allowed mx (srv s)) (number_of (srv s)) (mgr (srv s)) hs"
  using assms unfolding link_ok_def by blast

lemma link_call:
  assumes "zstep mx payload (srv s) z" and "pcs z \<noteq> pcs (srv s)" and "zreach mx payload (srv s)" and "wreach (wrk s)"
    and "link_ok mx payload s" and "length (issued z) \<le> 2 ^ 32"
  shows "link_ok mx payload (s\<lparr>srv := z\<rparr>)"
proof -
  note frame = call_step_frame [OF assms(1,2)]
  obtain sms hs where ok: "server_ok payload (srv s) sms" "up_ok s sms" "down_ok mx s hs" "entries_ok (mgr (srv s)) hs"
      "answers_ok (allowed mx (srv s)) (number_of (srv s)) (mgr (srv s)) hs" by (rule link_okD [OF assms(5)])
  obtain l where l: "issued z = issued (srv s) @ l" using frame(5) by blast
  then have small: "length (issued (srv s)) \<le> 2 ^ 32" using assms(6) by simp
  obtain new where new: "server_ok payload z (sms @ new)" using server_call [OF assms(1-3) ok(1) small] by blast
  have absent: "absent r hs" if "pcs (srv s) c = Numbered r" for c r
    using number_of_id [OF zreach_ids_ok [OF assms(3)], of c r] that
    by (intro number_absent [OF ok(1-3) assms(4) small, of c]) simp_all
  show ?thesis
  proof (rule link_okI)
    show "server_ok payload (srv (s\<lparr>srv := z\<rparr>)) (sms @ new)" using new by simp
    show "up_ok (s\<lparr>srv := z\<rparr>) (sms @ new)" by (rule up_ok_server [OF ok(2)]) simp_all
    show "down_ok mx (s\<lparr>srv := z\<rparr>) hs" using ok(3) frame(2,3) by (simp add: down_ok_def)
    show "entries_ok (mgr (srv (s\<lparr>srv := z\<rparr>))) hs" using entries_call [OF assms(1,2) ok(4) absent] by simp
    show "answers_ok (allowed mx (srv (s\<lparr>srv := z\<rparr>))) (number_of (srv (s\<lparr>srv := z\<rparr>))) (mgr (srv (s\<lparr>srv := z\<rparr>))) hs"
      using answers_more [OF ok(5) l, of "mgr z" "[]" "allowed mx z"] frame(1,2) by (simp add: allowed_def)
  qed
qed

text \<open>The reader and the stop change the manager only; what they write are kills.\<close>

lemma link_manager:
  assumes "link_ok mx payload s" and "writes_kills (mgr (srv s)) z"
    and t: "wrk t = wrk s" "fed t = fed s" "srv t = (srv s)\<lparr>mgr := z, reader_alive := alive\<rparr>"
    and down: "down_ok mx t hs" and new: "entries_ok z hs" "answers_ok (allowed mx (srv t)) (number_of (srv s)) z hs"
  shows "link_ok mx payload t"
proof -
  obtain sms where ok: "server_ok payload (srv s) sms" "up_ok s sms" by (rule link_okD [OF assms(1)])
  obtain kills where k: "written z = written (mgr (srv s)) @ map encode_message kills" "\<forall>m\<in>set kills. is_kill m"
    using assms(2) unfolding writes_kills_def by blast
  have "server_ok payload (srv t) (sms @ kills)"
    using k ok(1) run_ids_kills [OF k(2)]
    by (intro server_ok_later [OF ok(1), where l = "[]"]) (simp_all add: t(3) server_ok_def server_message_def list_all_iff)
  moreover have "up_ok t (sms @ kills)" by (rule up_ok_server [OF ok(2) t(1,2)])
  moreover have "number_of (srv t) = number_of (srv s)" by (intro ext) (simp add: number_of_def t(3))
  ultimately show ?thesis using down new by (intro link_okI [where hs = hs]) (simp_all add: t(3))
qed

lemma link_fail:
  assumes "link_ok mx payload s" and "msg = ''zygote connection lost'' \<or> msg = ''zygote stopped''"
    and "z = fail_pending msg ((mgr (srv s))\<lparr>running := False\<rparr>)"
  shows "link_ok mx payload (s\<lparr>srv := (srv s)\<lparr>mgr := z, reader_alive := False\<rparr>\<rparr>)"
proof -
  obtain sms hs where ok: "server_ok payload (srv s) sms" "up_ok s sms" "down_ok mx s hs" "entries_ok (mgr (srv s)) hs"
      "answers_ok (allowed mx (srv s)) (number_of (srv s)) (mgr (srv s)) hs" by (rule link_okD [OF assms(1)])
  have "answers_ok (failures mx) (number_of (srv s)) z hs"
    using assms(2) by (intro answers_more [OF ok(5), where l = "[]"])
      (auto simp: assms(3) fail_pending_def delivered_fail_entries failures_def allowed_def)
  moreover have "down_ok mx (s\<lparr>srv := (srv s)\<lparr>mgr := z, reader_alive := False\<rparr>\<rparr>) hs"
    using ok(3) by (simp add: down_ok_def)
  moreover have "entries_ok z hs" by (simp add: assms(3) fail_pending_def entries_ok_def)
  moreover have "writes_kills (mgr (srv s)) z" by (rule writes_kills_refl) (simp add: assms(3) fail_pending_def)
  ultimately show ?thesis by (intro link_manager [OF assms(1)]) (simp_all add: allowed_def)
qed

lemma worker_fits:
  assumes "wreach w" and "65536 \<le> mx"
  shows "list_all (fits mx) (wk_msgs w)" and "wk_sent w @ wk_out w = encoded (wk_msgs w)"
proof -
  have w: "stream_ok w" using worker_reach [OF assms(1)] by (simp add: worker_ok_def)
  have "fits mx m" if "m \<in> set (wk_msgs w)" for m
  proof -
    have "length (snd (snd m)) \<le> 65536" using w that by (simp add: stream_ok_def)
    with assms(2) show ?thesis by (auto simp: fits_def split: prod.split)
  qed
  then show "list_all (fits mx) (wk_msgs w)" by (simp add: list_all_iff)
  show "wk_sent w @ wk_out w = encoded (wk_msgs w)" using w by (simp add: stream_ok_def)
qed

lemma frame_buf_irrelevant:
  "entries_ok (z\<lparr>frame_buf := b\<rparr>) hs = entries_ok z hs" "answers_ok fs number (z\<lparr>frame_buf := b\<rparr>) hs = answers_ok fs number z hs"
  by (simp_all add: entries_ok_def answers_ok_def)

lemma link_read:
  assumes "link_ok mx payload s" and "zreach mx payload (srv s)" and "wreach (wrk s)" and "65536 \<le> mx"
    and "reader_alive (srv s)" and "data = take n (downlink s)" and "data \<noteq> []" and "on_read mx (ReadOk data) (mgr (srv s)) = (z, alive)"
  shows "alive" and "link_ok mx payload (s\<lparr>srv := (srv s)\<lparr>mgr := z, reader_alive := alive\<rparr>, got := got s + length data\<rparr>)"
    (is "link_ok mx payload ?t")
proof -
  obtain sms hs where ok: "server_ok payload (srv s) sms" "up_ok s sms" "down_ok mx s hs" "entries_ok (mgr (srv s)) hs"
      "answers_ok (allowed mx (srv s)) (number_of (srv s)) (mgr (srv s)) hs" by (rule link_okD [OF assms(1)])
  let ?w = "wrk s" let ?m = "mgr (srv s)"
  obtain us where us: "wk_msgs ?w = hs @ us" "take (got s) (wk_sent ?w) = encoded hs @ frame_buf ?m" "got s \<le> length (wk_sent ?w)"
    using ok(3) assms(5) unfolding down_ok_def by blast
  let ?rest = "drop (got s + length data) (wk_sent ?w) @ wk_out ?w"
  have taken: "take (got s + length data) (wk_sent ?w) = encoded hs @ frame_buf ?m @ data"
      and le: "got s + length data \<le> length (wk_sent ?w)"
  proof -
    have d: "data = take (length data) (drop (got s) (wk_sent ?w))" using assms(6) by (simp add: downlink_def min_def)
    then show "take (got s + length data) (wk_sent ?w) = encoded hs @ frame_buf ?m @ data"
      using us(2) take_add [of "got s" "length data" "wk_sent ?w"] by simp
    have "length data \<le> length (drop (got s) (wk_sent ?w))" using assms(6) by (simp add: downlink_def)
    with us(3) show "got s + length data \<le> length (wk_sent ?w)" by simp
  qed
  have "(encoded hs @ frame_buf ?m @ data) @ ?rest = encoded hs @ encoded us"
    using worker_fits(2) [OF assms(3,4)] unfolding taken [symmetric] us(1)
    by (metis append_assoc append_take_drop_id concat_append map_append)
  then have "(frame_buf ?m @ data) @ ?rest = encoded us" by simp
  moreover have "list_all (fits mx) us" using worker_fits(1) [OF assms(3,4)] by (simp add: us(1))
  ultimately obtain u v c where p: "us = u @ v" "frame_buf ?m @ data = encoded u @ c" "next_frame mx c = Incomplete" "list_all (fits mx) u"
    using encoded_prefix [of mx us "frame_buf ?m @ data" ?rest] by (metis list_all_append)
  let ?z = "fold (handle_frame mx) u ?m"
  have z: "z = ?z\<lparr>frame_buf := c\<rparr>" "alive"
    using assms(7,8) drain_encoded [OF p(4,3), of ?m] by (simp_all add: on_read_def p(2))
  have h: "entries_ok ?z (hs @ u)" "answers_ok (allowed mx (srv s)) (number_of (srv s)) ?z (hs @ u)"
    using reader_handles [OF ok(4,5) owned_reach [OF assms(2)] allowed_range(1), of u] by simp_all
  show alive by (rule z(2))
  show "link_ok mx payload ?t"
  proof (rule link_manager [OF assms(1) writes_kills_read [OF assms(8)]])
    show "down_ok mx ?t (hs @ u)" using taken le p us(1) z by (simp add: down_ok_def)
    show "entries_ok z (hs @ u)" "answers_ok (allowed mx (srv ?t)) (number_of (srv s)) z (hs @ u)"
      using h z(2) assms(5) by (simp_all add: z(1) frame_buf_irrelevant allowed_def)
  qed simp_all
qed

text \<open>The worker changes its own end only.\<close>

lemma link_worker:
  assumes "link_ok mx payload s" and "grows (wrk s) (wrk t)" and t: "srv t = srv s" "got t = got s"
    and up: "\<And>sms. server_ok payload (srv s) sms \<Longrightarrow> up_ok s sms \<Longrightarrow> up_ok t sms"
  shows "link_ok mx payload t"
proof -
  obtain sms hs where ok: "server_ok payload (srv s) sms" "up_ok s sms" "down_ok mx s hs" "entries_ok (mgr (srv s)) hs"
      "answers_ok (allowed mx (srv s)) (number_of (srv s)) (mgr (srv s)) hs" by (rule link_okD [OF assms(1)])
  obtain ms bs where g: "wk_msgs (wrk t) = wk_msgs (wrk s) @ ms" "wk_sent (wrk t) = wk_sent (wrk s) @ bs"
    using assms(2) unfolding grows_def by blast
  have "down_ok mx t hs" using ok(3) by (auto simp: down_ok_def g t)
  with ok up [OF ok(1,2)] show ?thesis by (intro link_okI) (simp_all add: t)
qed

lemma link_work:
  assumes "link_ok mx payload s" and "wstep (wrk s) w" and "\<forall>rs. wk_ready (wrk s) \<noteq> Ctrl # rs"
  shows "link_ok mx payload (s\<lparr>wrk := w\<rparr>)"
proof (rule link_worker [OF assms(1)])
  note local = worker_local [OF assms(2,3)]
  show "grows (wrk s) (wrk (s\<lparr>wrk := w\<rparr>))" using local(3) by simp
  show "up_ok (s\<lparr>wrk := w\<rparr>) sms" if "up_ok s sms" for sms using that local(1,2) by (simp add: up_ok_def)
qed simp_all

lemma grows_ctrl: "grows w (on_ctrl fork chunk (w\<lparr>wk_ready := rs\<rparr>))"
  by (rule grows_refl) (simp_all add: on_ctrl_def ctrl_frames_quiet split: option.split)

lemma link_ctrl_none:
  assumes "link_ok mx payload s" and "chunk = None \<or> chunk = Some []"
  shows "link_ok mx payload (s\<lparr>wrk := on_ctrl fork chunk ((wrk s)\<lparr>wk_ready := rs\<rparr>)\<rparr>)"
proof (rule link_worker [OF assms(1)])
  let ?w = "on_ctrl fork chunk ((wrk s)\<lparr>wk_ready := rs\<rparr>)"
  show "grows (wrk s) (wrk (s\<lparr>wrk := ?w\<rparr>))" using grows_ctrl by simp
  have "wk_recv_buf ?w = wk_recv_buf (wrk s)" "wk_started ?w = wk_started (wrk s)" using assms(2) by (auto simp: on_ctrl_def)
  then show "up_ok (s\<lparr>wrk := ?w\<rparr>) sms" if "up_ok s sms" for sms using that by (simp add: up_ok_def)
qed simp_all

lemma server_fits:
  assumes "server_ok payload z sms" and "\<And>c. length (payload c) \<le> MAX_FRAME_PAYLOAD"
  shows "list_all (fits MAX_FRAME_PAYLOAD) sms"
proof -
  have cap: "MAX_FRAME_PAYLOAD < 2 ^ 32" by (simp add: MAX_FRAME_PAYLOAD_def)
  have "fits MAX_FRAME_PAYLOAD m" if "server_message payload z m" for m
    using that assms(2) order_le_less_trans [OF assms(2) cap] by (auto simp: server_message_def is_kill_def fits_def)
  then show ?thesis using assms(1) by (auto simp: server_ok_def list_all_iff)
qed

lemma ctrl_once:
  assumes "server_ok payload (srv s) sms" and "up_ok s sms" and "\<And>c. length (payload c) \<le> MAX_FRAME_PAYLOAD"
    and "data = take n (uplink s)" and "data \<noteq> []" and "w = (wrk s)\<lparr>wk_ready := rs\<rparr>"
  shows "on_ctrl (once fork) (Some data) w = on_ctrl fork (Some data) w"
    and "up_ok (s\<lparr>wrk := on_ctrl fork (Some data) w, fed := fed s + length data\<rparr>) sms"
proof -
  let ?buf = "wk_recv_buf (wrk s)" let ?w = "w\<lparr>wk_recv_buf := ?buf @ data\<rparr>"
  have on: "on_ctrl f (Some data) w = ctrl_frames f ?w" for f using assms(5,6) by (simp add: on_ctrl_def)
  obtain cms rms where u: "sms = cms @ rms" "take (fed s) (encoded sms) = encoded cms @ ?buf"
      "wk_started (wrk s) \<subseteq> set (run_ids cms)" "fed s \<le> length (encoded sms)"
    using assms(2) unfolding up_ok_def by blast
  have d: "data = take n (drop (fed s) (encoded sms))" using assms(1,4) by (simp add: uplink_def server_ok_def)
  then have data: "data = take (length data) (drop (fed s) (encoded sms))" by (simp add: min_def)
  have len: "length data \<le> length (drop (fed s) (encoded sms))" using d by simp
  let ?rest = "drop (fed s + length data) (encoded sms)"
  have taken: "take (fed s + length data) (encoded sms) = encoded cms @ ?buf @ data"
    using take_add [of "fed s" "length data" "encoded sms"] u(2) data by simp
  have "encoded cms @ (?buf @ data) @ ?rest = encoded cms @ encoded rms"
    using append_take_drop_id [of "fed s + length data" "encoded sms"] unfolding taken by (simp add: u(1))
  then have bytes: "wk_recv_buf ?w @ ?rest = encoded rms" by simp
  have dist: "distinct (run_ids rms)" "set (run_ids rms) \<inter> wk_started ?w = {}"
    using assms(1) u(1,3) by (auto simp: server_ok_def assms(6))
  have fits: "list_all (fits MAX_FRAME_PAYLOAD) rms" using server_fits [OF assms(1,3)] by (simp add: u(1))
  note c = ctrl_consumes [OF bytes fits dist, of fork]
  show "on_ctrl (once fork) (Some data) w = on_ctrl fork (Some data) w" using c by (simp add: on)
  obtain a b where ab: "rms = a @ b" "wk_recv_buf ?w = encoded a @ wk_recv_buf (ctrl_frames fork ?w)"
      "wk_started (ctrl_frames fork ?w) \<subseteq> wk_started ?w \<union> set (run_ids a)" using c by blast
  let ?t = "s\<lparr>wrk := ctrl_frames fork ?w, fed := fed s + length data\<rparr>"
  have "take (fed ?t) (encoded sms) = encoded (cms @ a) @ wk_recv_buf (wrk ?t)" using taken ab(2) by simp
  moreover have "wk_started (wrk ?t) \<subseteq> set (run_ids (cms @ a))" using ab(3) u(3) by (auto simp: assms(6))
  moreover have "sms = (cms @ a) @ b" "fed ?t \<le> length (encoded sms)" using u(1,4) ab(1) len by simp_all
  ultimately show "up_ok (s\<lparr>wrk := on_ctrl fork (Some data) w, fed := fed s + length data\<rparr>) sms"
    unfolding up_ok_def on by blast
qed

lemma link_ctrl:
  assumes "link_ok mx payload s" and "\<And>c. length (payload c) \<le> MAX_FRAME_PAYLOAD"
    and "data = take n (uplink s)" and "data \<noteq> []" and "fork_fresh fork" and "wk_exit (wrk s) = None" and "wk_ready (wrk s) = Ctrl # rs"
  shows "wstep (wrk s) (on_ctrl fork (Some data) ((wrk s)\<lparr>wk_ready := rs\<rparr>))"
    and "link_ok mx payload (s\<lparr>wrk := on_ctrl fork (Some data) ((wrk s)\<lparr>wk_ready := rs\<rparr>), fed := fed s + length data\<rparr>)"
proof -
  obtain sms where ok: "server_ok payload (srv s) sms" "up_ok s sms" by (rule link_okD [OF assms(1)])
  have "wstep (wrk s) (on_ctrl (once fork) (Some data) ((wrk s)\<lparr>wk_ready := rs\<rparr>))"
    by (rule wstep.ctrl [OF assms(6,7) once_fork_ok [OF assms(5)]])
  then show "wstep (wrk s) (on_ctrl fork (Some data) ((wrk s)\<lparr>wk_ready := rs\<rparr>))"
    by (simp add: ctrl_once(1) [OF ok assms(2-4) refl])
  show "link_ok mx payload (s\<lparr>wrk := on_ctrl fork (Some data) ((wrk s)\<lparr>wk_ready := rs\<rparr>), fed := fed s + length data\<rparr>)"
    using grows_ctrl ctrl_once(2) [OF _ _ assms(2-4) refl] by (intro link_worker [OF assms(1)]) simp_all
qed

lemma wreach_more: "wreach w \<Longrightarrow> wstep w w' \<Longrightarrow> wreach w'"
  unfolding wreach_def by (rule rtranclp.rtrancl_into_rtrancl)

lemma link_inv_step:
  assumes "link_step mx payload s t" and "link_inv mx payload s" and "65536 \<le> mx" and "\<And>c. length (payload c) \<le> MAX_FRAME_PAYLOAD"
  shows "link_inv mx payload t"
proof -
  have z: "zreach mx payload (srv s)" and ok: "length (issued (srv s)) \<le> 2 ^ 32 \<Longrightarrow> wreach (wrk s) \<and> link_ok mx payload s"
    using assms(2) by (simp_all add: link_inv_def)
  from assms(1) show ?thesis
  proof cases
    case (call z')
    obtain l where "issued z' = issued (srv s) @ l" using call_step_frame(5) [OF call(2,3)] by blast
    with call z ok show ?thesis using link_call [OF call(2,3) z] zreach.zmore [OF z call(2)] by (auto simp: link_inv_def)
  next
    case stop
    then show ?thesis using zreach.zmore [OF z zstep.stopped] ok link_fail [of mx payload s "''zygote stopped''"]
      by (auto simp: link_inv_def stop_def)
  next
    case (read data n z' alive)
    then show ?thesis
      using zreach.zmore [OF z zstep.reader [OF read(2,5)]] ok link_read(2) [OF _ z _ assms(3) read(2-5)] by (auto simp: link_inv_def)
  next
    case (lost res z' alive)
    then have "z' = connection_lost (mgr (srv s))" "\<not> alive" by (auto simp: on_read_def)
    then show ?thesis
      using zreach.zmore [OF z zstep.reader [OF lost(2,4)]] ok link_fail [of mx payload s "''zygote connection lost''"]
      by (auto simp: link_inv_def lost(1) connection_lost_def)
  next
    case (work w)
    then show ?thesis using z ok link_work [OF _ work(2,3)] wreach_more [OF _ work(2)] by (auto simp: link_inv_def)
  next
    case (ctrl rs fork data n)
    then show ?thesis
      using z ok link_ctrl [OF _ assms(4) ctrl(5,6,4,2,3)] wreach_more by (auto simp: link_inv_def)
  next
    case (ctrl_none rs chunk fork)
    have "on_ctrl fork chunk w = on_ctrl (\<lambda>_ _ _. None) chunk w" for w using ctrl_none(4) by (auto simp: on_ctrl_def)
    then have "wstep (wrk s) (on_ctrl fork chunk ((wrk s)\<lparr>wk_ready := rs\<rparr>))"
      using wstep.ctrl [OF ctrl_none(2,3), of "\<lambda>_ _ _. None" chunk] by (simp add: fork_ok_def)
    then show ?thesis using z ok link_ctrl_none [OF _ ctrl_none(4)] wreach_more by (auto simp: link_inv_def ctrl_none(1))
  qed
qed

lemma link_inv_init: "link_inv mx payload link_init"
proof -
  have "link_ok mx payload link_init"
    by (rule link_okI [where sms = "[]" and hs = "[]"])
      (simp_all add: link_init_def init_zsys_def new_manager_def worker_init_def server_ok_def up_ok_def down_ok_def entries_ok_def
        answers_ok_def run_ids_def next_frame_short HEADER_SIZE_def)
  then show ?thesis by (simp add: link_inv_def wreach_def) (simp add: link_init_def zreach.zinit)
qed

lemma link_inv_reach:
  assumes "link_reach mx payload s" and "65536 \<le> mx" and "\<And>c. length (payload c) \<le> MAX_FRAME_PAYLOAD"
  shows "link_inv mx payload s"
  using assms(1) unfolding link_reach_def
  by (induction rule: rtranclp_induct) (use link_inv_init link_inv_step assms(2,3) in blast)+

section \<open>Answers\<close>

text \<open>The first frame with an exit code of a request is the only one.\<close>

lemma first_done:
  assumes "a @ (MSG_DONE, r, d) # b = a' @ (MSG_DONE, r, d') # b'" and "no_done r a" and "no_done r a'"
  shows "a = a' \<and> d = d'"
  using assms
proof (induction a arbitrary: a')
  case Nil
  then show ?case by (cases a') (auto simp: no_done_def)
next
  case (Cons m a)
  then show ?case by (cases a') (auto simp: no_done_def)
qed

lemma own_answer_worker:
  assumes "wreach w" and "wk_msgs w = hs @ us" and "own_answer r hs v"
  shows "r \<in> wk_started w" and "\<exists>err code. wk_codes w r = Some code
    \<and> err \<in> {stream_of MSG_STDERR r (wk_reads w), stream_of MSG_STDERR r (wk_reads w) @ terminated_msg}
    \<and> v = (lossy (stream_of MSG_STDOUT r (wk_reads w)), lossy err, code)"
proof -
  have ok: "request_ok r w" using worker_reach [OF assms(1)] by (simp add: worker_ok_def)
  obtain a b d where h: "hs = a @ (MSG_DONE, r, d) # b" "no_done r a"
      "v = (lossy (stream_of MSG_STDOUT r a), lossy (stream_of MSG_STDERR r a), done_exit_code d)"
    using assms(3) unfolding own_answer_def by blast
  have "\<not> no_done r (wk_msgs w)" by (simp add: assms(2) h(1)) (simp add: no_done_def)
  then have "r \<in> wk_started w \<and> ended_ok r w" using ok absent_no_done by (auto simp: request_ok_def split: if_splits)
  then show "r \<in> wk_started w" by simp
  from \<open>r \<in> wk_started w \<and> ended_ok r w\<close> obtain code a' b' where e: "wk_codes w r = Some code" "wk_msgs w = a' @ (MSG_DONE, r, u32_to_be_bytes code) # b'" "no_done r a'"
      "stream_of MSG_STDOUT r a' = stream_of MSG_STDOUT r (wk_reads w)"
      "stream_of MSG_STDERR r a' \<in> {stream_of MSG_STDERR r (wk_reads w), stream_of MSG_STDERR r (wk_reads w) @ terminated_msg}"
    unfolding ended_ok_def by blast
  have "a @ (MSG_DONE, r, d) # b @ us = a' @ (MSG_DONE, r, u32_to_be_bytes code) # b'"
    using assms(2) e(2) by (simp add: h(1))
  from first_done [OF this h(2) e(3)] have "a = a' \<and> d = u32_to_be_bytes code" .
  with e h(3) show "\<exists>err code. wk_codes w r = Some code
      \<and> err \<in> {stream_of MSG_STDERR r (wk_reads w), stream_of MSG_STDERR r (wk_reads w) @ terminated_msg}
      \<and> v = (lossy (stream_of MSG_STDOUT r (wk_reads w)), lossy err, code)"
    by (intro exI [of _ "stream_of MSG_STDERR r a'"] exI [of _ code]) (simp add: done_exit_code_packed)
qed

text \<open>What a call that has returned was answered with.\<close>

definition failure_answers :: "nat \<Rightarrow> response set" where
  "failure_answers mx = error_responses \<union> failures mx"

lemma link_answers:
  assumes "link_inv mx payload s" and "length (issued (srv s)) \<le> 2 ^ 32" and "pcs (srv s) c = Returned v"
  shows "v \<in> failure_answers mx
    \<or> (\<exists>r err code. number_of (srv s) c r \<and> r \<in> wk_started (wrk s) \<and> wk_codes (wrk s) r = Some code
        \<and> err \<in> {stream_of MSG_STDERR r (wk_reads (wrk s)), stream_of MSG_STDERR r (wk_reads (wrk s)) @ terminated_msg}
        \<and> v = (lossy (stream_of MSG_STDOUT r (wk_reads (wrk s))), lossy err, code))"
proof -
  have inv: "zreach mx payload (srv s)" "wreach (wrk s)" "link_ok mx payload s"
    using assms(1,2) by (simp_all add: link_inv_def)
  obtain sms hs where ok: "down_ok mx s hs" "answers_ok (allowed mx (srv s)) (number_of (srv s)) (mgr (srv s)) hs" by (rule link_okD [OF inv(3)])
  obtain us where us: "wk_msgs (wrk s) = hs @ us" using ok(1) unfolding down_ok_def by blast
  have "responses_ok (srv s)" by (rule zreach_responses_ok [OF inv(1)])
  then have "v \<in> error_responses \<or> (c, v) \<in> set (delivered (mgr (srv s)))"
    using assms(3) unfolding responses_ok_def by blast
  then have "v \<in> failure_answers mx \<or> (\<exists>r. number_of (srv s) c r \<and> own_answer r hs v)"
    using ok(2) allowed_range(2) unfolding answers_ok_def failure_answers_def by blast
  then show ?thesis using own_answer_worker [OF inv(2) us] by blast
qed

text \<open>The request that was answered is the only one under its number that the server has written, with the payload of
  the call.\<close>

lemma encode_message_inj:
  assumes "encode_message m = encode_message m'" and "fits mx m" and "fits mx m'"
  shows "m = m'"
proof -
  obtain t r p t' r' p' where "m = (t, r, p)" "m' = (t', r', p')" by (cases m; cases m') auto
  with assms next_frame_encode [of mx t r p "[]"] next_frame_encode [of mx t' r' p' "[]"]
  show ?thesis by (auto simp: encode_message_def)
qed

lemma answered_request:
  assumes "link_ok mx payload s" and "length (issued (srv s)) \<le> 2 ^ 32" and "\<And>c. length (payload c) \<le> MAX_FRAME_PAYLOAD"
    and "number_of (srv s) c r" and "r \<in> wk_started (wrk s)" and "length p \<le> MAX_FRAME_PAYLOAD"
  shows "encode_frame MSG_RUN r p \<in> set (written (mgr (srv s))) \<longleftrightarrow> p = payload c"
proof -
  obtain sms where ok: "server_ok payload (srv s) sms" "up_ok s sms" by (rule link_okD [OF assms(1)])
  have own: "m = (MSG_RUN, r, payload c)" if m: "m \<in> set sms" "fst m = MSG_RUN" "fst (snd m) = r" for m
  proof -
    have "server_message payload (srv s) m" using ok(1) m(1) by (simp add: server_ok_def list_all_iff)
    with m(2,3) obtain d where "m = (MSG_RUN, r, payload d)" "number_of (srv s) d r"
      by (auto simp: server_message_def is_kill_def msg_defs)
    with number_of_unique [OF assms(2) this(2) assms(4)] show ?thesis by simp
  qed
  have "r \<in> set (run_ids sms)" using ok(2) assms(5) by (auto simp: up_ok_def)
  then have "(MSG_RUN, r, payload c) \<in> set sms" using own by (force simp: run_ids_def)
  moreover have "p = payload c" if sent: "encode_message (MSG_RUN, r, p) \<in> encode_message ` set sms"
  proof -
    obtain m where m: "m \<in> set sms" "encode_message (MSG_RUN, r, p) = encode_message m" using sent by blast
    have "fits MAX_FRAME_PAYLOAD (MSG_RUN, r, p)" using assms(6) by (simp add: fits_def MAX_FRAME_PAYLOAD_def)
    moreover have "fits MAX_FRAME_PAYLOAD m" using server_fits [OF ok(1) assms(3)] m(1) by (simp add: list_all_iff)
    ultimately have "m = (MSG_RUN, r, p)" using encode_message_inj [OF m(2)] by blast
    with own [OF m(1)] show ?thesis by simp
  qed
  moreover have "encode_frame MSG_RUN r p \<in> set (written (mgr (srv s))) \<longleftrightarrow> encode_message (MSG_RUN, r, p) \<in> encode_message ` set sms"
    using ok(1) by (simp add: server_ok_def encode_message_def)
  ultimately show ?thesis by blast
qed

section \<open>A run\<close>

lemma link_reach_more: "link_reach mx payload s \<Longrightarrow> link_step mx payload s t \<Longrightarrow> link_reach mx payload t"
  unfolding link_reach_def by (rule rtranclp.rtrancl_into_rtrancl)

lemma link_reach_call:
  assumes "link_reach mx payload s" and "zstep mx payload (srv s) z" and "pcs z c \<noteq> pcs (srv s) c"
  shows "link_reach mx payload (s\<lparr>srv := z\<rparr>)"
  using assms(3) by (intro link_reach_more [OF assms(1) link_step.call [OF assms(2)]]) auto

lemma link_local:
  assumes "local_step\<^sup>*\<^sup>* (wrk s) w"
  shows "(link_step mx payload)\<^sup>*\<^sup>* s (s\<lparr>wrk := w\<rparr>)"
  using assms
proof (induction rule: rtranclp_induct)
  case (step w w')
  then have "link_step mx payload (s\<lparr>wrk := w\<rparr>) (s\<lparr>wrk := w'\<rparr>)"
    using link_step.work [of "s\<lparr>wrk := w\<rparr>" w' mx payload] by (simp add: local_step_def)
  with step.IH show ?case by (rule rtranclp.rtrancl_into_rtrancl)
qed simp

lemma link_reach_local:
  assumes "local_step\<^sup>*\<^sup>* (wrk s) w" and "link_reach mx payload s"
  shows "link_reach mx payload (s\<lparr>wrk := w\<rparr>)"
  using assms(2) link_local [OF assms(1)] unfolding link_reach_def by (rule rtranclp_trans)

text \<open>One call: the request is written, the worker forks, the child writes a byte and exits with code 1, and the
  reader reads all of it at once.\<close>

definition answered_zsys :: zsys where
  "answered_zsys = waiting_zsys\<lparr>mgr := fold (handle_frame 70000) (wk_msgs demo_worker) (mgr waiting_zsys)\<rparr>"

definition answered_link :: link where
  "answered_link = \<lparr>srv = set_pc 0 (Returned (''h'', [], 1)) (remove_pending 1 (mgr answered_zsys)) answered_zsys,
     wrk = demo_worker, fed = 9, got = 23\<rparr>"

lemma demo_sent: "link_reach mx (\<lambda>_. []) \<lparr>srv = waiting_zsys, wrk = worker_init, fed = 0, got = 0\<rparr>"
proof -
  let ?l = "\<lambda>z. \<lparr>srv = z, wrk = worker_init, fed = 0, got = 0\<rparr>"
  let ?s1 = "set_pc 0 Admitted new_manager init_zsys"
  let ?s2 = "(set_pc 0 (Numbered 1) (new_manager\<lparr>next_id := 2\<rparr>) ?s1)\<lparr>issued := [0]\<rparr>"
  let ?s3 = "set_pc 0 (Registered 1) (register 1 0 (mgr ?s2)) ?s2"
  have "link_reach mx (\<lambda>_. []) (?l init_zsys)" by (simp add: link_reach_def link_init_def)
  then have "link_reach mx (\<lambda>_. []) (?l ?s1)"
    using link_reach_call [of mx "\<lambda>_. []" "?l init_zsys" ?s1 0] zstep.admitted [of init_zsys 0 mx "\<lambda>_. []"] by simp
  then have "link_reach mx (\<lambda>_. []) (?l ?s2)"
    using link_reach_call [of mx "\<lambda>_. []" "?l ?s1" ?s2 0] zstep.numbered [of ?s1 0 1 "new_manager\<lparr>next_id := 2\<rparr>" mx "\<lambda>_. []"]
    by (simp add: take_id_def init_zsys_def)
  then have "link_reach mx (\<lambda>_. []) (?l ?s3)"
    using link_reach_call [of mx "\<lambda>_. []" "?l ?s2" ?s3 0] zstep.registered [of ?s2 0 1 mx "\<lambda>_. []"] by simp
  then show ?thesis
    using link_reach_call [of mx "\<lambda>_. []" "?l ?s3" waiting_zsys 0] zstep.sent [of ?s3 0 1 mx "\<lambda>_. []"]
    by (simp add: waiting_zsys_def Let_def)
qed

lemma demo_worked: "link_reach mx (\<lambda>_. []) \<lparr>srv = waiting_zsys, wrk = demo_worker, fed = 9, got = 0\<rparr>"
proof -
  let ?l = "\<lambda>w n. \<lparr>srv = waiting_zsys, wrk = w, fed = n, got = 0\<rparr>"
  let ?f = "encode_frame MSG_RUN 1 []" let ?u = "worker_init\<lparr>wk_ready := [Ctrl]\<rparr>"
  have f: "concat (written (mgr waiting_zsys)) = ?f" "length ?f = 9" "?f \<noteq> []"
    by (simp_all add: waiting_zsys_def Let_def register_def write_frame_def new_manager_def encode_frame_bytes HEADER_SIZE_def)
  have i: "wk_ready worker_init = []" "wk_exit worker_init = None" "worker_init\<lparr>wk_ready := []\<rparr> = worker_init"
    by (simp_all add: worker_init_def)
  have "wstep worker_init ?u" using wstep.select [of worker_init "[Ctrl]" 0] i by (simp add: selectable_def flush_zero)
  then have "link_reach mx (\<lambda>_. []) (?l ?u 0)"
    using link_reach_more [OF demo_sent, of mx "?l ?u 0"] link_step.work [of "?l worker_init 0" ?u mx "\<lambda>_. []"] i by simp
  moreover have "fork_fresh demo_fork" by (auto simp: fork_fresh_def demo_fork_def split: if_splits)
  ultimately have "link_reach mx (\<lambda>_. []) (?l demo_started 9)"
    using link_reach_more [of mx "\<lambda>_. []" "?l ?u 0" "?l demo_started 9"] link_step.ctrl [of "?l ?u 0" "[]" demo_fork ?f 9 mx "\<lambda>_. []"]
    by (simp add: i f uplink_def demo_ctrl HEADER_SIZE_def)
  then show ?thesis using link_reach_local [of "?l demo_started 9" demo_worker mx "\<lambda>_. []"] demo_run by simp
qed

lemma demo_read: "on_read 70000 (ReadOk (wk_sent demo_worker)) (mgr waiting_zsys) = (mgr answered_zsys, True)"
proof -
  have "list_all (fits 70000) (wk_msgs demo_worker)" by (simp add: demo_worker_def fits_def)
  moreover have "frame_buf (mgr waiting_zsys) = []"
    by (simp add: waiting_zsys_def Let_def register_def write_frame_def new_manager_def)
  moreover have "wk_sent demo_worker = concat (map encode_message (wk_msgs demo_worker))" "wk_sent demo_worker \<noteq> []"
    by (simp_all add: demo_worker_def encode_message_def encode_frame_bytes)
  ultimately show ?thesis
    using encoded_stream_read [of 70000 "wk_msgs demo_worker" "mgr waiting_zsys" "wk_sent demo_worker" "[]"]
    by (simp add: answered_zsys_def split: prod.splits bool.splits)
qed

lemma demo_delivered: "(0, ''h'', [], 1) \<in> set (delivered (mgr answered_zsys))"
proof -
  let ?z = "handle_frame 70000 (MSG_STDOUT, 1, [104]) (mgr waiting_zsys)"
  have "map_of (pending_map ?z) 1 = Some \<lparr>p_out = [104], p_err = [], p_tx = Some 0\<rparr>"
    using collect_output [OF waiting_zsys_simps(1), of "[(MSG_STDOUT, 1, [104])]" 70000] by (simp add: no_done_def msg_defs)
  moreover have "bytes_str [104] = ''h''" by code_simp
  then have "lossy [104] = ''h''" "lossy [] = []"
    by (simp_all add: lossy_def from_utf8_lossy.simps utf8_step_def safe_get_def utf8_char_width_def)
  ultimately show ?thesis
    using handle_done [of ?z 1 _ 0 70000 "u32_to_be_bytes 1"] by (simp add: answered_zsys_def demo_worker_def done_exit_code_packed)
qed

lemma answered_link_reach: "link_reach 70000 (\<lambda>_. []) answered_link"
proof -
  let ?l = "\<lambda>z n. \<lparr>srv = z, wrk = demo_worker, fed = 9, got = n\<rparr>"
  have sent: "length (wk_sent demo_worker) = 23" by (simp add: demo_worker_def HEADER_SIZE_def)
  then have "wk_sent demo_worker \<noteq> []" by auto
  have alive: "reader_alive waiting_zsys" by (simp add: waiting_zsys_def Let_def init_zsys_def)
  then have same: "waiting_zsys\<lparr>mgr := mgr answered_zsys, reader_alive := True\<rparr> = answered_zsys" by (simp add: answered_zsys_def)
  have "link_reach 70000 (\<lambda>_. []) (?l answered_zsys 23)"
    using link_reach_more [OF demo_worked, of 70000 "?l answered_zsys 23"] \<open>wk_sent demo_worker \<noteq> []\<close>
      link_step.read [of "?l waiting_zsys 0" "wk_sent demo_worker" 23 70000 "mgr answered_zsys" True "\<lambda>_. []"] demo_read sent alive same
    by (simp add: downlink_def)
  moreover let ?z = "set_pc 0 (Received 1 (''h'', [], 1)) (mgr answered_zsys) answered_zsys"
  have pc: "pcs answered_zsys 0 = Waiting 1" by (simp add: answered_zsys_def waiting_zsys_simps)
  ultimately have "link_reach 70000 (\<lambda>_. []) (?l ?z 23)"
    using link_reach_call [of 70000 "\<lambda>_. []" "?l answered_zsys 23" ?z 0] zstep.received [OF pc demo_delivered, of 70000 "\<lambda>_. []"] by simp
  moreover have "zstep 70000 (\<lambda>_. []) ?z (srv answered_link)"
    using zstep.return_received [of ?z 0 1 "(''h'', [], 1)" 70000 "\<lambda>_. []"] by (simp add: answered_link_def set_pc_def)
  ultimately show ?thesis
    using link_reach_call [of 70000 "\<lambda>_. []" "?l ?z 23" "srv answered_link" 0] by (simp add: answered_link_def)
qed

section \<open>Properties\<close>

text \<open>C4. The zygote as a whole. Any number of calls, the manager's reader and its stop, the worker and its children run
  concurrently, and the bytes of the socket are cut anywhere. As long as no more than \<open>2 ^ 32\<close> numbers were drawn, the
  worker only ever sees a number once, so that everything shown of the worker applies; and whenever a call has
  returned, its answer is a report of a failure, or it is exactly the output that was read from the pipes of the
  call's own request, with the exit code of its child; a notice of termination may stand at the end of
  its error output.\<close>

theorem zygote_system_correct:
  assumes "link_reach mx payload s" and "65536 \<le> mx" and "\<And>c. length (payload c) \<le> MAX_FRAME_PAYLOAD"
    and "length (issued (srv s)) \<le> 2 ^ 32" and "pcs (srv s) c = Returned v"
  shows "wreach (wrk s)
    \<and> (v \<in> {not_running_response, write_failed_response, timeout_response, ([], ''zygote connection lost'', - 1), ([], ''zygote stopped'', - 1)}
      \<or> snd v = (limit_message mx, - 1)
      \<or> (\<exists>k r err code. k < length (issued (srv s)) \<and> issued (srv s) ! k = c \<and> r = of_nat (Suc k)
          \<and> wk_codes (wrk s) r = Some code
          \<and> err \<in> {stream_of MSG_STDERR r (wk_reads (wrk s)), stream_of MSG_STDERR r (wk_reads (wrk s)) @ terminated_msg}
          \<and> v = (lossy (stream_of MSG_STDOUT r (wk_reads (wrk s))), lossy err, code)))"
proof -
  note inv = link_inv_reach [OF assms(1-3)]
  have "wreach (wrk s)" using inv assms(4) by (simp add: link_inv_def)
  moreover note link_answers [OF inv assms(4,5)]
  ultimately show ?thesis
    unfolding failure_answers_def error_responses_def failures_def limit_answers_def number_of_def by blast
qed

theorem zygote_system_correct_witness:
  "pcs (srv answered_link) 0 = Returned (''h'', [], 1) \<and> wk_codes (wrk answered_link) 1 = Some 1
   \<and> lossy (stream_of MSG_STDOUT 1 (wk_reads (wrk answered_link))) = ''h''"
proof -
  have pc: "pcs (srv answered_link) 0 = Returned (''h'', [], 1)" by (simp add: answered_link_def)
  have "length (issued (srv answered_link)) = 1" "issued (srv answered_link) = [0]"
    by (simp_all add: answered_link_def answered_zsys_def waiting_zsys_simps)
  then show ?thesis
    using zygote_system_correct [OF answered_link_reach _ _ _ pc] pc
    by (auto simp: not_running_response_def write_failed_response_def timeout_response_def limit_message_def)
qed

end
