(* ===== verification/Zygote_Progress.thy ===== *)
theory Zygote_Progress
  imports Zygote_System
begin

text \<open>
  The zygote as a whole makes progress: a call whose child has been started never depends on its timeout. From every
  reachable state in which the connection stands the system can go on until the call has its answer,
  although the worker stops to read from its children while its buffer is full. What is shown for this: a call
  that waits has its sender in the table or has been answered, as long as no number is drawn twice; the
  worker can always finish its round, close its pipes and empty its buffer; and the reader can always
  read what was sent.
\<close>

section \<open>No sender is lost\<close>

definition has_sender :: "zsys \<Rightarrow> bool" where
  "has_sender z \<longleftrightarrow> (\<forall>c r. pcs z c \<in> {Registered r, Waiting r} \<longrightarrow> c \<in># accounts (mgr z))"

lemma tx_list_entry: "table_wf t \<Longrightarrow> c \<in> set (tx_list t) \<longleftrightarrow> (\<exists>r p. map_of t r = Some p \<and> p_tx p = Some c)"
proof (induction t)
  case (Cons a t)
  obtain r p where a: "a = (r, p)" by (cases a)
  have "table_wf t" "map_of t r = None" using Cons.prems a by (auto simp: table_wf_def map_of_eq_None_iff)
  moreover have "c \<in> set (tx_list (a # t)) \<longleftrightarrow> p_tx p = Some c \<or> c \<in> set (tx_list t)"
    by (auto simp: a tx_list_def List.map_filter_simps split: option.splits)
  ultimately show ?case using Cons.IH by (auto simp: a) (metis option.distinct(1))
qed simp

text \<open>The entry of a number belongs to the call that has drawn it.\<close>

lemma remove_own:
  assumes "zreach mx payload z" and "length (issued z) \<le> 2 ^ 32" and "number_of z c r" and "d \<in># accounts (mgr z)" and "d \<noteq> c"
  shows "d \<in># accounts (remove_pending r (mgr z))"
proof (cases "d \<in> set (map fst (delivered (mgr z)))")
  case True
  then show ?thesis by (auto simp: accounts_def)
next
  case False
  note wf = zreach_table_wf [OF assms(1)]
  have "d \<in> set (tx_list (pending_map (mgr z)))" using assms(4) False by (auto simp: accounts_def)
  then obtain k p where k: "map_of (pending_map (mgr z)) k = Some p" "p_tx p = Some d" using tx_list_entry [OF wf] by blast
  then have "number_of z d k" using owned_reach [OF assms(1)] unfolding owned_def by blast
  then have "k \<noteq> r" using number_of_unique [OF assms(2) assms(3)] assms(5) by blast
  then have "d \<in> set (tx_list (AList.delete r (pending_map (mgr z))))"
    using k wf by (subst tx_list_entry) (auto simp: table_simps table_wf_def distinct_delete intro!: exI [of _ k])
  then show ?thesis by (simp add: accounts_def remove_pending_def)
qed

lemma accounts_register_eq:
  "table_wf (pending_map z) \<Longrightarrow> accounts (register r c z) = add_mset c (accounts (remove_pending r z))"
  by (simp add: accounts_def register_def remove_pending_def mset_tx_update)

lemma has_sender_pc:
  assumes "has_sender z" and "pcs z' = (pcs z)(c := pc)" and "\<And>d. d \<in># accounts (mgr z) \<Longrightarrow> d \<noteq> c \<Longrightarrow> d \<in># accounts (mgr z')"
    and "\<And>r. pc \<in> {Registered r, Waiting r} \<Longrightarrow> c \<in># accounts (mgr z')"
  shows "has_sender z'"
  unfolding has_sender_def
proof (intro allI impI)
  fix d r assume d: "pcs z' d \<in> {Registered r, Waiting r}"
  show "d \<in># accounts (mgr z')"
  proof (cases "d = c")
    case True
    with d assms(2,4) show ?thesis by simp
  next
    case False
    with d assms(1,2) have "d \<in># accounts (mgr z)" unfolding has_sender_def by auto
    with False assms(3) show ?thesis by blast
  qed
qed

lemma has_sender_step:
  assumes "zstep mx payload z z'" and "zreach mx payload z" and "has_sender z" and "length (issued z) \<le> 2 ^ 32"
  shows "has_sender z'"
proof -
  note wf = zreach_table_wf [OF assms(2)]
  note own = remove_own [OF assms(2,4) number_of_id [OF zreach_ids_ok [OF assms(2)]]]
  have waits: "c \<in># accounts (mgr z)" if "pcs z c \<in> {Registered r, Waiting r}" for c r
    using assms(3) that unfolding has_sender_def by blast
  from assms(1) show ?thesis
  proof cases
    case (numbered c r zz)
    then show ?thesis by (intro has_sender_pc [OF assms(3), of _ c "Numbered r"]) (auto simp: take_id_def)
  next
    case (registered c r)
    then show ?thesis
      using own [of c r] by (intro has_sender_pc [OF assms(3), of _ c "Registered r"]) (auto simp: accounts_register_eq [OF wf])
  next
    case (sent c r)
    then show ?thesis using waits [of c r] by (intro has_sender_pc [OF assms(3), of _ c "Waiting r"]) auto
  next
    case (send_failed c r)
    then show ?thesis using own [of c r] by (intro has_sender_pc [OF assms(3), of _ c "Returned write_failed_response"]) auto
  next
    case (return_received c r v)
    then show ?thesis using own [of c r] by (intro has_sender_pc [OF assms(3), of _ c "Returned v"]) auto
  next
    case (return_expired c r)
    have "accounts (expire r (mgr z)) = accounts (remove_pending r (mgr z))" by (simp add: expire_def accounts_def remove_pending_def write_frame_def)
    with return_expired show ?thesis
      using own [of c r] by (intro has_sender_pc [OF assms(3), of _ c "Returned timeout_response"]) auto
  next
    case (reader res zz alive)
    then show ?thesis using assms(3) accounts_on_read [OF reader(3) wf] by (simp add: has_sender_def)
  next
    case stopped
    then show ?thesis using assms(3) by (simp add: has_sender_def accounts_stop)
  qed (auto intro!: has_sender_pc [OF assms(3)])
qed

lemma issued_grows: "zstep mx payload z z' \<Longrightarrow> length (issued z) \<le> length (issued z')"
  by (cases rule: zstep.cases) auto

lemma has_sender_reach: "zreach mx payload z \<Longrightarrow> length (issued z) \<le> 2 ^ 32 \<Longrightarrow> has_sender z"
proof (induction rule: zreach.induct)
  case zinit
  show ?case by (simp add: has_sender_def)
next
  case (zmore s t)
  with issued_grows [OF zmore.hyps(2)] show ?case by (intro has_sender_step [OF zmore.hyps(2,1)]) simp_all
qed

section \<open>The worker can finish\<close>

lemma teardown_closes:
  "wk_fd_map (teardown_pipe_fd n m reap fd r w) = (wk_fd_map w)(fd := None)"
  "wk_exit (teardown_pipe_fd n m reap fd r w) = wk_exit w" "wk_ready (teardown_pipe_fd n m reap fd r w) = wk_ready w"
  by (simp_all add: teardown_pipe_fd_def Let_def split: option.split reap.split)

lemma pipe_end_fields:
  "wk_exit (on_pipe_readable n m reap [] fd w) = wk_exit w" "wk_ready (on_pipe_readable n m reap [] fd w) = wk_ready w"
  "wk_fd_map (on_pipe_readable n m reap [] fd w) = (wk_fd_map w)(fd := None)"
  by (auto simp: on_pipe_readable_def teardown_closes split: option.split)

lemma finite_fds_reach: "wreach w \<Longrightarrow> finite (dom (wk_fd_map w))"
  unfolding wreach_def by (induction rule: rtranclp_induct) (simp add: worker_init_def, rule finite_fds_step)

lemma local_flush:
  assumes "wk_exit w = None" and "wk_ready w = []"
  shows "local_step w (flush (length (wk_out w)) w)"
  using wstep.select [of w "[]" "length (wk_out w)"] assms ready_reset(2) [OF assms(2)] by (simp add: local_step_def)

text \<open>A worker between two rounds can close all of its pipes and send everything, even if its buffer is full.\<close>

lemma close_all:
  assumes "finite (dom (wk_fd_map w))" and "wk_exit w = None" and "wk_ready w = []"
  shows "\<exists>w'. local_step\<^sup>*\<^sup>* w w' \<and> wk_fd_map w' = Map.empty \<and> wk_out w' = [] \<and> wk_exit w' = None \<and> wk_started w' = wk_started w"
  using assms
proof (induction "card (dom (wk_fd_map w))" arbitrary: w rule: less_induct)
  case less
  let ?u = "flush (length (wk_out w)) w"
  have u: "local_step w ?u" "wk_out ?u = []" using local_flush [OF less.prems(2,3)] by (simp_all add: flush_def)
  show ?case
  proof (cases "wk_fd_map w = Map.empty")
    case True
    with u less.prems show ?thesis by (intro exI [of _ ?u]) auto
  next
    case False
    then obtain fd where fd: "fd \<in> dom (wk_fd_map w)" by auto
    let ?v = "on_pipe_readable 0 0 No_child [] fd ?u"
    have "local_step\<^sup>*\<^sup>* ?u ?v"
      using fd less.prems u(2) by (intro local_pipe) (simp_all add: selectable_def SEND_BUF_CAP_def)
    then have v: "local_step\<^sup>*\<^sup>* w ?v" using u(1) by (rule converse_rtranclp_into_rtranclp [rotated])
    have "card (dom (wk_fd_map ?v)) < card (dom (wk_fd_map w))"
      using fd less.prems(1) card_gt_0_iff [of "dom (wk_fd_map w)"] by (auto simp: pipe_end_fields)
    then obtain w' where w': "local_step\<^sup>*\<^sup>* ?v w'" "wk_fd_map w' = Map.empty" "wk_out w' = []" "wk_exit w' = None" "wk_started w' = wk_started ?v"
      using less.hyps [of ?v] less.prems by (auto simp: pipe_end_fields)
    have "wk_started w' = wk_started w" using w'(5) by (simp add: on_pipe_fields)
    moreover have "local_step\<^sup>*\<^sup>* w w'" using v w'(1) by (rule rtranclp_trans)
    ultimately show ?thesis using w'(2-4) by blast
  qed
qed

text \<open>A round that has begun can be ended.\<close>

lemma finish_round:
  assumes "wk_ready (wrk s) = rs" and "wk_exit (wrk s) = None"
  shows "\<exists>w. (link_step mx payload)\<^sup>*\<^sup>* s (s\<lparr>wrk := w\<rparr>) \<and> wk_ready w = [] \<and> wk_exit w = None \<and> wk_started w = wk_started (wrk s)"
  using assms
proof (induction rs arbitrary: s)
  case Nil
  then show ?case by (intro exI [of _ "wrk s"]) simp
next
  case (Cons x rs)
  have "\<exists>u. link_step mx payload s (s\<lparr>wrk := u\<rparr>) \<and> wk_ready u = rs \<and> wk_exit u = None \<and> wk_started u = wk_started (wrk s)"
  proof (cases x)
    case Ctrl
    then show ?thesis
      using link_step.ctrl_none [of s rs None mx payload undefined] Cons.prems
      by (intro exI [of _ "(wrk s)\<lparr>wk_ready := rs\<rparr>"]) (simp add: on_ctrl_def)
  next
    case (Pipe fd)
    let ?u = "on_pipe_readable 0 0 No_child [] fd ((wrk s)\<lparr>wk_ready := rs\<rparr>)"
    have "wstep (wrk s) ?u" using Cons.prems Pipe by (intro wstep.pipe) simp_all
    then have "link_step mx payload s (s\<lparr>wrk := ?u\<rparr>)" using Cons.prems Pipe by (intro link_step.work) simp_all
    then show ?thesis using Cons.prems by (intro exI [of _ ?u]) (simp add: pipe_end_fields on_pipe_fields)
  qed
  then obtain u where u: "link_step mx payload s (s\<lparr>wrk := u\<rparr>)" "wk_ready u = rs" "wk_exit u = None" "wk_started u = wk_started (wrk s)"
    by blast
  then obtain w where "(link_step mx payload)\<^sup>*\<^sup>* (s\<lparr>wrk := u\<rparr>) (s\<lparr>wrk := w\<rparr>)" "wk_ready w = []" "wk_exit w = None" "wk_started w = wk_started u"
    using Cons.IH [of "s\<lparr>wrk := u\<rparr>"] by auto
  with u show ?case by (metis converse_rtranclp_into_rtranclp)
qed

section \<open>The answer\<close>

lemma link_inv_steps:
  assumes "(link_step mx payload)\<^sup>*\<^sup>* s t" and "link_inv mx payload s" and "65536 \<le> mx" and "\<And>c. length (payload c) \<le> MAX_FRAME_PAYLOAD"
  shows "link_inv mx payload t"
  using assms(1,2) by (induction rule: rtranclp_induct) (use link_inv_step assms(3,4) in blast)+

text \<open>The reader can read everything that was sent.\<close>

lemma read_all:
  assumes "link_inv mx payload s" and "length (issued (srv s)) \<le> 2 ^ 32" and "65536 \<le> mx" and "reader_alive (srv s)"
  shows "\<exists>z. (link_step mx payload)\<^sup>*\<^sup>* s (s\<lparr>srv := (srv s)\<lparr>mgr := z\<rparr>, got := length (wk_sent (wrk s))\<rparr>)"
proof -
  have inv: "zreach mx payload (srv s)" "wreach (wrk s)" "link_ok mx payload s" using assms(1,2) by (simp_all add: link_inv_def)
  obtain hs where "down_ok mx s hs" by (rule link_okD [OF inv(3)])
  then have le: "got s \<le> length (wk_sent (wrk s))" by (simp add: down_ok_def)
  let ?d = "downlink s"
  show ?thesis
  proof (cases "?d = []")
    case True
    with le have "s\<lparr>srv := (srv s)\<lparr>mgr := mgr (srv s)\<rparr>, got := length (wk_sent (wrk s))\<rparr> = s" by (simp add: downlink_def)
    then show ?thesis by (metis rtranclp.rtrancl_refl)
  next
    case False
    obtain z alive where r: "on_read mx (ReadOk ?d) (mgr (srv s)) = (z, alive)" by fastforce
    have d: "?d = take (length ?d) (downlink s)" by simp
    have step: "link_step mx payload s (s\<lparr>srv := (srv s)\<lparr>mgr := z, reader_alive := alive\<rparr>, got := got s + length ?d\<rparr>)"
      by (rule link_step.read [OF assms(4) d False r])
    have alive by (rule link_read(1) [OF inv(3,1,2) assms(3,4) d False r])
    moreover have "got s + length ?d = length (wk_sent (wrk s))" using le by (simp add: downlink_def)
    moreover have "(srv s)\<lparr>mgr := z, reader_alive := True\<rparr> = (srv s)\<lparr>mgr := z\<rparr>" using assms(4) by simp
    ultimately have "link_step mx payload s (s\<lparr>srv := (srv s)\<lparr>mgr := z\<rparr>, got := length (wk_sent (wrk s))\<rparr>)"
      using step by simp
    then show ?thesis by blast
  qed
qed

text \<open>Once everything was read, a call whose request has ended has been answered.\<close>

lemma all_handled:
  assumes "down_ok mx s hs" and "reader_alive (srv s)" and "wreach (wrk s)" and "65536 \<le> mx"
    and "wk_out (wrk s) = []" and "got s = length (wk_sent (wrk s))"
  shows "hs = wk_msgs (wrk s)"
proof -
  obtain us where us: "wk_msgs (wrk s) = hs @ us" "take (got s) (wk_sent (wrk s)) = encoded hs @ frame_buf (mgr (srv s))"
      "next_frame mx (frame_buf (mgr (srv s))) = Incomplete"
    using assms(1,2) unfolding down_ok_def by blast
  have "wk_sent (wrk s) = encoded hs @ encoded us" using worker_fits(2) [OF assms(3,4)] assms(5) by (simp add: us(1))
  then have "frame_buf (mgr (srv s)) = encoded us" using us(2) assms(6) by simp
  moreover have "list_all (fits mx) us" using worker_fits(1) [OF assms(3,4)] by (simp add: us(1))
  ultimately have "us = []" using complete_at_end us(3) by metis
  with us(1) show ?thesis by simp
qed

lemma number_of_call:
  assumes "ids_ok z" and "number_of z c r" and "number_of z c k"
  shows "r = k"
proof -
  obtain i j where "i < length (issued z)" "issued z ! i = c" "r = of_nat (Suc i)" "j < length (issued z)" "issued z ! j = c" "k = of_nat (Suc j)"
    using assms(2,3) unfolding number_of_def by blast
  moreover have "distinct (issued z)" using assms(1) by (simp add: ids_ok_def)
  ultimately show ?thesis using nth_eq_iff_index_eq by metis
qed

lemma ended_answered:
  assumes "link_inv mx payload s" and "length (issued (srv s)) \<le> 2 ^ 32" and "65536 \<le> mx" and "reader_alive (srv s)"
    and "wk_out (wrk s) = []" and "got s = length (wk_sent (wrk s))"
    and "pcs (srv s) c = Waiting r" and "r \<in> wk_started (wrk s)" and "wk_reqs (wrk s) r = None"
  shows "\<exists>v. (c, v) \<in> set (delivered (mgr (srv s)))
    \<and> (v \<in> limit_answers mx \<or> (\<exists>err code. wk_codes (wrk s) r = Some code
        \<and> err \<in> {stream_of MSG_STDERR r (wk_reads (wrk s)), stream_of MSG_STDERR r (wk_reads (wrk s)) @ terminated_msg}
        \<and> v = (lossy (stream_of MSG_STDOUT r (wk_reads (wrk s))), lossy err, code)))"
proof -
  have inv: "zreach mx payload (srv s)" "wreach (wrk s)" "link_ok mx payload s" using assms(1,2) by (simp_all add: link_inv_def)
  note ids = zreach_ids_ok [OF inv(1)] and wf = zreach_table_wf [OF inv(1)]
  obtain sms hs where ok: "down_ok mx s hs" "entries_ok (mgr (srv s)) hs"
      "answers_ok (allowed mx (srv s)) (number_of (srv s)) (mgr (srv s)) hs" by (rule link_okD [OF inv(3)])
  have hs: "hs = wk_msgs (wrk s)" by (rule all_handled [OF ok(1) assms(4) inv(2) assms(3,5,6)])
  have "request_ok r (wrk s)" using worker_reach [OF inv(2)] by (simp add: worker_ok_def)
  then have "ended_ok r (wrk s)" using assms(8,9) by (simp add: request_ok_def)
  then have ended: "\<not> no_done r hs" unfolding hs ended_ok_def by (auto simp: no_done_def)
  have "c \<notin> set (tx_list (pending_map (mgr (srv s))))"
  proof
    assume "c \<in> set (tx_list (pending_map (mgr (srv s))))"
    then obtain k p where k: "map_of (pending_map (mgr (srv s))) k = Some p" "p_tx p = Some c" using tx_list_entry [OF wf] by blast
    then have "holds (pcs (srv s) c) = Some k" using zreach_owners_ok [OF inv(1)] unfolding owners_ok_def by blast
    then have "k = r" using assms(7) by simp
    with ok(2) k ended show False unfolding entries_ok_def by blast
  qed
  moreover have "c \<in># accounts (mgr (srv s))" using has_sender_reach [OF inv(1) assms(2)] assms(7) unfolding has_sender_def by blast
  ultimately obtain v where v: "(c, v) \<in> set (delivered (mgr (srv s)))" by (auto simp: accounts_def)
  have num: "number_of (srv s) c r" using number_of_id [OF ids, of c r] assms(7) by simp
  have "answers_ok (limit_answers mx) (number_of (srv s)) (mgr (srv s)) hs" using ok(3) assms(4) by (simp add: allowed_def)
  then have "v \<in> limit_answers mx \<or> (\<exists>k. number_of (srv s) c k \<and> own_answer k hs v)"
    using v unfolding answers_ok_def by blast
  then have "v \<in> limit_answers mx \<or> own_answer r hs v" using number_of_call [OF ids num] by blast
  moreover have "wk_msgs (wrk s) = hs @ []" using hs by simp
  ultimately show ?thesis using own_answer_worker(2) [OF inv(2)] v by blast
qed

lemma link_call_step:
  assumes "zstep mx payload (srv s) z" and "pcs z c \<noteq> pcs (srv s) c"
  shows "link_step mx payload s (s\<lparr>srv := z\<rparr>)"
  by (rule link_step.call [OF assms(1)]) (use assms(2) in auto)

lemma take_answer:
  assumes "pcs (srv s) c = Waiting r" and "(c, v) \<in> set (delivered (mgr (srv s)))"
  shows "\<exists>z. (link_step mx payload)\<^sup>*\<^sup>* s (s\<lparr>srv := z\<rparr>) \<and> pcs z c = Returned v"
proof -
  let ?y = "set_pc c (Received r v) (mgr (srv s)) (srv s)"
  let ?z = "set_pc c (Returned v) (remove_pending r (mgr ?y)) ?y"
  have "link_step mx payload s (s\<lparr>srv := ?y\<rparr>)"
    using assms(1) by (intro link_call_step [of _ _ _ _ c] zstep.received [OF assms]) simp
  moreover have "link_step mx payload (s\<lparr>srv := ?y\<rparr>) (s\<lparr>srv := ?z\<rparr>)"
    using link_call_step [of mx payload "s\<lparr>srv := ?y\<rparr>" ?z c] zstep.return_received [of ?y c r v mx payload] by simp
  ultimately have "(link_step mx payload)\<^sup>*\<^sup>* s (s\<lparr>srv := ?z\<rparr>)" by (meson converse_rtranclp_into_rtranclp r_into_rtranclp)
  then show ?thesis by (intro exI [of _ ?z]) simp
qed

section \<open>Properties\<close>

text \<open>C5. A call does not depend on its timeout. In every state that the manager, the worker and their socket can reach,
  with any number of concurrent calls, if the connection stands and the child of a waiting call has been started, then
  the system can go on until the call has returned, without a failure of the connection, with the output and the
  exit code of its child, unless the output passes the cap. Neither a full buffer of the worker nor
  messages under way can prevent it.\<close>

theorem started_request_completes:
  assumes "link_reach mx payload s" and "65536 \<le> mx" and "\<And>c. length (payload c) \<le> MAX_FRAME_PAYLOAD"
    and "length (issued (srv s)) \<le> 2 ^ 32" and "reader_alive (srv s)" and "wk_exit (wrk s) = None"
    and "pcs (srv s) c = Waiting r" and "r \<in> wk_started (wrk s)"
  shows "\<exists>t v. (link_step mx payload)\<^sup>*\<^sup>* s t \<and> pcs (srv t) c = Returned v
    \<and> (snd v = (limit_message mx, - 1)
      \<or> (\<exists>err code. wk_codes (wrk t) r = Some code
          \<and> err \<in> {stream_of MSG_STDERR r (wk_reads (wrk t)), stream_of MSG_STDERR r (wk_reads (wrk t)) @ terminated_msg}
          \<and> v = (lossy (stream_of MSG_STDOUT r (wk_reads (wrk t))), lossy err, code)))"
proof -
  note inv = link_inv_reach [OF assms(1-3)]
  let ?S = "link_step mx payload"
  obtain u where u: "?S\<^sup>*\<^sup>* s (s\<lparr>wrk := u\<rparr>)" "wk_ready u = []" "wk_exit u = None" "wk_started u = wk_started (wrk s)"
    using finish_round [OF refl assms(6)] by blast
  have "wreach u" using link_inv_steps [OF u(1) inv assms(2,3)] assms(4) by (simp add: link_inv_def)
  note reach = this
  obtain w where w: "local_step\<^sup>*\<^sup>* u w" "wk_fd_map w = Map.empty" "wk_out w = []" "wk_started w = wk_started u"
    using close_all [OF finite_fds_reach [OF reach] u(3,2)] by blast
  let ?s1 = "s\<lparr>wrk := w\<rparr>"
  have s1: "?S\<^sup>*\<^sup>* s ?s1" using u(1) link_local [of "s\<lparr>wrk := u\<rparr>" w mx payload] w(1) by (simp add: rtranclp_trans)
  have "wk_reqs w r = None"
    using tables_okD(2) [OF worker_reach [OF local_reach [OF w(1) reach]], of r] w(2) by (cases "wk_reqs w r") auto
  note ended = this
  obtain z where z: "?S\<^sup>*\<^sup>* ?s1 (?s1\<lparr>srv := (srv ?s1)\<lparr>mgr := z\<rparr>, got := length (wk_sent w)\<rparr>)"
    using read_all [OF link_inv_steps [OF s1 inv assms(2,3)]] assms(2,4,5) by auto
  let ?s2 = "?s1\<lparr>srv := (srv ?s1)\<lparr>mgr := z\<rparr>, got := length (wk_sent w)\<rparr>"
  have s2: "?S\<^sup>*\<^sup>* s ?s2" using s1 z by (rule rtranclp_trans)
  have inv2: "link_inv mx payload ?s2" by (rule link_inv_steps [OF s2 inv assms(2,3)])
  have "\<exists>v. (c, v) \<in> set (delivered (mgr (srv ?s2)))
    \<and> (v \<in> limit_answers mx \<or> (\<exists>err code. wk_codes (wrk ?s2) r = Some code
        \<and> err \<in> {stream_of MSG_STDERR r (wk_reads (wrk ?s2)), stream_of MSG_STDERR r (wk_reads (wrk ?s2)) @ terminated_msg}
        \<and> v = (lossy (stream_of MSG_STDOUT r (wk_reads (wrk ?s2))), lossy err, code)))"
    by (rule ended_answered [OF inv2 _ assms(2)]) (use assms(4,5,7,8) in \<open>simp_all add: u(4) w(3,4) ended\<close>)
  then obtain v where v: "(c, v) \<in> set (delivered (mgr (srv ?s2)))"
      "v \<in> limit_answers mx \<or> (\<exists>err code. wk_codes (wrk ?s2) r = Some code
        \<and> err \<in> {stream_of MSG_STDERR r (wk_reads (wrk ?s2)), stream_of MSG_STDERR r (wk_reads (wrk ?s2)) @ terminated_msg}
        \<and> v = (lossy (stream_of MSG_STDOUT r (wk_reads (wrk ?s2))), lossy err, code))" by blast
  have "pcs (srv ?s2) c = Waiting r" using assms(7) by simp
  then obtain y where y: "?S\<^sup>*\<^sup>* ?s2 (?s2\<lparr>srv := y\<rparr>)" "pcs y c = Returned v" using take_answer [OF _ v(1)] by blast
  have "?S\<^sup>*\<^sup>* s (?s2\<lparr>srv := y\<rparr>)" using s2 y(1) by (rule rtranclp_trans)
  moreover have "snd v = (limit_message mx, - 1) \<or> v \<notin> limit_answers mx" by (auto simp: limit_answers_def)
  ultimately show ?thesis using y(2) v(2)
    by (intro exI [of _ "?s2\<lparr>srv := y\<rparr>"] exI [of _ v]) (simp, blast)
qed

text \<open>The child of call 0 has written and has ended, and the manager has read nothing of it yet.\<close>

theorem started_request_completes_witness:
  "\<exists>t v. (link_step 70000 (\<lambda>_. []))\<^sup>*\<^sup>* \<lparr>srv = waiting_zsys, wrk = demo_worker, fed = 9, got = 0\<rparr> t \<and> pcs (srv t) 0 = Returned v"
proof -
  have "reader_alive waiting_zsys" "pcs waiting_zsys 0 = Waiting 1" "length (issued waiting_zsys) \<le> 2 ^ 32"
    by (simp_all add: waiting_zsys_def init_zsys_def Let_def)
  moreover have "wk_exit demo_worker = None" "1 \<in> wk_started demo_worker" by (simp_all add: demo_worker_def)
  ultimately show ?thesis
    using started_request_completes [OF demo_worked [of 70000], of 0 1] by (simp only: link.select_convs list.size) force
qed

end
