(* ===== verification/Seccomp_Tables.thy ===== *)
theory Seccomp_Tables
  imports Rust_Std
begin

text \<open>
  \<^verbatim>\<open>lib/sandbox_seccomp/src/python_syscalls.rs\<close> and \<^verbatim>\<open>nodejs_syscalls.rs\<close>: the system calls
  each build of the library admits, by the names the sources use (\<^verbatim>\<open>libc::SYS_read\<close> is
  \<open>''read''\<close>). The numbers and flag values are those of the \<^verbatim>\<open>libc\<close> crate; they are the
  parameter \<open>libc_abi\<close> of every definition that needs them.
\<close>

section \<open>Model\<close>

text \<open>The build feature that selects one of the two tables.\<close>

datatype feature = Python3 | Nodejs

record libc_abi =
  abi_nr :: "string \<Rightarrow> i32"
  abi_O_CREAT :: i32
  abi_EPERM :: i32

definition python_ALLOW_SYSCALLS :: "string list" where
  "python_ALLOW_SYSCALLS =
     [''read'', ''write'', ''openat'', ''close'', ''newfstatat'', ''statx'', ''fstat'',
      ''lseek'', ''getdents64'', ''fcntl'', ''pread64'', ''readv'', ''writev'',
      ''rt_sigreturn'', ''rt_sigaction'', ''rt_sigprocmask'', ''sigaltstack'', ''ioctl'',
      ''futex'', ''set_tid_address'', ''sched_getaffinity'', ''mmap'', ''brk'', ''mprotect'',
      ''munmap'', ''mremap'', ''madvise'', ''getuid'', ''getpid'', ''getppid'', ''gettid'',
      ''exit'', ''exit_group'', ''sched_yield'', ''set_robust_list'', ''get_robust_list'',
      ''rseq'', ''clock_gettime'', ''gettimeofday'', ''time'', ''nanosleep'',
      ''clock_nanosleep'', ''epoll_create1'', ''epoll_ctl'', ''pselect6'', ''eventfd2'',
      ''pipe2'', ''getrandom'', ''getcwd'', ''uname'']"

definition python_ALLOW_ERROR_SYSCALLS :: "string list" where
  "python_ALLOW_ERROR_SYSCALLS =
     [''clone'', ''clone3'', ''mkdirat'', ''mkdir'', ''tgkill'', ''prlimit64'']"

definition python_ALLOW_NETWORK_SYSCALLS :: "string list" where
  "python_ALLOW_NETWORK_SYSCALLS =
     [''socket'', ''connect'', ''bind'', ''listen'', ''accept'', ''sendto'', ''recvfrom'',
      ''getsockname'', ''recvmsg'', ''getpeername'', ''setsockopt'', ''ppoll'', ''sendmsg'',
      ''sendmmsg'', ''getsockopt'', ''fstatfs'', ''poll'', ''epoll_pwait'']"

definition nodejs_ALLOW_SYSCALLS :: "string list" where
  "nodejs_ALLOW_SYSCALLS =
     [''open'', ''write'', ''close'', ''read'', ''openat'', ''newfstatat'', ''statx'',
      ''lseek'', ''fstat'', ''readlink'', ''dup3'', ''fcntl'', ''fsync'', ''mprotect'',
      ''mmap'', ''munmap'', ''mremap'', ''brk'', ''madvise'', ''rt_sigaction'',
      ''rt_sigprocmask'', ''sigaltstack'', ''rt_sigreturn'', ''ioctl'', ''futex'',
      ''sched_yield'', ''set_robust_list'', ''rseq'', ''getuid'', ''getpid'', ''gettid'',
      ''exit'', ''exit_group'', ''sched_getaffinity'', ''clock_gettime'', ''gettimeofday'',
      ''nanosleep'', ''time'', ''epoll_ctl'', ''epoll_pwait'', ''eventfd2'']"

definition nodejs_ALLOW_ERROR_SYSCALLS :: "string list" where
  "nodejs_ALLOW_ERROR_SYSCALLS =
     [''clone'', ''clone3'', ''tgkill'']"

definition nodejs_ALLOW_NETWORK_SYSCALLS :: "string list" where
  "nodejs_ALLOW_NETWORK_SYSCALLS =
     [''socket'', ''connect'', ''bind'', ''listen'', ''accept'', ''sendto'', ''recvfrom'',
      ''getsockname'', ''recvmsg'', ''getpeername'', ''setsockopt'', ''ppoll'', ''uname'',
      ''sendmsg'', ''getsockopt'', ''fcntl'', ''fstatfs'']"

fun ALLOW_SYSCALLS :: "feature \<Rightarrow> string list" where
  "ALLOW_SYSCALLS Python3 = python_ALLOW_SYSCALLS"
| "ALLOW_SYSCALLS Nodejs = nodejs_ALLOW_SYSCALLS"

fun ALLOW_ERROR_SYSCALLS :: "feature \<Rightarrow> string list" where
  "ALLOW_ERROR_SYSCALLS Python3 = python_ALLOW_ERROR_SYSCALLS"
| "ALLOW_ERROR_SYSCALLS Nodejs = nodejs_ALLOW_ERROR_SYSCALLS"

fun ALLOW_NETWORK_SYSCALLS :: "feature \<Rightarrow> string list" where
  "ALLOW_NETWORK_SYSCALLS Python3 = python_ALLOW_NETWORK_SYSCALLS"
| "ALLOW_NETWORK_SYSCALLS Nodejs = nodejs_ALLOW_NETWORK_SYSCALLS"

text \<open>Every name that one of the tables uses.\<close>

definition listed :: "feature \<Rightarrow> string list" where
  "listed f = ALLOW_SYSCALLS f @ ALLOW_ERROR_SYSCALLS f @ ALLOW_NETWORK_SYSCALLS f"

section \<open>The tables\<close>

lemmas table_defs =
  python_ALLOW_SYSCALLS_def python_ALLOW_ERROR_SYSCALLS_def python_ALLOW_NETWORK_SYSCALLS_def
  nodejs_ALLOW_SYSCALLS_def nodejs_ALLOW_ERROR_SYSCALLS_def nodejs_ALLOW_NETWORK_SYSCALLS_def

text \<open>No call is both admitted and answered with an error.\<close>

lemma allow_error_disjoint:
  "set (ALLOW_SYSCALLS f @ ALLOW_NETWORK_SYSCALLS f) \<inter> set (ALLOW_ERROR_SYSCALLS f) = {}"
  by (cases f) (simp_all add: table_defs)

lemma ioctl_allowed: "''ioctl'' \<in> set (ALLOW_SYSCALLS f)"
  by (cases f) (simp_all add: table_defs)

lemma openat_allowed: "''openat'' \<in> set (ALLOW_SYSCALLS f)"
  by (cases f) (simp_all add: table_defs)

section \<open>The x86-64 numbers\<close>

text \<open>The Linux ABI that the deployment images use, as an instance of the parameter.\<close>

definition x86_64_table :: "(string \<times> i32) list" where
  "x86_64_table =
     [(''read'', 0), (''write'', 1), (''open'', 2), (''close'', 3), (''fstat'', 5),
      (''poll'', 7), (''lseek'', 8), (''mmap'', 9), (''mprotect'', 10), (''munmap'', 11),
      (''brk'', 12), (''rt_sigaction'', 13), (''rt_sigprocmask'', 14),
      (''rt_sigreturn'', 15), (''ioctl'', 16), (''pread64'', 17), (''readv'', 19),
      (''writev'', 20), (''sched_yield'', 24), (''mremap'', 25), (''madvise'', 28),
      (''nanosleep'', 35), (''getpid'', 39), (''socket'', 41), (''connect'', 42),
      (''accept'', 43), (''sendto'', 44), (''recvfrom'', 45), (''sendmsg'', 46),
      (''recvmsg'', 47), (''bind'', 49), (''listen'', 50), (''getsockname'', 51),
      (''getpeername'', 52), (''setsockopt'', 54), (''getsockopt'', 55), (''clone'', 56),
      (''fork'', 57), (''vfork'', 58), (''execve'', 59), (''exit'', 60), (''kill'', 62),
      (''uname'', 63), (''fcntl'', 72), (''fsync'', 74), (''getcwd'', 79), (''mkdir'', 83),
      (''creat'', 85), (''unlink'', 87), (''readlink'', 89), (''gettimeofday'', 96),
      (''ptrace'', 101), (''getuid'', 102), (''getppid'', 110), (''sigaltstack'', 131),
      (''fstatfs'', 138), (''mount'', 165), (''gettid'', 186), (''time'', 201),
      (''futex'', 202), (''sched_getaffinity'', 204), (''getdents64'', 217),
      (''set_tid_address'', 218), (''clock_gettime'', 228), (''clock_nanosleep'', 230),
      (''exit_group'', 231), (''epoll_ctl'', 233), (''tgkill'', 234), (''openat'', 257),
      (''mkdirat'', 258), (''newfstatat'', 262), (''pselect6'', 270), (''ppoll'', 271),
      (''set_robust_list'', 273), (''get_robust_list'', 274), (''epoll_pwait'', 281),
      (''eventfd2'', 290), (''epoll_create1'', 291), (''dup3'', 292), (''pipe2'', 293),
      (''prlimit64'', 302), (''sendmmsg'', 307), (''getrandom'', 318), (''execveat'', 322),
      (''statx'', 332), (''rseq'', 334), (''clone3'', 435), (''openat2'', 437)]"

definition x86_64 :: libc_abi where
  "x86_64 =
     \<lparr>abi_nr = (\<lambda>s. case map_of x86_64_table s of Some n \<Rightarrow> n | None \<Rightarrow> - 1),
      abi_O_CREAT = 0x40, abi_EPERM = 1\<rparr>"

text \<open>Different names have different numbers.\<close>

lemma x86_64_distinct: "distinct (map snd x86_64_table)" "distinct (map fst x86_64_table)"
  by (simp_all add: x86_64_table_def)

lemma x86_64_listed: "set (''open'' # listed f) \<subseteq> set (map fst x86_64_table)"
  by (cases f) (simp_all add: listed_def table_defs x86_64_table_def)

lemma x86_64_inj: "inj_on (abi_nr x86_64) (set (map fst x86_64_table))"
proof (rule inj_onI)
  fix a b
  assume "a \<in> set (map fst x86_64_table)" "b \<in> set (map fst x86_64_table)" "abi_nr x86_64 a = abi_nr x86_64 b"
  then obtain m n where "(a, m) \<in> set x86_64_table" "(b, n) \<in> set x86_64_table"
      and "abi_nr x86_64 a = abi_nr x86_64 b" by auto
  then have "(a, m) \<in> set x86_64_table" "(b, m) \<in> set x86_64_table"
    using x86_64_distinct(2) by (auto simp: x86_64_def)
  then show "a = b"
    using x86_64_distinct(1) by (metis distinct_map inj_onD prod.inject snd_conv)
qed

end
