(* ===== verification/Seccomp.thy ===== *)
theory Seccomp
  imports Seccomp_Tables
begin

text \<open>
  \<^verbatim>\<open>lib/sandbox_seccomp/src/lib.rs\<close>: the shared library that a runner loads into the process
  that will execute untrusted code. It hardens the process with a sequence of kernel calls and
  installs a seccomp filter through \<^verbatim>\<open>libseccomp\<close>.

  The kernel and \<^verbatim>\<open>libseccomp\<close> are not part of the program. A call is an \<open>event\<close>; what it
  returns is decided by the parameter \<open>kern\<close>, which sees the calls made so far, so every
  pattern of failures is covered. An operation returns its result and the trace of calls.
  How a loaded filter judges a system call is the parameter of the locale \<open>libseccomp\<close>.
\<close>

section \<open>Model\<close>

subsection \<open>Calls\<close>

datatype compare_op = SCMP_CMP_EQ | SCMP_CMP_NE | SCMP_CMP_MASKED_EQ

record arg_cmp =
  cmp_arg :: nat
  cmp_op :: compare_op
  datum_a :: u64
  datum_b :: u64

datatype action = SCMP_ACT_KILL_PROCESS | SCMP_ACT_ALLOW | SCMP_ACT_ERRNO u16

datatype prctl_option = PR_SET_NO_NEW_PRIVS | PR_SET_DUMPABLE

datatype event =
    Setrlimit_AS u64 u64
  | Chroot string
  | Chdir string
  | Prctl prctl_option nat
  | Setgroups_none
  | Setgid u32
  | Setuid u32
  | Seccomp_init action
  | Rule_add int action i32 "arg_cmp list"
  | Seccomp_load int
  | Seccomp_release int

type_synonym kernel = "event list \<Rightarrow> event \<Rightarrow> int"
type_synonym sys = "event list \<Rightarrow> (unit, int) result \<times> event list"

text \<open>\<^verbatim>\<open>if unsafe { call } != 0 { return Err(code); }\<close>, and the same with a context to release first.\<close>

definition check :: "kernel \<Rightarrow> event \<Rightarrow> int \<Rightarrow> sys" where
  "check kern ev code tr = (if kern tr ev \<noteq> 0 then Inl code else Inr (), tr @ [ev])"

definition check_release :: "kernel \<Rightarrow> int \<Rightarrow> event \<Rightarrow> int \<Rightarrow> sys" where
  "check_release kern ctx ev code tr =
     (if kern tr ev \<noteq> 0 then (Inl code, tr @ [ev, Seccomp_release ctx]) else (Inr (), tr @ [ev]))"

definition seq :: "sys \<Rightarrow> sys \<Rightarrow> sys" where
  "seq m k tr = (case m tr of (Inl e, tr') \<Rightarrow> (Inl e, tr') | (Inr u, tr') \<Rightarrow> k tr')"

definition skip :: sys where
  "skip tr = (Inr (), tr)"

fun seq_all :: "sys list \<Rightarrow> sys" where
  "seq_all [] = skip"
| "seq_all (m # ms) = seq m (seq_all ms)"

subsection \<open>Operations\<close>

definition FIONBIO :: u64 where "FIONBIO = 0x5421"

definition get_allowed_syscalls ::
  "libc_abi \<Rightarrow> feature \<Rightarrow> (string \<Rightarrow> string option) \<Rightarrow> bool \<Rightarrow> i32 list \<times> i32 list" where
  "get_allowed_syscalls abi f env enable_network =
     (let not_kill = map (abi_nr abi) (ALLOW_ERROR_SYSCALLS f);
          listed_in_env = (case env ''ALLOWED_SYSCALLS'' of
             None \<Rightarrow> []
           | Some v \<Rightarrow> if v = [] then [] else List.map_filter parse_i32 (str_split CHR '','' v));
          allowed = (if listed_in_env = []
             then map (abi_nr abi) (ALLOW_SYSCALLS f) @
                  (if enable_network then map (abi_nr abi) (ALLOW_NETWORK_SYSCALLS f) else [])
             else listed_in_env)
      in (allowed, not_kill))"

definition setup_root :: "kernel \<Rightarrow> sys" where
  "setup_root kern = seq (check kern (Chroot ''.'') (- 1)) (check kern (Chdir ''/'') (- 2))"

definition set_no_new_privs :: "kernel \<Rightarrow> sys" where
  "set_no_new_privs kern =
     seq (check kern (Prctl PR_SET_NO_NEW_PRIVS 1) (- 3)) (check kern (Prctl PR_SET_DUMPABLE 0) (- 12))"

definition drop_privileges :: "kernel \<Rightarrow> u32 \<Rightarrow> u32 \<Rightarrow> sys" where
  "drop_privileges kern uid gid =
     seq (check kern Setgroups_none (- 10))
    (seq (check kern (Setgid gid) (- 4))
         (check kern (Setuid uid) (- 5)))"

definition set_memory_limit :: "kernel \<Rightarrow> u64 \<Rightarrow> sys" where
  "set_memory_limit kern max_as_bytes =
     (if max_as_bytes = 0 then skip else check kern (Setrlimit_AS max_as_bytes max_as_bytes) (- 11))"

definition eperm :: "libc_abi \<Rightarrow> action" where
  "eperm abi = SCMP_ACT_ERRNO (ucast (abi_EPERM abi))"

text \<open>The comparison that guards \<^verbatim>\<open>openat\<close> (flags in argument 2) and \<^verbatim>\<open>open\<close> (flags in argument 1).\<close>

definition no_creat_cmp :: "libc_abi \<Rightarrow> nat \<Rightarrow> arg_cmp" where
  "no_creat_cmp abi i =
     \<lparr>cmp_arg = i, cmp_op = SCMP_CMP_MASKED_EQ, datum_a = 0, datum_b = scast (abi_O_CREAT abi)\<rparr>"

definition allow_syscall :: "kernel \<Rightarrow> libc_abi \<Rightarrow> int \<Rightarrow> i32 \<Rightarrow> sys" where
  "allow_syscall kern abi ctx sc =
     (if sc = abi_nr abi ''openat'' then
        check_release kern ctx (Rule_add ctx SCMP_ACT_ALLOW sc [no_creat_cmp abi 2]) (- 7)
      else if sc = abi_nr abi ''open'' then
        check_release kern ctx (Rule_add ctx SCMP_ACT_ALLOW sc [no_creat_cmp abi 1]) (- 7)
      else if sc = abi_nr abi ''ioctl'' then
        seq (check_release kern ctx (Rule_add ctx SCMP_ACT_ALLOW sc
               [\<lparr>cmp_arg = 1, cmp_op = SCMP_CMP_EQ, datum_a = FIONBIO, datum_b = 0\<rparr>]) (- 7))
            (check_release kern ctx (Rule_add ctx (eperm abi) sc
               [\<lparr>cmp_arg = 1, cmp_op = SCMP_CMP_NE, datum_a = FIONBIO, datum_b = 0\<rparr>]) (- 7))
      else check_release kern ctx (Rule_add ctx SCMP_ACT_ALLOW sc []) (- 7))"

definition install_seccomp ::
  "kernel \<Rightarrow> libc_abi \<Rightarrow> feature \<Rightarrow> (string \<Rightarrow> string option) \<Rightarrow> bool \<Rightarrow> sys" where
  "install_seccomp kern abi f env enable_network tr =
     (let ctx = kern tr (Seccomp_init SCMP_ACT_KILL_PROCESS);
          tr = tr @ [Seccomp_init SCMP_ACT_KILL_PROCESS] in
      if ctx = 0 then (Inl (- 6), tr)
      else
        let (allowed, not_kill) = get_allowed_syscalls abi f env enable_network in
        seq (seq_all (map (allow_syscall kern abi ctx) allowed))
       (seq (seq_all (map (\<lambda>sc. check_release kern ctx (Rule_add ctx (eperm abi) sc []) (- 8)) not_kill))
       (seq (check_release kern ctx (Seccomp_load ctx) (- 9))
            (\<lambda>tr. (Inr (), tr @ [Seccomp_release ctx])))) tr)"

definition init_seccomp ::
  "kernel \<Rightarrow> libc_abi \<Rightarrow> feature \<Rightarrow> (string \<Rightarrow> string option) \<Rightarrow> u32 \<Rightarrow> u32 \<Rightarrow> i32 \<Rightarrow> u64 \<Rightarrow> i32
     \<Rightarrow> event list \<Rightarrow> int \<times> event list" where
  "init_seccomp kern abi f env uid gid enable_network max_as_bytes privilege tr =
     (let (r, tr) =
        seq (set_memory_limit kern max_as_bytes)
       (seq (if privilege \<noteq> 0 then setup_root kern else skip)
       (seq (set_no_new_privs kern)
       (seq (if privilege \<noteq> 0 then drop_privileges kern uid gid else skip)
            (install_seccomp kern abi f env (enable_network \<noteq> 0))))) tr
      in (case r of Inl code \<Rightarrow> code | Inr u \<Rightarrow> 0, tr))"

subsection \<open>Landlock\<close>

text \<open>
  The calls on the \<^verbatim>\<open>landlock\<close> crate's builder, in the order of the chain; \<open>ll\<close> decides whether
  each succeeds, and \<open>status\<close> is what \<^verbatim>\<open>restrict_self\<close> reports.
\<close>

datatype landlock_call =
    Handle_access_all
  | Scope_signal
  | Create_ruleset
  | Add_read_rules "string list"
  | Restrict_self

datatype ruleset_status = FullyEnforced | PartiallyEnforced | NotEnforced

text \<open>A C array of paths is \<open>None\<close> for the null pointer; a path that is not UTF-8 is left out.\<close>

definition apply_landlock ::
  "(landlock_call \<Rightarrow> bool) \<Rightarrow> ruleset_status \<Rightarrow> bytes list option \<Rightarrow> int" where
  "apply_landlock ll status paths =
     (case paths of
        None \<Rightarrow> - 20
      | Some ps \<Rightarrow>
          let path_strs = map bytes_str (filter utf8_valid ps) in
          if path_strs = [] then - 20
          else if ll Handle_access_all \<and> ll Scope_signal \<and> ll Create_ruleset
                  \<and> ll (Add_read_rules path_strs) \<and> ll Restrict_self
          then (case status of FullyEnforced \<Rightarrow> 0 | PartiallyEnforced \<Rightarrow> 0 | NotEnforced \<Rightarrow> - 23)
          else - 21)"

text \<open>The array \<^verbatim>\<open>[lib_path, NULL]\<close>: a null path is an empty array.\<close>

definition apply_landlock_one :: "(landlock_call \<Rightarrow> bool) \<Rightarrow> ruleset_status \<Rightarrow> bytes option \<Rightarrow> int" where
  "apply_landlock_one ll status lib_path =
     apply_landlock ll status (Some (case lib_path of None \<Rightarrow> [] | Some p \<Rightarrow> [p]))"

definition get_lib_feature_static :: "feature \<Rightarrow> string" where
  "get_lib_feature_static f = (case f of Python3 \<Rightarrow> ''python3'' | Nodejs \<Rightarrow> ''nodejs'')"

section \<open>The sequence of calls\<close>

text \<open>
  The specification: hardening is a list of steps, each a call with the code that reports its
  failure and the calls that clean up after it, executed until one fails.
\<close>

type_synonym step = "event \<times> int \<times> event list"

fun run_steps :: "kernel \<Rightarrow> step list \<Rightarrow> sys" where
  "run_steps kern [] tr = (Inr (), tr)"
| "run_steps kern ((ev, code, cleanup) # steps) tr =
     (if kern tr ev \<noteq> 0 then (Inl code, tr @ ev # cleanup) else run_steps kern steps (tr @ [ev]))"

definition harden_steps :: "u64 \<Rightarrow> i32 \<Rightarrow> u32 \<Rightarrow> u32 \<Rightarrow> step list" where
  "harden_steps mem privilege uid gid =
     (if mem = 0 then [] else [(Setrlimit_AS mem mem, - 11, [])]) @
     (if privilege \<noteq> 0 then [(Chroot ''.'', - 1, []), (Chdir ''/'', - 2, [])] else []) @
     [(Prctl PR_SET_NO_NEW_PRIVS 1, - 3, []), (Prctl PR_SET_DUMPABLE 0, - 12, [])] @
     (if privilege \<noteq> 0 then [(Setgroups_none, - 10, []), (Setgid gid, - 4, []), (Setuid uid, - 5, [])]
      else [])"

definition allow_rules :: "libc_abi \<Rightarrow> i32 \<Rightarrow> (action \<times> i32 \<times> arg_cmp list) list" where
  "allow_rules abi sc =
     (if sc = abi_nr abi ''openat'' then [(SCMP_ACT_ALLOW, sc, [no_creat_cmp abi 2])]
      else if sc = abi_nr abi ''open'' then [(SCMP_ACT_ALLOW, sc, [no_creat_cmp abi 1])]
      else if sc = abi_nr abi ''ioctl'' then
        [(SCMP_ACT_ALLOW, sc, [\<lparr>cmp_arg = 1, cmp_op = SCMP_CMP_EQ, datum_a = FIONBIO, datum_b = 0\<rparr>]),
         (eperm abi, sc, [\<lparr>cmp_arg = 1, cmp_op = SCMP_CMP_NE, datum_a = FIONBIO, datum_b = 0\<rparr>])]
      else [(SCMP_ACT_ALLOW, sc, [])])"

text \<open>The rules of the filter, in the order in which they are added.\<close>

definition filter_rules ::
  "libc_abi \<Rightarrow> feature \<Rightarrow> (string \<Rightarrow> string option) \<Rightarrow> bool \<Rightarrow> (action \<times> i32 \<times> arg_cmp list) list" where
  "filter_rules abi f env net =
     concat (map (allow_rules abi) (fst (get_allowed_syscalls abi f env net))) @
     map (\<lambda>sc. (eperm abi, sc, [])) (snd (get_allowed_syscalls abi f env net))"

definition rule_step :: "int \<Rightarrow> int \<Rightarrow> action \<times> i32 \<times> arg_cmp list \<Rightarrow> step" where
  "rule_step ctx code r = (Rule_add ctx (fst r) (fst (snd r)) (snd (snd r)), code, [Seccomp_release ctx])"

definition filter_steps :: "libc_abi \<Rightarrow> feature \<Rightarrow> (string \<Rightarrow> string option) \<Rightarrow> bool \<Rightarrow> int \<Rightarrow> step list" where
  "filter_steps abi f env net ctx =
     map (rule_step ctx (- 7)) (concat (map (allow_rules abi) (fst (get_allowed_syscalls abi f env net)))) @
     map (rule_step ctx (- 8)) (map (\<lambda>sc. (eperm abi, sc, [])) (snd (get_allowed_syscalls abi f env net))) @
     [(Seccomp_load ctx, - 9, [Seccomp_release ctx])]"

definition hardening_spec ::
  "kernel \<Rightarrow> step list \<Rightarrow> (int \<Rightarrow> step list) \<Rightarrow> event list \<Rightarrow> int \<times> event list" where
  "hardening_spec kern before filt tr =
     (case run_steps kern before tr of
        (Inl code, tr) \<Rightarrow> (code, tr)
      | (Inr u, tr) \<Rightarrow>
          let ctx = kern tr (Seccomp_init SCMP_ACT_KILL_PROCESS);
              tr = tr @ [Seccomp_init SCMP_ACT_KILL_PROCESS] in
          if ctx = 0 then (- 6, tr)
          else (case run_steps kern (filt ctx) tr of
                  (Inl code, tr) \<Rightarrow> (code, tr)
                | (Inr u, tr) \<Rightarrow> (0, tr @ [Seccomp_release ctx])))"

subsection \<open>The operations are runs of steps\<close>

lemma run_steps_append:
  "run_steps kern (s @ t) tr = seq (run_steps kern s) (run_steps kern t) tr"
  by (induction kern s tr rule: run_steps.induct) (auto simp: seq_def)

lemma seq_run_steps [simp]: "seq (run_steps kern s) (run_steps kern t) = run_steps kern (s @ t)"
  by (rule ext) (simp add: run_steps_append)

lemma check_steps: "check kern ev code = run_steps kern [(ev, code, [])]"
  by (rule ext) (simp add: check_def)

lemma check_release_steps: "check_release kern ctx ev code = run_steps kern [(ev, code, [Seccomp_release ctx])]"
  by (rule ext) (simp add: check_release_def)

lemma skip_steps: "skip = run_steps kern []"
  by (rule ext) (simp add: skip_def)

lemma seq_assoc [simp]: "seq (seq a b) c = seq a (seq b c)"
  by (rule ext) (auto simp: seq_def split: prod.splits sum.splits)

lemma seq_all_steps: "(\<And>x. x \<in> set xs \<Longrightarrow> g x = run_steps kern (h x)) \<Longrightarrow>
    seq_all (map g xs) = run_steps kern (concat (map h xs))"
  by (induction xs) (simp_all add: skip_steps [where kern = kern])

lemma allow_syscall_steps:
  "allow_syscall kern abi ctx sc = run_steps kern (map (rule_step ctx (- 7)) (allow_rules abi sc))"
  by (simp add: allow_syscall_def allow_rules_def check_release_steps rule_step_def)

lemma harden_operations_steps:
  "seq (set_memory_limit kern mem)
     (seq (if privilege \<noteq> 0 then setup_root kern else skip)
     (seq (set_no_new_privs kern)
          (if privilege \<noteq> 0 then drop_privileges kern uid gid else skip)))
   = run_steps kern (harden_steps mem privilege uid gid)"
  by (simp add: set_memory_limit_def setup_root_def set_no_new_privs_def drop_privileges_def
      harden_steps_def check_steps skip_steps [where kern = kern])

lemma filter_operations_steps:
  assumes "get_allowed_syscalls abi f env net = (allowed, not_kill)"
  shows "seq (seq_all (map (allow_syscall kern abi ctx) allowed))
     (seq (seq_all (map (\<lambda>sc. check_release kern ctx (Rule_add ctx (eperm abi) sc []) (- 8)) not_kill))
          (check_release kern ctx (Seccomp_load ctx) (- 9)))
   = run_steps kern (filter_steps abi f env net ctx)"
proof -
  have "seq_all (map (allow_syscall kern abi ctx) allowed) =
      run_steps kern (map (rule_step ctx (- 7)) (concat (map (allow_rules abi) allowed)))"
    by (subst seq_all_steps [where h = "\<lambda>sc. map (rule_step ctx (- 7)) (allow_rules abi sc)"])
      (simp_all add: allow_syscall_steps map_concat comp_def)
  moreover have "seq_all (map (\<lambda>sc. check_release kern ctx (Rule_add ctx (eperm abi) sc []) (- 8)) not_kill) =
      run_steps kern (map (rule_step ctx (- 8)) (map (\<lambda>sc. (eperm abi, sc, [])) not_kill))"
    by (subst seq_all_steps [where h = "\<lambda>sc. [rule_step ctx (- 8) (eperm abi, sc, [])]"])
      (simp_all add: check_release_steps rule_step_def comp_def)
  ultimately show ?thesis
    using assms by (simp add: check_release_steps filter_steps_def)
qed

lemma install_seccomp_steps:
  "install_seccomp kern abi f env net tr =
     (let ctx = kern tr (Seccomp_init SCMP_ACT_KILL_PROCESS);
          tr = tr @ [Seccomp_init SCMP_ACT_KILL_PROCESS] in
      if ctx = 0 then (Inl (- 6), tr)
      else seq (run_steps kern (filter_steps abi f env net ctx)) (\<lambda>tr. (Inr (), tr @ [Seccomp_release ctx])) tr)"
  by (cases "get_allowed_syscalls abi f env net")
    (simp add: install_seccomp_def Let_def filter_operations_steps [symmetric])

lemma init_seccomp_steps:
  "init_seccomp kern abi f env uid gid net mem privilege tr =
     hardening_spec kern (harden_steps mem privilege uid gid) (filter_steps abi f env (net \<noteq> 0)) tr"
proof -
  have "seq (set_memory_limit kern mem)
      (seq (if privilege \<noteq> 0 then setup_root kern else skip)
      (seq (set_no_new_privs kern)
      (seq (if privilege \<noteq> 0 then drop_privileges kern uid gid else skip)
           (install_seccomp kern abi f env (net \<noteq> 0))))) =
      seq (run_steps kern (harden_steps mem privilege uid gid)) (install_seccomp kern abi f env (net \<noteq> 0))"
    by (simp flip: harden_operations_steps)
  then show ?thesis
    by (simp add: init_seccomp_def hardening_spec_def seq_def install_seccomp_steps Let_def
        split: prod.splits sum.splits)
qed

subsection \<open>What a trace shows\<close>

fun succeeds :: "event \<Rightarrow> int \<Rightarrow> bool" where
  "succeeds (Seccomp_init a) r = (r \<noteq> 0)"
| "succeeds (Seccomp_release c) r = True"
| "succeeds ev r = (r = 0)"

fun all_ok :: "kernel \<Rightarrow> event list \<Rightarrow> event list \<Rightarrow> bool" where
  "all_ok kern tr [] = True"
| "all_ok kern tr (ev # evs) = (succeeds ev (kern tr ev) \<and> all_ok kern (tr @ [ev]) evs)"

text \<open>The code that reports the failure of a call.\<close>

fun failure_code :: "event \<Rightarrow> int" where
  "failure_code (Chroot d) = - 1"
| "failure_code (Chdir d) = - 2"
| "failure_code (Prctl PR_SET_NO_NEW_PRIVS v) = - 3"
| "failure_code (Prctl PR_SET_DUMPABLE v) = - 12"
| "failure_code (Setgid g) = - 4"
| "failure_code (Setuid u) = - 5"
| "failure_code (Seccomp_init a) = - 6"
| "failure_code (Rule_add ctx (SCMP_ACT_ERRNO e) sc []) = - 8"
| "failure_code (Rule_add ctx a sc cmps) = - 7"
| "failure_code (Seccomp_load ctx) = - 9"
| "failure_code Setgroups_none = - 10"
| "failure_code (Setrlimit_AS c m) = - 11"
| "failure_code (Seccomp_release ctx) = 0"

definition harden_calls :: "u64 \<Rightarrow> i32 \<Rightarrow> u32 \<Rightarrow> u32 \<Rightarrow> event list" where
  "harden_calls mem privilege uid gid =
     (if mem = 0 then [] else [Setrlimit_AS mem mem]) @
     (if privilege \<noteq> 0 then [Chroot ''.'', Chdir ''/''] else []) @
     [Prctl PR_SET_NO_NEW_PRIVS 1, Prctl PR_SET_DUMPABLE 0] @
     (if privilege \<noteq> 0 then [Setgroups_none, Setgid gid, Setuid uid] else [])"

definition filter_calls :: "(action \<times> i32 \<times> arg_cmp list) list \<Rightarrow> int \<Rightarrow> event list" where
  "filter_calls rules ctx = map (\<lambda>(a, sc, cmps). Rule_add ctx a sc cmps) rules @ [Seccomp_load ctx]"

definition zero_means_ok :: "event \<Rightarrow> bool" where
  "zero_means_ok ev = (case ev of Seccomp_init a \<Rightarrow> False | Seccomp_release c \<Rightarrow> False | _ \<Rightarrow> True)"

lemma succeeds_zero: "zero_means_ok ev \<Longrightarrow> succeeds ev r \<longleftrightarrow> r = 0"
  by (cases ev) (auto simp: zero_means_ok_def)

lemma all_ok_append: "all_ok kern tr (a @ b) \<longleftrightarrow> all_ok kern tr a \<and> all_ok kern (tr @ a) b"
  by (induction kern tr a rule: all_ok.induct) auto

lemma run_steps_ok:
  assumes "\<forall>s\<in>set steps. zero_means_ok (fst s)"
  shows "run_steps kern steps tr = (Inr u, tr') \<longleftrightarrow>
     all_ok kern tr (map fst steps) \<and> tr' = tr @ map fst steps"
  using assms
  by (induction kern steps tr rule: run_steps.induct) (auto simp: succeeds_zero)

lemma run_steps_fails:
  assumes "run_steps kern steps tr = (Inl code, tr')" and "\<forall>s\<in>set steps. zero_means_ok (fst s)"
  shows "\<exists>s1 ev cleanup s2. steps = s1 @ (ev, code, cleanup) # s2 \<and> tr' = tr @ map fst s1 @ ev # cleanup
    \<and> all_ok kern tr (map fst s1) \<and> \<not> succeeds ev (kern (tr @ map fst s1) ev)"
  using assms
proof (induction kern steps tr rule: run_steps.induct)
  case (2 kern ev c cleanup steps tr)
  show ?case
  proof (cases "kern tr ev = 0")
    case True
    with 2 obtain s1 ev' cl s2 where "steps = s1 @ (ev', code, cl) # s2" "tr' = (tr @ [ev]) @ map fst s1 @ ev' # cl"
      "all_ok kern (tr @ [ev]) (map fst s1)" "\<not> succeeds ev' (kern ((tr @ [ev]) @ map fst s1) ev')"
      by auto
    with True 2 show ?thesis
      by (intro exI [of _ "(ev, c, cleanup) # s1"] exI [of _ ev'] exI [of _ cl] exI [of _ s2])
        (simp add: succeeds_zero)
  next
    case False
    with 2 show ?thesis
      by (intro exI [of _ "[]"] exI [of _ ev] exI [of _ cleanup] exI [of _ steps]) (simp add: succeeds_zero)
  qed
qed simp

lemma map_fst_harden_steps: "map fst (harden_steps mem privilege uid gid) = harden_calls mem privilege uid gid"
  by (simp add: harden_steps_def harden_calls_def)

lemma map_fst_filter_steps: "map fst (filter_steps abi f env net ctx) = filter_calls (filter_rules abi f env net) ctx"
  by (simp add: filter_steps_def filter_calls_def filter_rules_def rule_step_def comp_def case_prod_beta)

lemma harden_steps_shape:
  "\<forall>(ev, code, cleanup)\<in>set (harden_steps mem privilege uid gid).
     zero_means_ok ev \<and> failure_code ev = code \<and> cleanup = [] \<and> code \<noteq> 0
     \<and> ev \<noteq> Seccomp_init SCMP_ACT_KILL_PROCESS \<and> (\<forall>c. ev \<noteq> Seccomp_load c)"
  by (auto simp: harden_steps_def zero_means_ok_def)

lemma allow_rules_code:
  "(a, sc, cmps) \<in> set (allow_rules abi n) \<Longrightarrow> failure_code (Rule_add ctx a sc cmps) = - 7"
  by (auto simp: allow_rules_def eperm_def split: if_splits)

lemma filter_steps_shape:
  "\<forall>(ev, code, cleanup)\<in>set (filter_steps abi f env net ctx).
     zero_means_ok ev \<and> failure_code ev = code \<and> cleanup = [Seccomp_release ctx] \<and> code \<noteq> 0
     \<and> ev \<noteq> Seccomp_init SCMP_ACT_KILL_PROCESS"
  by (auto simp: filter_steps_def rule_step_def zero_means_ok_def allow_rules_code eperm_def)

lemma filter_steps_load_last:
  "filter_steps abi f env net ctx = s1 @ s # s2 \<Longrightarrow> Seccomp_load c \<notin> set (map fst s1)"
proof
  assume split: "filter_steps abi f env net ctx = s1 @ s # s2" and load: "Seccomp_load c \<in> set (map fst s1)"
  obtain rules where rules: "map fst (filter_steps abi f env net ctx) =
      map (\<lambda>(a, sc, cmps). Rule_add ctx a sc cmps) rules @ [Seccomp_load ctx]"
    by (simp add: map_fst_filter_steps filter_calls_def)
  have "set (map fst s1) \<subseteq> set (butlast (map fst (filter_steps abi f env net ctx)))"
    by (simp add: split butlast_append)
  with load have "Seccomp_load c \<in> set (map (\<lambda>(a, sc, cmps). Rule_add ctx a sc cmps) rules)"
    unfolding rules by auto
  then show False by auto
qed

lemma harden_zero: "\<forall>s\<in>set (harden_steps mem privilege uid gid). zero_means_ok (fst s)"
  using harden_steps_shape by fastforce

lemma filter_zero: "\<forall>s\<in>set (filter_steps abi f env net ctx). zero_means_ok (fst s)"
  using filter_steps_shape by fastforce

lemma harden_run: "all_ok kern tr (harden_calls mem privilege uid gid) \<Longrightarrow>
    run_steps kern (harden_steps mem privilege uid gid) tr = (Inr (), tr @ harden_calls mem privilege uid gid)"
  by (simp add: run_steps_ok [OF harden_zero] map_fst_harden_steps)

lemma filter_run: "all_ok kern tr (filter_calls (filter_rules abi f env net) ctx) \<Longrightarrow>
    run_steps kern (filter_steps abi f env net ctx) tr = (Inr (), tr @ filter_calls (filter_rules abi f env net) ctx)"
  by (simp add: run_steps_ok [OF filter_zero] map_fst_filter_steps)

lemma init_code_negative:
  assumes "hardening_spec kern (harden_steps mem privilege uid gid) (filter_steps abi f env net) [] = (0, tr)"
  shows "\<exists>ctx. ctx = kern (harden_calls mem privilege uid gid) (Seccomp_init SCMP_ACT_KILL_PROCESS) \<and> ctx \<noteq> 0
    \<and> run_steps kern (harden_steps mem privilege uid gid) [] = (Inr (), harden_calls mem privilege uid gid)
    \<and> (\<exists>tr'. run_steps kern (filter_steps abi f env net ctx)
         (harden_calls mem privilege uid gid @ [Seccomp_init SCMP_ACT_KILL_PROCESS]) = (Inr (), tr')
         \<and> tr = tr' @ [Seccomp_release ctx])"
proof -
  have "code \<noteq> 0" if "run_steps kern (harden_steps mem privilege uid gid) t = (Inl code, t')" for code t t'
    using run_steps_fails [OF that harden_zero] harden_steps_shape [of mem privilege uid gid] by fastforce
  moreover have "code \<noteq> 0" if "run_steps kern (filter_steps abi f env net ctx) t = (Inl code, t')" for code t t' ctx
    using run_steps_fails [OF that filter_zero] filter_steps_shape [of abi f env net ctx] by fastforce
  ultimately show ?thesis
    using assms
    by (auto simp: hardening_spec_def Let_def run_steps_ok [OF harden_zero] map_fst_harden_steps
        split: prod.splits sum.splits if_splits)
qed

section \<open>Verdicts of a filter\<close>

text \<open>
  What the documentation of \<^verbatim>\<open>libseccomp\<close> promises of a loaded filter: a comparison relates one
  argument with its data (in \<^verbatim>\<open>SCMP_CMP_MASKED_EQ\<close> the first datum is the mask and the second the
  value), a rule applies when the number and all comparisons match, the default action is taken
  when no rule applies, and the action of a rule that applies is taken when no other applicable
  rule contradicts it.
\<close>

definition rule_applies ::
  "(arg_cmp \<Rightarrow> (nat \<Rightarrow> u64) \<Rightarrow> bool) \<Rightarrow> action \<times> i32 \<times> arg_cmp list \<Rightarrow> i32 \<Rightarrow> (nat \<Rightarrow> u64) \<Rightarrow> bool" where
  "rule_applies arg_matches r nr args =
     (fst (snd r) = nr \<and> list_all (\<lambda>c. arg_matches c args) (snd (snd r)))"

lemma allow_rules_number: "r \<in> set (allow_rules abi sc) \<Longrightarrow> fst (snd r) = sc"
  by (auto simp: allow_rules_def split: if_splits)

text \<open>Different names have different numbers, as far as the tables and the call in question go.\<close>

definition abi_ok :: "libc_abi \<Rightarrow> feature \<Rightarrow> string \<Rightarrow> bool" where
  "abi_ok abi f s = inj_on (abi_nr abi) (set (s # ''open'' # listed f))"

locale libseccomp =
  fixes arg_matches :: "arg_cmp \<Rightarrow> (nat \<Rightarrow> u64) \<Rightarrow> bool"
    and verdict :: "action \<Rightarrow> (action \<times> i32 \<times> arg_cmp list) list \<Rightarrow> i32 \<Rightarrow> (nat \<Rightarrow> u64) \<Rightarrow> action"
  assumes cmp_eq: "cmp_op c = SCMP_CMP_EQ \<Longrightarrow> arg_matches c args \<longleftrightarrow> args (cmp_arg c) = datum_a c"
    and cmp_ne: "cmp_op c = SCMP_CMP_NE \<Longrightarrow> arg_matches c args \<longleftrightarrow> args (cmp_arg c) \<noteq> datum_a c"
    and cmp_masked: "cmp_op c = SCMP_CMP_MASKED_EQ \<Longrightarrow>
      arg_matches c args \<longleftrightarrow> args (cmp_arg c) AND datum_a c = datum_b c AND datum_a c"
    and no_rule: "\<forall>r\<in>set rules. \<not> rule_applies arg_matches r nr args \<Longrightarrow> verdict d rules nr args = d"
    and a_rule: "r \<in> set rules \<Longrightarrow> rule_applies arg_matches r nr args \<Longrightarrow>
      (\<And>r'. r' \<in> set rules \<Longrightarrow> rule_applies arg_matches r' nr args \<Longrightarrow> fst r' = fst r) \<Longrightarrow>
      verdict d rules nr args = fst r"
begin

lemma no_creat_always_matches: "arg_matches (no_creat_cmp abi i) args"
  by (simp add: cmp_masked no_creat_cmp_def)

text \<open>The action an admitted call gets.\<close>

lemma allow_rules_action:
  assumes "abi_nr abi ''ioctl'' \<noteq> abi_nr abi ''openat''" and "abi_nr abi ''ioctl'' \<noteq> abi_nr abi ''open''"
  defines "act \<equiv> \<lambda>sc args. if sc = abi_nr abi ''ioctl'' \<and> args 1 \<noteq> FIONBIO then eperm abi else SCMP_ACT_ALLOW"
  shows "\<exists>r\<in>set (allow_rules abi sc). rule_applies arg_matches r sc args \<and> fst r = act sc args"
    and "\<forall>r\<in>set (allow_rules abi sc). rule_applies arg_matches r sc args \<longrightarrow> fst r = act sc args"
  using assms
  by (auto simp: allow_rules_def rule_applies_def no_creat_always_matches cmp_eq cmp_ne)

lemma verdict_filter:
  assumes "abi_nr abi ''ioctl'' \<noteq> abi_nr abi ''openat''" and "abi_nr abi ''ioctl'' \<noteq> abi_nr abi ''open''"
    and disj: "set A \<inter> set E = {}"
  defines "rules \<equiv> concat (map (allow_rules abi) A) @ map (\<lambda>sc. (eperm abi, sc, [])) E"
  shows "verdict d rules nr args =
    (if nr \<in> set A then if nr = abi_nr abi ''ioctl'' \<and> args 1 \<noteq> FIONBIO then eperm abi else SCMP_ACT_ALLOW
     else if nr \<in> set E then eperm abi else d)"
proof (cases "nr \<in> set A")
  case True
  obtain r where r: "r \<in> set (allow_rules abi nr)" "rule_applies arg_matches r nr args"
    "fst r = (if nr = abi_nr abi ''ioctl'' \<and> args 1 \<noteq> FIONBIO then eperm abi else SCMP_ACT_ALLOW)"
    using allow_rules_action(1) [OF assms(1,2), of nr args] by blast
  have "verdict d rules nr args = fst r"
  proof (rule a_rule)
    show "r \<in> set rules" using r(1) True by (auto simp: rules_def)
    fix r' assume r': "r' \<in> set rules" "rule_applies arg_matches r' nr args"
    then have "r' \<in> set (allow_rules abi nr)"
      using True disj by (auto simp: rules_def rule_applies_def dest: allow_rules_number)
    with r'(2) r(3) show "fst r' = fst r"
      using allow_rules_action(2) [OF assms(1,2), of nr args] by simp
  qed (rule r(2))
  with r(3) True show ?thesis by simp
next
  case False
  then have only: "r \<in> set rules \<Longrightarrow> rule_applies arg_matches r nr args \<Longrightarrow> r = (eperm abi, nr, []) \<and> nr \<in> set E" for r
    by (auto simp: rules_def rule_applies_def dest: allow_rules_number)
  show ?thesis
  proof (cases "nr \<in> set E")
    case True
    have "verdict d rules nr args = fst (eperm abi, nr, [] :: arg_cmp list)"
    proof (rule a_rule)
      show "(eperm abi, nr, []) \<in> set rules" using True by (simp add: rules_def)
      show "rule_applies arg_matches (eperm abi, nr, []) nr args" by (simp add: rule_applies_def)
    qed (auto dest: only)
    with True False show ?thesis by simp
  next
    case not_err: False
    have "verdict d rules nr args = d"
      by (rule no_rule) (use only not_err in blast)
    with False not_err show ?thesis by simp
  qed
qed

text \<open>The verdict of the filter built from the built-in tables, by name.\<close>

lemma builtin_verdict:
  assumes "abi_ok abi f s" and "env ''ALLOWED_SYSCALLS'' = None \<or> env ''ALLOWED_SYSCALLS'' = Some []"
  shows "verdict d (filter_rules abi f env net) (abi_nr abi s) args =
    (if s = ''ioctl'' then if args 1 = FIONBIO then SCMP_ACT_ALLOW else eperm abi
     else if s \<in> set (ALLOW_SYSCALLS f) \<or> net \<and> s \<in> set (ALLOW_NETWORK_SYSCALLS f) then SCMP_ACT_ALLOW
     else if s \<in> set (ALLOW_ERROR_SYSCALLS f) then eperm abi
     else d)"
proof -
  let ?A = "ALLOW_SYSCALLS f @ (if net then ALLOW_NETWORK_SYSCALLS f else [])"
  have inj: "inj_on (abi_nr abi) (set (s # ''open'' # listed f))"
    using assms(1) by (simp add: abi_ok_def)
  have mem: "abi_nr abi s \<in> set (map (abi_nr abi) xs) \<longleftrightarrow> s \<in> set xs" if "set xs \<subseteq> set (listed f)" for xs
    using inj that by (auto simp: inj_on_def)
  have eq: "abi_nr abi a = abi_nr abi b \<longleftrightarrow> a = b" if "a \<in> set (s # ''open'' # listed f)" "b \<in> set (s # ''open'' # listed f)" for a b
    using inj that by (auto simp: inj_on_def)
  have listed: "''ioctl'' \<in> set (listed f)" "''openat'' \<in> set (listed f)"
      "set ?A \<subseteq> set (listed f)" "set (ALLOW_ERROR_SYSCALLS f) \<subseteq> set (listed f)"
    using ioctl_allowed openat_allowed by (auto simp: listed_def)
  have disj: "set (map (abi_nr abi) ?A) \<inter> set (map (abi_nr abi) (ALLOW_ERROR_SYSCALLS f)) = {}"
    using allow_error_disjoint [of f] inj_on_image_Int [OF inj, of "set ?A" "set (ALLOW_ERROR_SYSCALLS f)"] listed(3,4)
    by auto
  have rules: "filter_rules abi f env net =
      concat (map (allow_rules abi) (map (abi_nr abi) ?A)) @
      map (\<lambda>sc. (eperm abi, sc, [])) (map (abi_nr abi) (ALLOW_ERROR_SYSCALLS f))"
    using assms(2) by (auto simp: filter_rules_def get_allowed_syscalls_def Let_def)
  have ne: "abi_nr abi ''ioctl'' \<noteq> abi_nr abi ''openat''" "abi_nr abi ''ioctl'' \<noteq> abi_nr abi ''open''"
    using eq listed by simp_all
  have io: "abi_nr abi s = abi_nr abi ''ioctl'' \<longleftrightarrow> s = ''ioctl''"
    using listed by (intro eq) simp_all
  have s: "s = ''ioctl'' \<Longrightarrow> s \<in> set ?A" using ioctl_allowed [of f] by simp
  show ?thesis
    unfolding rules verdict_filter [OF ne disj] mem [OF listed(3)] mem [OF listed(4)] io
    using s by auto
qed

end

subsection \<open>A reference filter\<close>

text \<open>An executable filter that keeps the promises: the first applicable rule decides.\<close>

definition ref_matches :: "arg_cmp \<Rightarrow> (nat \<Rightarrow> u64) \<Rightarrow> bool" where
  "ref_matches c args =
     (case cmp_op c of
        SCMP_CMP_EQ \<Rightarrow> args (cmp_arg c) = datum_a c
      | SCMP_CMP_NE \<Rightarrow> args (cmp_arg c) \<noteq> datum_a c
      | SCMP_CMP_MASKED_EQ \<Rightarrow> args (cmp_arg c) AND datum_a c = datum_b c AND datum_a c)"

definition ref_verdict :: "action \<Rightarrow> (action \<times> i32 \<times> arg_cmp list) list \<Rightarrow> i32 \<Rightarrow> (nat \<Rightarrow> u64) \<Rightarrow> action" where
  "ref_verdict d rules nr args =
     (case find (\<lambda>r. rule_applies ref_matches r nr args) rules of None \<Rightarrow> d | Some r \<Rightarrow> fst r)"

interpretation ref: libseccomp ref_matches ref_verdict
proof unfold_locales
  fix rules nr args d
  assume "\<forall>r\<in>set rules. \<not> rule_applies ref_matches r nr args"
  then show "ref_verdict d rules nr args = d"
    by (simp add: ref_verdict_def iffD2 [OF find_None_iff])
next
  fix r rules nr args d
  assume "r \<in> set rules" "rule_applies ref_matches r nr args"
    and *: "\<And>r'. r' \<in> set rules \<Longrightarrow> rule_applies ref_matches r' nr args \<Longrightarrow> fst r' = fst r"
  then obtain r' where "find (\<lambda>r. rule_applies ref_matches r nr args) rules = Some r'"
    by (metis find_None_iff option.exhaust)
  moreover from this have "r' \<in> set rules \<and> rule_applies ref_matches r' nr args"
    by (metis (no_types, lifting) find_Some_iff nth_mem)
  ultimately show "ref_verdict d rules nr args = fst r"
    using * by (simp add: ref_verdict_def)
qed (simp_all add: ref_matches_def)

lemma x86_64_ok: "s \<in> set (map fst x86_64_table) \<Longrightarrow> abi_ok x86_64 f s"
  unfolding abi_ok_def by (rule inj_on_subset [OF x86_64_inj]) (use x86_64_listed [of f] in simp)

lemma init_succeeds:
  fixes kern abi f env uid gid net mem privilege
  defines "before \<equiv> harden_calls mem privilege uid gid @ [Seccomp_init SCMP_ACT_KILL_PROCESS]"
  defines "ctx \<equiv> kern (harden_calls mem privilege uid gid) (Seccomp_init SCMP_ACT_KILL_PROCESS)"
  defines "calls \<equiv> before @ filter_calls (filter_rules abi f env (net \<noteq> 0)) ctx @ [Seccomp_release ctx]"
  shows "fst (init_seccomp kern abi f env uid gid net mem privilege []) = 0 \<longleftrightarrow> all_ok kern [] calls"
    and "init_seccomp kern abi f env uid gid net mem privilege [] = (0, calls) \<longleftrightarrow> all_ok kern [] calls"
proof -
  let ?i = "init_seccomp kern abi f env uid gid net mem privilege []"
  have "?i = (0, calls)" if "all_ok kern [] calls"
    using that
    by (simp add: init_seccomp_steps hardening_spec_def Let_def calls_def before_def all_ok_append ctx_def
        harden_run filter_run)
  moreover have "all_ok kern [] calls" if "fst ?i = 0"
  proof -
    have "hardening_spec kern (harden_steps mem privilege uid gid) (filter_steps abi f env (net \<noteq> 0)) [] = (0, snd ?i)"
      using that by (simp add: init_seccomp_steps prod_eq_iff)
    from init_code_negative [OF this] show ?thesis
      by (auto simp: calls_def before_def ctx_def all_ok_append run_steps_ok [OF harden_zero]
          run_steps_ok [OF filter_zero] map_fst_harden_steps map_fst_filter_steps)
  qed
  ultimately show "fst ?i = 0 \<longleftrightarrow> all_ok kern [] calls" "?i = (0, calls) \<longleftrightarrow> all_ok kern [] calls"
    by (metis fst_conv)+
qed

text \<open>The filter that a trace of calls has put in force.\<close>

definition loaded_rules :: "event list \<Rightarrow> (action \<times> i32 \<times> arg_cmp list) list" where
  "loaded_rules tr =
     List.map_filter (\<lambda>ev. case ev of Rule_add ctx a sc cmps \<Rightarrow> Some (a, sc, cmps) | _ \<Rightarrow> None) tr"

definition loaded_default :: "event list \<Rightarrow> action list" where
  "loaded_default tr = List.map_filter (\<lambda>ev. case ev of Seccomp_init a \<Rightarrow> Some a | _ \<Rightarrow> None) tr"

lemma map_filter_append: "List.map_filter g (xs @ ys) = List.map_filter g xs @ List.map_filter g ys"
  by (simp add: List.map_filter_def)

lemma loaded_calls:
  "loaded_rules (harden_calls mem privilege uid gid) = []"
  "loaded_default (harden_calls mem privilege uid gid) = []"
  by (simp_all add: loaded_rules_def loaded_default_def harden_calls_def map_filter_append map_filter_simps)

lemma loaded_filter_calls:
  "loaded_rules (filter_calls rules ctx) = rules"
  "loaded_default (filter_calls rules ctx) = []"
  by (induction rules)
    (auto simp: loaded_rules_def loaded_default_def filter_calls_def map_filter_append map_filter_simps)

lemma init_loads:
  assumes "init_seccomp kern abi f env uid gid net mem privilege [] = (0, trace)"
  shows "loaded_rules trace = filter_rules abi f env (net \<noteq> 0)" "loaded_default trace = [SCMP_ACT_KILL_PROCESS]"
proof -
  have "trace = harden_calls mem privilege uid gid @ [Seccomp_init SCMP_ACT_KILL_PROCESS] @
      filter_calls (filter_rules abi f env (net \<noteq> 0))
        (kern (harden_calls mem privilege uid gid) (Seccomp_init SCMP_ACT_KILL_PROCESS)) @
      [Seccomp_release (kern (harden_calls mem privilege uid gid) (Seccomp_init SCMP_ACT_KILL_PROCESS))]"
    using init_succeeds [of kern abi f env uid gid net mem privilege] assms by simp
  then show "loaded_rules trace = filter_rules abi f env (net \<noteq> 0)" "loaded_default trace = [SCMP_ACT_KILL_PROCESS]"
    using loaded_calls loaded_filter_calls by (simp_all add: loaded_rules_def loaded_default_def map_filter_append map_filter_simps)
qed

text \<open>A kernel on which every call succeeds.\<close>

definition all_good :: kernel where
  "all_good tr ev = (case ev of Seccomp_init a \<Rightarrow> 7 | _ \<Rightarrow> 0)"

lemma all_good_ok: "all_ok all_good tr evs"
proof (induction evs arbitrary: tr)
  case (Cons ev evs)
  then show ?case by (cases ev) (simp_all add: all_good_def)
qed simp

lemma all_good_succeeds:
  "init_seccomp all_good abi f env uid gid net mem privilege [] =
     (0, snd (init_seccomp all_good abi f env uid gid net mem privilege []))"
  by (simp add: prod_eq_iff init_succeeds all_good_ok)

text \<open>A kernel that refuses to change the group.\<close>

definition no_setgid :: kernel where
  "no_setgid tr ev = (case ev of Setgid g \<Rightarrow> - 1 | Seccomp_init a \<Rightarrow> 7 | _ \<Rightarrow> 0)"

section \<open>The list of numbers in the environment\<close>

lemma nat_digits_hd: "hd (nat_digits n) \<noteq> CHR ''-''" and nat_digits_comma: "CHR '','' \<notin> set (nat_digits n)"
proof -
  have "digit_val (CHR ''-'') = None" "digit_val (CHR '','') = None" by (simp_all add: digit_val_def)
  then show "hd (nat_digits n) \<noteq> CHR ''-''" "CHR '','' \<notin> set (nat_digits n)"
    using nat_digits_digit [of _ n] hd_in_set [OF nat_digits_not_Nil, of n] by metis+
qed

lemma parse_i32_nat_digits: "n < 2 ^ 31 \<Longrightarrow> parse_i32 (nat_digits n) = Some (of_nat n)"
  by (simp add: parse_i32_def nat_digits_hd parse_unsigned_nat_digits)

lemma map_filter_parse_digits:
  "\<forall>n\<in>set ns. n < 2 ^ 31 \<Longrightarrow> List.map_filter parse_i32 (map nat_digits ns) = map of_nat ns"
  by (induction ns) (simp_all add: map_filter_simps parse_i32_nat_digits)

section \<open>Properties\<close>

text \<open>C14. The sandbox is entered, that is \<^verbatim>\<open>init_seccomp\<close> returns 0, exactly when every call of the
  documented sequence succeeds, and it has then made these calls in this order and no other:
  the memory limit unless disabled; in privileged mode the chroot; no-new-privs and the dumpable
  flag; in privileged mode the loss of groups, then group, then user; at last the filter, with
  every rule added before it is loaded, and its context released.\<close>

theorem init_order:
  fixes kern abi f env uid gid net mem privilege
  defines "before \<equiv> harden_calls mem privilege uid gid @ [Seccomp_init SCMP_ACT_KILL_PROCESS]"
  defines "ctx \<equiv> kern (harden_calls mem privilege uid gid) (Seccomp_init SCMP_ACT_KILL_PROCESS)"
  defines "calls \<equiv> before @ filter_calls (filter_rules abi f env (net \<noteq> 0)) ctx @ [Seccomp_release ctx]"
  shows "(fst (init_seccomp kern abi f env uid gid net mem privilege []) = 0 \<longleftrightarrow> all_ok kern [] calls)
    \<and> (init_seccomp kern abi f env uid gid net mem privilege [] = (0, calls) \<longleftrightarrow> all_ok kern [] calls)"
  unfolding calls_def before_def ctx_def by (intro conjI init_succeeds)

text \<open>C39. When \<^verbatim>\<open>init_seccomp\<close> returns another value, one call failed, all calls before it succeeded,
  none of them loaded a filter, and none follows but the release of the filter context if one was
  created. The value returned is the code of the call that failed; different kinds of calls have
  different codes.\<close>

theorem init_failure_identified:
  assumes "init_seccomp kern abi f env uid gid net mem privilege [] = (code, trace)" and "code \<noteq> 0"
  shows "\<exists>pre ev. \<not> succeeds ev (kern pre ev) \<and> all_ok kern [] pre \<and> code = failure_code ev
    \<and> (\<forall>c. Seccomp_load c \<notin> set pre)
    \<and> trace = pre @ ev #
        (if Seccomp_init SCMP_ACT_KILL_PROCESS \<in> set pre
         then [Seccomp_release (kern (takeWhile (\<lambda>e. e \<noteq> Seccomp_init SCMP_ACT_KILL_PROCESS) pre)
                 (Seccomp_init SCMP_ACT_KILL_PROCESS))]
         else [])"
proof -
  let ?h = "harden_steps mem privilege uid gid" and ?K = "Seccomp_init SCMP_ACT_KILL_PROCESS"
  let ?b = "harden_calls mem privilege uid gid"
  let ?f = "filter_steps abi f env (net \<noteq> 0) (kern ?b ?K)"
  have spec: "hardening_spec kern ?h (filter_steps abi f env (net \<noteq> 0)) [] = (code, trace)"
    using assms(1) by (simp add: init_seccomp_steps)
  have no_init: "?K \<notin> set ?b" and no_load: "Seccomp_load c \<notin> set ?b" for c
    by (simp_all add: harden_calls_def)
  consider (harden) "run_steps kern ?h [] = (Inl code, trace)"
    | (init) "all_ok kern [] ?b" "kern ?b ?K = 0" "code = - 6" "trace = ?b @ [?K]"
    | (filter) "all_ok kern [] ?b" "kern ?b ?K \<noteq> 0" "run_steps kern ?f (?b @ [?K]) = (Inl code, trace)"
    using spec assms(2)
    by (auto simp: hardening_spec_def Let_def run_steps_ok [OF harden_zero] map_fst_harden_steps
        split: prod.splits sum.splits if_splits)
  then show ?thesis
  proof cases
    case harden
    then obtain s1 ev cl s2 where s: "?h = s1 @ (ev, code, cl) # s2" "trace = map fst s1 @ ev # cl"
        "all_ok kern [] (map fst s1)" "\<not> succeeds ev (kern (map fst s1) ev)"
      using run_steps_fails [OF harden harden_zero] by auto
    have "set (map fst s1) \<subseteq> set ?b"
      unfolding map_fst_harden_steps [symmetric] s(1) by auto
    then have "?K \<notin> set (map fst s1)" "\<forall>c. Seccomp_load c \<notin> set (map fst s1)"
      using no_init no_load by blast+
    moreover have "failure_code ev = code" "cl = []"
      using harden_steps_shape [of mem privilege uid gid] by (auto simp: s(1))
    ultimately show ?thesis
      using s by (intro exI [of _ "map fst s1"] exI [of _ ev]) simp
  next
    case init
    then show ?thesis
      using no_init no_load by (intro exI [of _ ?b] exI [of _ ?K]) simp
  next
    case filter
    then obtain s1 ev cl s2 where s: "?f = s1 @ (ev, code, cl) # s2" "trace = (?b @ [?K]) @ map fst s1 @ ev # cl"
        "all_ok kern (?b @ [?K]) (map fst s1)" "\<not> succeeds ev (kern ((?b @ [?K]) @ map fst s1) ev)"
      using run_steps_fails [OF filter(3) filter_zero] by blast
    have "failure_code ev = code" "cl = [Seccomp_release (kern ?b ?K)]"
      using filter_steps_shape [of abi f env "net \<noteq> 0" "kern ?b ?K"] by (auto simp: s(1))
    moreover have "takeWhile (\<lambda>e. e \<noteq> ?K) (?b @ ?K # map fst s1) = ?b"
      using no_init by (subst takeWhile_append2) auto
    moreover have "Seccomp_load c \<notin> set (map fst s1)" for c
      using filter_steps_load_last [OF s(1)] .
    ultimately show ?thesis
      using s filter no_load
      by (intro exI [of _ "?b @ ?K # map fst s1"] exI [of _ ev]) (simp add: all_ok_append)
  qed
qed

theorem init_failure_identified_witness:
  "\<exists>pre ev. \<not> succeeds ev (no_setgid pre ev) \<and> all_ok no_setgid [] pre \<and> failure_code ev = - 4"
proof -
  have "\<forall>net. fst (init_seccomp no_setgid x86_64 Python3 (\<lambda>v. None) 65537 65537 net 0 1 []) = - 4"
    by (simp add: init_seccomp_steps hardening_spec_def harden_steps_def no_setgid_def)
  then have "init_seccomp no_setgid x86_64 Python3 (\<lambda>v. None) 65537 65537 0 0 1 [] =
      (- 4, snd (init_seccomp no_setgid x86_64 Python3 (\<lambda>v. None) 65537 65537 0 0 1 []))"
    by (simp add: prod_eq_iff)
  from init_failure_identified [OF this] show ?thesis by fastforce
qed



text \<open>C40. The guard on file creation does not guard: the comparison written for \<^verbatim>\<open>openat\<close> has the mask
  zero, since \<^verbatim>\<open>SCMP_CMP_MASKED_EQ\<close> takes its mask from the first datum, so \<^verbatim>\<open>openat\<close> passes whatever its
  flags are, also with \<^verbatim>\<open>O_CREAT\<close>. The calls of the source were meant to let such a call fall through
  to the kill action.\<close>

theorem openat_creat_passes:
  assumes "libseccomp arg_matches verdict" and "abi_ok abi f ''openat''"
    and "env ''ALLOWED_SYSCALLS'' = None \<or> env ''ALLOWED_SYSCALLS'' = Some []"
    and "init_seccomp kern abi f env uid gid net mem privilege [] = (0, trace)"
  shows "verdict (hd (loaded_default trace)) (loaded_rules trace) (abi_nr abi ''openat'') args = SCMP_ACT_ALLOW"
  using libseccomp.builtin_verdict [where env = env, OF assms(1-3), of _ "net \<noteq> 0" args] init_loads [OF assms(4)]
    openat_allowed [of f] by simp

theorem openat_creat_passes_witness:
  "let trace = snd (init_seccomp all_good x86_64 Python3 (\<lambda>v. None) 65537 65537 0 0 1 []) in
     ref_verdict (hd (loaded_default trace)) (loaded_rules trace) (abi_nr x86_64 ''openat'') (\<lambda>i. 0x41)
       = SCMP_ACT_ALLOW"
proof -
  have "abi_ok x86_64 Python3 ''openat''" by (rule x86_64_ok) (simp add: x86_64_table_def)
  from openat_creat_passes [OF ref.libseccomp_axioms this _ all_good_succeeds] show ?thesis
    by (simp add: Let_def)
qed

text \<open>Without network access every call that opens or uses a network connection kills the process;
  with it, it passes.\<close>

theorem network_gate:
  assumes "libseccomp arg_matches verdict" and "abi_ok abi f s"
    and "env ''ALLOWED_SYSCALLS'' = None \<or> env ''ALLOWED_SYSCALLS'' = Some []"
    and "init_seccomp kern abi f env uid gid net mem privilege [] = (0, trace)"
    and "s \<in> {''socket'', ''connect'', ''bind'', ''listen'', ''accept'', ''sendto'', ''recvfrom'', ''sendmsg'',
      ''recvmsg'', ''setsockopt'', ''getsockopt'', ''getsockname'', ''getpeername''}"
  shows "verdict (hd (loaded_default trace)) (loaded_rules trace) (abi_nr abi s) args =
    (if net \<noteq> 0 then SCMP_ACT_ALLOW else SCMP_ACT_KILL_PROCESS)"
proof -
  have "s \<in> set (ALLOW_NETWORK_SYSCALLS f)" "s \<notin> set (ALLOW_SYSCALLS f)" "s \<notin> set (ALLOW_ERROR_SYSCALLS f)"
      "s \<noteq> ''ioctl''"
    using assms(5) by (cases f; auto simp: table_defs)+
  then show ?thesis
    using libseccomp.builtin_verdict [where env = env, OF assms(1-3), of _ "net \<noteq> 0" args]
      init_loads [OF assms(4)] by simp
qed

theorem network_gate_witness:
  "let trace = snd (init_seccomp all_good x86_64 Nodejs (\<lambda>v. None) 65537 65537 0 0 1 []) in
     ref_verdict (hd (loaded_default trace)) (loaded_rules trace) (abi_nr x86_64 ''socket'') (\<lambda>i. 2)
       = SCMP_ACT_KILL_PROCESS"
proof -
  have "abi_ok x86_64 Nodejs ''socket''" by (rule x86_64_ok) (simp add: x86_64_table_def)
  from network_gate [OF ref.libseccomp_axioms this _ all_good_succeeds] show ?thesis
    by (simp add: Let_def)
qed

text \<open>A whitelist in the environment replaces the built-in one: the numbers written there, separated
  by commas, are the calls admitted, in the same order; the network switch then adds nothing.\<close>

theorem allowed_syscalls_replaced:
  assumes "ns \<noteq> []" and "\<forall>n\<in>set ns. n < 2 ^ 31"
    and "env ''ALLOWED_SYSCALLS'' = Some (str_join '','' (map nat_digits ns))"
  shows "get_allowed_syscalls abi f env net = (map of_nat ns, map (abi_nr abi) (ALLOW_ERROR_SYSCALLS f))"
proof -
  have split: "str_split CHR '','' (str_join '','' (map nat_digits ns)) = map nat_digits ns"
    using assms(1) by (intro str_split_join) (auto simp: nat_digits_comma)
  moreover have "str_join '','' (map nat_digits ns) \<noteq> []"
    using assms(1) by (metis (no_types, lifting) list.map_disc_iff list.set_intros(1) list.simps(9) nat_digits_not_Nil
        split str_split.simps(1) list.exhaust list.inject)
  ultimately show ?thesis
    using assms map_filter_parse_digits [OF assms(2)] by (simp add: get_allowed_syscalls_def Let_def)
qed

theorem allowed_syscalls_replaced_witness:
  "get_allowed_syscalls x86_64 Python3 (\<lambda>v. Some (str_join '','' (map nat_digits [0, 1, 231]))) True =
     ([0, 1, 231], map (abi_nr x86_64) (ALLOW_ERROR_SYSCALLS Python3))"
  using allowed_syscalls_replaced [of "[0, 1, 231]" "\<lambda>v. Some (str_join '','' (map nat_digits [0, 1, 231]))" x86_64 Python3 True]
  by simp

text \<open>Landlock is reported as applied exactly when at least one path was given in valid UTF-8, every
  call on the ruleset succeeded for the list of these paths, and the kernel enforces the ruleset
  at least partly. A null pointer, an empty list and a null path are refused.\<close>

theorem landlock_applied_iff:
  "(apply_landlock ll status paths = 0 \<longleftrightarrow>
     (\<exists>ps. paths = Some ps \<and> (\<exists>p\<in>set ps. utf8_valid p)
       \<and> list_all ll [Handle_access_all, Scope_signal, Create_ruleset,
           Add_read_rules (map bytes_str (filter utf8_valid ps)), Restrict_self]
       \<and> status \<noteq> NotEnforced))
   \<and> apply_landlock ll status None = - 20 \<and> apply_landlock ll status (Some []) = - 20
   \<and> apply_landlock_one ll status None = - 20"
  by (cases status)
    (auto simp: apply_landlock_def apply_landlock_one_def Let_def filter_empty_conv split: option.splits)

end
