(* ===== verification/Sandbox_Entry.thy ===== *)
theory Sandbox_Entry
  imports Zygote_Start Python_Runner Nodejs_Runner Seccomp
begin

text \<open>
  How a child process confines itself before it runs user code: \<^verbatim>\<open>_child_exec\<close> of
  \<^verbatim>\<open>runtime/pool/zygote_worker.py\<close> for a child of the zygote, and the control flow of \<^verbatim>\<open>runtime/prescript.py\<close>
  and \<^verbatim>\<open>runtime/prescript.js\<close> for a fresh interpreter. All three apply Landlock in non-privileged mode,
  then call \<^verbatim>\<open>init_seccomp\<close>, and stop if either fails. The result says with which open descriptors, after
  which system calls, and which code is run.
\<close>

section \<open>Model\<close>

text \<open>The kernel, the numbers of its calls and what Landlock answers.\<close>

record sandbox_calls =
  sb_kern :: kernel
  sb_abi :: libc_abi
  sb_landlock :: "landlock_call \<Rightarrow> bool"
  sb_status :: ruleset_status

text \<open>The exceptions of the scripts, with the code that is printed.\<close>

datatype entry_error = Landlock_failed int | Executor_err int | Bad_arguments | Bad_code

record running_code =
  rc_fds :: "fd set"
  rc_trace :: "event list"
  rc_code :: bytes

definition c_bool :: "bool \<Rightarrow> i32" where
  "c_bool b = (if b then 1 else 0)"

text \<open>The part that all three share.\<close>

definition enter_sandbox ::
  "sandbox_calls \<Rightarrow> feature \<Rightarrow> environment \<Rightarrow> bytes list \<Rightarrow> u32 \<Rightarrow> u32 \<Rightarrow> bool \<Rightarrow> u64 \<Rightarrow> bool
     \<Rightarrow> (event list, entry_error) result" where
  "enter_sandbox sb f env allowed uid gid net max_as privilege =
     (let ll_rc = (if privilege then 0 else apply_landlock (sb_landlock sb) (sb_status sb) (Some allowed)) in
      if ll_rc \<noteq> 0 then Inl (Landlock_failed ll_rc)
      else
        case init_seccomp (sb_kern sb) (sb_abi sb) f env uid gid (c_bool net) max_as (c_bool privilege) [] of
          (rc, trace) \<Rightarrow> if rc \<noteq> 0 then Inl (Executor_err rc) else Inr trace)"

text \<open>The upper bound of the sweep over inherited descriptors: the soft limit on their number, or a fixed cap if there is none.\<close>

definition MAX_FD :: "nat option \<Rightarrow> nat" where
  "MAX_FD soft_nofile = max (case soft_nofile of None \<Rightarrow> 65536 | Some n \<Rightarrow> n) 4"

text \<open>
  The child of the zygote: standard streams are redirected, every other descriptor up to the limit is
  closed, then the sandbox, then the code.
\<close>

definition child_exec ::
  "sandbox_calls \<Rightarrow> (string \<Rightarrow> bytes option) \<Rightarrow> environment \<Rightarrow> nat \<Rightarrow> fd set \<Rightarrow> run_payload
     \<Rightarrow> (running_code, entry_error) result" where
  "child_exec sb b64decode env max_fd fds req =
     (let fds = {0, 1, 2} \<union> fds - {3..<max_fd} in
      and_then (enter_sandbox sb Python3 env (map str_bytes (rp_allowed_paths req)) (rp_uid req) (rp_gid req)
          (rp_net req) (rp_max_as req) (rp_privilege req)) (\<lambda>trace.
        case worker_recover b64decode (rp_code req) (rp_key req) of
          None \<Rightarrow> Inl Bad_code
        | Some code \<Rightarrow> Inr \<lparr>rc_fds = fds, rc_trace = trace, rc_code = code\<rparr>))"

text \<open>The script of a fresh Python interpreter; \<open>argv\<close> is \<^verbatim>\<open>sys.argv\<close>, the other arguments are the values
  filled into it. The preload runs with the descriptors and the filter of the code.\<close>

definition prescript_exec ::
  "sandbox_calls \<Rightarrow> (string \<Rightarrow> bytes option) \<Rightarrow> environment \<Rightarrow> fd set \<Rightarrow> string list
     \<Rightarrow> bool \<Rightarrow> string list \<Rightarrow> u32 \<Rightarrow> u32 \<Rightarrow> bool \<Rightarrow> u64 \<Rightarrow> string \<Rightarrow> (running_code, entry_error) result" where
  "prescript_exec sb b64decode env fds argv privilege allowed uid gid net max_as code =
     (case argv of
        prog # running_path # key # rest \<Rightarrow>
          if running_path = [] \<or> key = [] then Inl Bad_arguments
          else
            and_then (enter_sandbox sb Python3 env (map str_bytes allowed) uid gid net max_as privilege) (\<lambda>trace.
              case prescript_recover b64decode code key of
                None \<Rightarrow> Inl Bad_code
              | Some c \<Rightarrow> Inr \<lparr>rc_fds = fds, rc_trace = trace, rc_code = c\<rparr>)
      | _ \<Rightarrow> Inl Bad_arguments)"

text \<open>The script of Node.js: Landlock for its own directory only.\<close>

definition prescript_js_exec ::
  "sandbox_calls \<Rightarrow> environment \<Rightarrow> fd set \<Rightarrow> string \<Rightarrow> u32 \<Rightarrow> u32 \<Rightarrow> bool \<Rightarrow> u64 \<Rightarrow> bool \<Rightarrow> bytes
     \<Rightarrow> (running_code, entry_error) result" where
  "prescript_js_exec sb env fds running_path uid gid net max_as privilege code =
     and_then (enter_sandbox sb Nodejs env [str_bytes running_path] uid gid net max_as privilege) (\<lambda>trace.
       Inr \<lparr>rc_fds = fds, rc_trace = trace, rc_code = code\<rparr>)"

section \<open>Facts\<close>

text \<open>The calls that confine a process, and what the filter then lets through.\<close>

definition confined ::
  "sandbox_calls \<Rightarrow> feature \<Rightarrow> bytes list \<Rightarrow> u32 \<Rightarrow> u32 \<Rightarrow> u64 \<Rightarrow> bool \<Rightarrow> event list \<Rightarrow> bool" where
  "confined sb f allowed uid gid max_as privilege trace \<longleftrightarrow>
     (privilege \<longrightarrow> {Chroot ''.'', Chdir ''/'', Setgroups_none, Setgid gid, Setuid uid} \<subseteq> set trace)
     \<and> (\<not> privilege \<longrightarrow> apply_landlock (sb_landlock sb) (sb_status sb) (Some allowed) = 0)
     \<and> Prctl PR_SET_NO_NEW_PRIVS 1 \<in> set trace \<and> (max_as \<noteq> 0 \<longrightarrow> Setrlimit_AS max_as max_as \<in> set trace)
     \<and> (\<exists>ctx. Seccomp_load ctx \<in> set trace) \<and> loaded_default trace = [SCMP_ACT_KILL_PROCESS]"

lemma init_trace:
  assumes "init_seccomp kern abi f env uid gid net mem privilege [] = (0, trace)"
  shows "\<exists>ctx. trace = harden_calls mem privilege uid gid @ [Seccomp_init SCMP_ACT_KILL_PROCESS] @
      filter_calls (filter_rules abi f env (net \<noteq> 0)) ctx @ [Seccomp_release ctx]"
  using init_succeeds [of kern abi f env uid gid net mem privilege] assms by auto

lemma enter_confined:
  assumes "enter_sandbox sb f env allowed uid gid net max_as privilege = Inr trace"
  shows "init_seccomp (sb_kern sb) (sb_abi sb) f env uid gid (c_bool net) max_as (c_bool privilege) [] = (0, trace)"
    and "confined sb f allowed uid gid max_as privilege trace"
proof -
  show i: "init_seccomp (sb_kern sb) (sb_abi sb) f env uid gid (c_bool net) max_as (c_bool privilege) [] = (0, trace)"
    using assms by (auto simp: enter_sandbox_def Let_def split: prod.splits if_splits)
  have ll: "\<not> privilege \<longrightarrow> apply_landlock (sb_landlock sb) (sb_status sb) (Some allowed) = 0"
    using assms by (auto simp: enter_sandbox_def Let_def split: if_splits)
  obtain ctx where "trace = harden_calls max_as (c_bool privilege) uid gid @ [Seccomp_init SCMP_ACT_KILL_PROCESS] @
      filter_calls (filter_rules (sb_abi sb) f env (c_bool net \<noteq> 0)) ctx @ [Seccomp_release ctx]"
    using init_trace [OF i] by blast
  moreover have "Seccomp_load ctx \<in> set (filter_calls rs ctx)" for rs by (simp add: filter_calls_def)
  ultimately show "confined sb f allowed uid gid max_as privilege trace"
    using ll init_loads(2) [OF i] by (auto simp: confined_def harden_calls_def c_bool_def)
qed

text \<open>The verdict of the built-in lists, for a process without a list in its environment.\<close>

definition builtin_verdict_of :: "libc_abi \<Rightarrow> feature \<Rightarrow> bool \<Rightarrow> string \<Rightarrow> (nat \<Rightarrow> u64) \<Rightarrow> action" where
  "builtin_verdict_of abi f net s args =
     (if s = ''ioctl'' then if args 1 = FIONBIO then SCMP_ACT_ALLOW else eperm abi
      else if s \<in> set (ALLOW_SYSCALLS f) \<or> net \<and> s \<in> set (ALLOW_NETWORK_SYSCALLS f) then SCMP_ACT_ALLOW
      else if s \<in> set (ALLOW_ERROR_SYSCALLS f) then eperm abi
      else SCMP_ACT_KILL_PROCESS)"

lemma enter_verdict:
  assumes "libseccomp arg_matches verdict" and "abi_ok (sb_abi sb) f s" and "env ''ALLOWED_SYSCALLS'' = None"
    and "enter_sandbox sb f env allowed uid gid net max_as privilege = Inr trace"
  shows "verdict (hd (loaded_default trace)) (loaded_rules trace) (abi_nr (sb_abi sb) s) args =
    builtin_verdict_of (sb_abi sb) f net s args"
proof -
  have net: "c_bool net \<noteq> 0 \<longleftrightarrow> net" by (simp add: c_bool_def)
  show ?thesis
    using libseccomp.builtin_verdict [where env = env and net = net and args = args, OF assms(1,2)] assms(3)
      init_loads [OF enter_confined(1) [OF assms(4)]]
    by (simp add: builtin_verdict_of_def net)
qed

lemma worker_env_no_list: "child_env senv (worker_command env py so dir ms proxy wfd) ''ALLOWED_SYSCALLS'' = None"
  by (simp add: worker_child_env proxy_vars_keys)

lemma python_env_no_list: "child_env senv (python_command env config key) ''ALLOWED_SYSCALLS'' = None"
  by (simp add: python_child_env proxy_vars_keys)

lemma nodejs_env_no_list: "child_env senv (nodejs_command env config options) ''ALLOWED_SYSCALLS'' = None"
  by (simp add: nodejs_child_env proxy_vars_keys)

subsection \<open>A kernel that grants every call\<close>

definition willing :: sandbox_calls where
  "willing = \<lparr>sb_kern = all_good, sb_abi = x86_64, sb_landlock = (\<lambda>c. True), sb_status = FullyEnforced\<rparr>"

lemma willing_enters:
  assumes "privilege \<or> (\<exists>p\<in>set allowed. utf8_valid p)"
  shows "\<exists>trace. enter_sandbox willing f env allowed uid gid net max_as privilege = Inr trace"
proof -
  have "apply_landlock (sb_landlock willing) (sb_status willing) (Some allowed) = 0" if "\<not> privilege"
    using assms that by (auto simp: apply_landlock_def willing_def Let_def filter_empty_conv)
  moreover have "fst (init_seccomp (sb_kern willing) (sb_abi willing) f env uid gid (c_bool net) max_as (c_bool privilege) []) = 0"
    using all_good_succeeds by (simp add: willing_def prod_eq_iff)
  ultimately show ?thesis by (cases privilege) (simp_all add: enter_sandbox_def case_prod_unfold)
qed

lemma willing_abi: "abi_ok (sb_abi willing) f ''execve''" "sb_abi willing = x86_64"
  by (simp_all add: willing_def x86_64_ok x86_64_table_def)

lemma execve_killed: "builtin_verdict_of abi f net ''execve'' args = SCMP_ACT_KILL_PROCESS"
  by (cases f) (simp_all add: builtin_verdict_of_def table_defs)

section \<open>Properties\<close>

text \<open>C15. User code in a child of the zygote is confined before it runs. If the child gets as far as running code,
  then: the code is the submitted one; no descriptor but the standard streams is open below the bound of the sweep, and none
  at all if the descriptors obey the soft limit of the worker; the process has made the calls that confine it, with the identity, the memory cap and the paths of the
  configuration; and the filter that is loaded judges every system call by the built-in lists, network
  calls according to the request and the configuration.\<close>

theorem zygote_child_confined:
  assumes "base64_channel e b64decode" and "\<And>b. length (rng b) = length b"
    and "libseccomp arg_matches verdict" and "abi_ok (sb_abi sb) Python3 s"
    and "encrypt_code e code (generate_key rng 64) = Some enc"
    and "child_exec sb b64decode (child_env senv (worker_command env py so dir ms (cfg_proxy config) wfd)) (MAX_FD soft) fds
      (make_payload enc (b64_encode e (generate_key rng 64)) (zygote_limits config options)) = Inr run"
  shows "rc_code run = code \<and> rc_fds run \<subseteq> {0, 1, 2} \<union> {MAX_FD soft..}
    \<and> (\<forall>n. soft = Some n \<and> fds \<subseteq> {..<n} \<longrightarrow> rc_fds run = {0, 1, 2})
    \<and> confined sb Python3 (map str_bytes (if cfg_privilege config then [] else landlock_paths config fast_extra_paths))
        (cfg_sandbox_uid config) (cfg_sandbox_gid config) (cfg_python_max_as_bytes config) (cfg_privilege config) (rc_trace run)
    \<and> verdict (hd (loaded_default (rc_trace run))) (loaded_rules (rc_trace run)) (abi_nr (sb_abi sb) s) args =
        builtin_verdict_of (sb_abi sb) Python3 (network_enabled config options) s args"
proof -
  let ?env = "child_env senv (worker_command env py so dir ms (cfg_proxy config) wfd)"
  let ?paths = "map str_bytes (if cfg_privilege config then [] else landlock_paths config fast_extra_paths)"
  obtain trace where enter: "enter_sandbox sb Python3 ?env ?paths (cfg_sandbox_uid config) (cfg_sandbox_gid config)
        (network_enabled config options) (cfg_python_max_as_bytes config) (cfg_privilege config) = Inr trace"
      and run: "rc_trace run = trace" "worker_recover b64decode enc (b64_encode e (generate_key rng 64)) = Some (rc_code run)"
        "rc_fds run = {0, 1, 2} \<union> fds - {3..<MAX_FD soft}"
    using assms(6)
    by (auto simp: child_exec_def Let_def and_then_Inr_iff make_payload_def zygote_limits_def split: option.splits)
  have "generate_key rng 64 \<noteq> []" by (rule python_key_nonempty) (rule assms(2))
  then have "rc_code run = code" using base64_channel.recover_both(2) [OF assms(1) _ assms(5)] run(2) by simp
  moreover have "rc_fds run \<subseteq> {0, 1, 2} \<union> {MAX_FD soft..}" unfolding run(3) by force
  moreover have "rc_fds run = {0, 1, 2}" if "soft = Some n" "fds \<subseteq> {..<n}" for n
    unfolding run(3) using that by (force simp: MAX_FD_def)
  ultimately show ?thesis
    using enter_confined(2) [OF enter] enter_verdict [OF assms(3,4) worker_env_no_list enter] run(1) by simp
qed

theorem zygote_child_confined_witness:
  "\<exists>enc run. encrypt_code rfc4648 [120] (generate_key (map (\<lambda>b. 7)) 64) = Some enc
    \<and> child_exec willing rfc4648_decode
        (child_env (\<lambda>v. None) (worker_command (\<lambda>v. None) ''python3'' ''./libpython.so'' LIB_PATH [] (cfg_proxy (config_of_raw shipped_config)) 6))
        (MAX_FD (Some 1024)) {5, 6}
        (make_payload enc (b64_encode rfc4648 (generate_key (map (\<lambda>b. 7)) 64))
          (zygote_limits (config_of_raw shipped_config) default_runner_options)) = Inr run
    \<and> rc_code run = [120] \<and> rc_fds run = {0, 1, 2}
    \<and> ref_verdict (hd (loaded_default (rc_trace run))) (loaded_rules (rc_trace run)) (abi_nr x86_64 ''execve'') (\<lambda>i. 0)
        = SCMP_ACT_KILL_PROCESS"
proof -
  let ?k = "generate_key (map (\<lambda>b. 7 :: u8)) 64" let ?cfg = "config_of_raw shipped_config"
  let ?env = "child_env (\<lambda>v. None) (worker_command (\<lambda>v. None) ''python3'' ''./libpython.so'' LIB_PATH [] (cfg_proxy ?cfg) 6)"
  have k: "?k \<noteq> []" by (rule python_key_nonempty) simp
  obtain enc where enc: "encrypt_code rfc4648 [120] ?k = Some enc" using encrypt_code_defined [OF k] by blast
  let ?req = "make_payload enc (b64_encode rfc4648 ?k) (zygote_limits ?cfg default_runner_options)"
  have priv: "rp_privilege ?req" by (simp add: make_payload_def zygote_limits_def config_of_raw_def shipped_config_def or_default_def)
  have code: "worker_recover rfc4648_decode (rp_code ?req) (rp_key ?req) = Some [120]"
    using rfc_channel.recover_both(2) [OF k enc] by (simp add: make_payload_def)
  from priv have "\<exists>trace. enter_sandbox willing Python3 ?env (map str_bytes (rp_allowed_paths ?req)) (rp_uid ?req) (rp_gid ?req)
      (rp_net ?req) (rp_max_as ?req) (rp_privilege ?req) = Inr trace" by (intro willing_enters) simp
  with code obtain run where run: "child_exec willing rfc4648_decode ?env (MAX_FD (Some 1024)) {5, 6} ?req = Inr run"
    by (auto simp: child_exec_def Let_def)
  have len: "length (map (\<lambda>b :: u8. 7 :: u8) b) = length b" for b by simp
  note confined = zygote_child_confined [OF rfc_channel.base64_channel_axioms len ref.libseccomp_axioms willing_abi(1) enc run]
  have "rc_fds run = {0, 1, 2}" using confined by simp
  then show ?thesis using enc run confined by (auto simp: execve_killed willing_abi(2))
qed

text \<open>C34. The control socket of the zygote reaches user code. After the zygote has been started, a fresh interpreter
  or Node.js, which inherit the server's descriptors and close none, run user code with the server's end
  of the socket open, so that the code can send the worker requests of its own; a child of the zygote
  has closed it.\<close>

theorem control_socket_reaches_code:
  assumes "sc_pair sc = Inr (server_fd, worker_fd)" and "server_fd \<noteq> worker_fd"
    and "zygote_new sc senv py so dir ms proxy s = (Inr z, s')"
  shows "(prescript_exec sb b64decode env (set (inherited s')) argv privilege allowed uid gid net max_as code = Inr run
        \<longrightarrow> server_fd \<in> rc_fds run)
    \<and> (prescript_js_exec sb env (set (inherited s')) path uid gid net max_as privilege js = Inr run \<longrightarrow> server_fd \<in> rc_fds run)
    \<and> (child_exec sb b64decode env max_fd fds req = Inr run \<and> 3 \<le> server_fd \<and> server_fd < max_fd \<longrightarrow> server_fd \<notin> rc_fds run)"
proof -
  have "server_fd \<in> set (inherited s')" using control_socket_inherited [OF assms] by blast
  then show ?thesis
    by (auto simp: prescript_exec_def prescript_js_exec_def child_exec_def Let_def and_then_Inr_iff
        split: list.splits if_splits option.splits)
qed

theorem control_socket_reaches_code_witness:
  "\<exists>s' run. zygote_new \<lparr>sc_pair = Inr (5, 6), sc_spawn = (\<lambda>c. Inr ()), sc_nonblocking = Inr (), sc_from_std = Inr ()\<rparr>
      (\<lambda>v. None) ''python3'' ''./libpython.so'' LIB_PATH [] default_proxy \<lparr>sp_fds = [(0, False)], sp_children = []\<rparr> = (Inr new_manager, s')
    \<and> prescript_js_exec willing (\<lambda>v. None) (set (inherited s')) LIB_PATH 65537 65537 False 0 True [49] = Inr run
    \<and> 5 \<in> rc_fds run"
proof -
  let ?sc = "\<lparr>sc_pair = Inr (5, 6), sc_spawn = (\<lambda>c. Inr ()), sc_nonblocking = Inr (), sc_from_std = Inr ()\<rparr>"
  let ?n = "zygote_new ?sc (\<lambda>v. None) ''python3'' ''./libpython.so'' LIB_PATH [] default_proxy \<lparr>sp_fds = [(0, False)], sp_children = []\<rparr>"
  have n: "?n = (Inr new_manager, snd ?n)" by (simp add: start_defs Let_def)
  obtain run where run: "prescript_js_exec willing (\<lambda>v. None) (set (inherited (snd ?n))) LIB_PATH 65537 65537 False 0 True [49] = Inr run"
    using willing_enters [of True "[str_bytes LIB_PATH]" Nodejs "\<lambda>v. None" 65537 65537 False 0] by (auto simp: prescript_js_exec_def)
  moreover have "5 \<in> rc_fds run" using control_socket_reaches_code [OF _ _ n, of 5 6] run by simp
  ultimately show ?thesis using n by blast
qed

text \<open>C16. User code in a fresh interpreter and in Node.js is confined before it runs: the calls that confine the process
  have been made with the given identity and memory cap, Landlock is in force for the given paths, or
  for the directory of the library alone in Node.js, and the filter judges by the built-in lists.\<close>

theorem fresh_process_confined:
  assumes "libseccomp arg_matches verdict" and "abi_ok (sb_abi sb) f s"
    and "f = Python3 \<and> prescript_exec sb b64decode (child_env senv (python_command env config key)) fds argv privilege allowed
           uid gid net max_as code = Inr run \<and> paths = map str_bytes allowed
       \<or> f = Nodejs \<and> prescript_js_exec sb (child_env senv (nodejs_command env config options)) fds path uid gid net max_as
           privilege js = Inr run \<and> paths = [str_bytes path]"
  shows "confined sb f paths uid gid max_as privilege (rc_trace run)
    \<and> verdict (hd (loaded_default (rc_trace run))) (loaded_rules (rc_trace run)) (abi_nr (sb_abi sb) s) args =
        builtin_verdict_of (sb_abi sb) f net s args"
proof -
  obtain penv where "enter_sandbox sb f penv paths uid gid net max_as privilege = Inr (rc_trace run)"
      "penv ''ALLOWED_SYSCALLS'' = None"
    using assms(3) python_env_no_list nodejs_env_no_list
    by (auto simp: prescript_exec_def prescript_js_exec_def and_then_Inr_iff split: list.splits if_splits option.splits)
  then show ?thesis using enter_confined(2) enter_verdict [OF assms(1,2)] by blast
qed

theorem fresh_process_confined_witness:
  "\<exists>run. prescript_js_exec willing (child_env (\<lambda>v. None) (nodejs_command (\<lambda>v. None) (config_of_raw shipped_config) default_runner_options))
        {0, 1, 2} ''/lib'' 65537 65537 False 0 False [49] = Inr run
    \<and> confined willing Nodejs [str_bytes ''/lib''] 65537 65537 0 False (rc_trace run)"
proof -
  let ?env = "child_env (\<lambda>v. None) (nodejs_command (\<lambda>v. None) (config_of_raw shipped_config) default_runner_options)"
  have "utf8_valid (str_bytes ''/lib'')" by (simp add: str_bytes_def char_byte_def utf8_valid.simps utf8_step_def safe_get_def utf8_char_width_def)
  then obtain run where run: "prescript_js_exec willing ?env {0, 1, 2} ''/lib'' 65537 65537 False 0 False [49] = Inr run"
    using willing_enters [of False "[str_bytes ''/lib'']" Nodejs ?env 65537 65537 False 0] by (auto simp: prescript_js_exec_def)
  then have "Nodejs = Python3 \<and> prescript_exec willing rfc4648_decode (child_env (\<lambda>v. None) (python_command (\<lambda>v. None)
        (config_of_raw shipped_config) [])) {0, 1, 2} [] False [] 65537 65537 False 0 [] = Inr run \<and> [str_bytes ''/lib''] = map str_bytes []
      \<or> Nodejs = Nodejs \<and> prescript_js_exec willing ?env {0, 1, 2} ''/lib'' 65537 65537 False 0 False [49] = Inr run
        \<and> [str_bytes ''/lib''] = [str_bytes ''/lib'']" by simp
  from fresh_process_confined [OF ref.libseccomp_axioms willing_abi(1) this] run show ?thesis by blast
qed

end
