(* ===== verification/Call_Service.thy ===== *)
theory Call_Service
  imports Prelude
begin

text \<open>
  An abstract specification of a service that answers calls, and what it means that a program implements it.
  The worker pool (\<open>Queue_Calls\<close>) and the manager of the zygote (\<open>Zygote_Calls\<close>) are shown to implement it.

  A call is asked once, with a job. Something may then be offered as its answer, once, and it must be a
  good answer to the job. The caller gets what was offered, or one of the errors of the service, or gives
  up. How jobs are queued, numbered, run and matched to callers is not part of the specification.
\<close>

section \<open>Simulation\<close>

text \<open>A program implements a specification under an abstraction function and an invariant of its own.\<close>

locale simulation =
  fixes cstep :: "'s \<Rightarrow> 's \<Rightarrow> bool" and cinit :: 's
    and astep :: "'a \<Rightarrow> 'a \<Rightarrow> bool" and ainit :: 'a
    and abs :: "'s \<Rightarrow> 'a" and inv :: "'s \<Rightarrow> bool"
  assumes init: "inv cinit" "abs cinit = ainit"
    and keeps: "inv s \<Longrightarrow> cstep s t \<Longrightarrow> inv t"
    and simulates: "inv s \<Longrightarrow> cstep s t \<Longrightarrow> astep\<^sup>*\<^sup>* (abs s) (abs t)"
begin

lemma steps:
  assumes "cstep\<^sup>*\<^sup>* s t" and "inv s"
  shows "inv t \<and> astep\<^sup>*\<^sup>* (abs s) (abs t)"
  using assms by (induction rule: rtranclp_induct) (blast intro: keeps dest: simulates rtranclp_trans)+

lemma reach: "cstep\<^sup>*\<^sup>* cinit s \<Longrightarrow> inv s \<and> astep\<^sup>*\<^sup>* ainit (abs s)"
  using steps [of cinit s] init by simp

end

section \<open>The service\<close>

datatype ('j, 'r) phase = Fresh | Asked 'j | Got 'j 'r | Gave_up 'j

record ('k, 'j, 'r) service =
  phase :: "'k \<Rightarrow> ('j, 'r) phase"
  offered :: "'k \<rightharpoonup> 'r"

definition idle :: "('k, 'j, 'r) service" where
  "idle = \<lparr>phase = (\<lambda>k. Fresh), offered = Map.empty\<rparr>"

inductive call_step ::
  "('j \<Rightarrow> 'r \<Rightarrow> bool) \<Rightarrow> 'r set \<Rightarrow> ('k, 'j, 'r) service \<Rightarrow> ('k, 'j, 'r) service \<Rightarrow> bool"
  for good errors where
    ask: "phase s k = Fresh \<Longrightarrow> call_step good errors s (s\<lparr>phase := (phase s)(k := Asked j)\<rparr>)"
  | offer: "phase s k \<in> {Asked j, Gave_up j} \<Longrightarrow> offered s k = None \<Longrightarrow> good j r \<Longrightarrow>
      call_step good errors s (s\<lparr>offered := (offered s)(k \<mapsto> r)\<rparr>)"
  | get: "phase s k = Asked j \<Longrightarrow> offered s k = Some r \<Longrightarrow>
      call_step good errors s (s\<lparr>phase := (phase s)(k := Got j r)\<rparr>)"
  | fail: "phase s k = Asked j \<Longrightarrow> e \<in> errors \<Longrightarrow>
      call_step good errors s (s\<lparr>phase := (phase s)(k := Got j e)\<rparr>)"
  | give_up: "phase s k = Asked j \<Longrightarrow> call_step good errors s (s\<lparr>phase := (phase s)(k := Gave_up j)\<rparr>)"

inductive_cases call_step_E: "call_step good errors s t"

text \<open>What the specification promises: what was offered and what was got is justified, and final.\<close>

definition justified :: "('j \<Rightarrow> 'r \<Rightarrow> bool) \<Rightarrow> 'r set \<Rightarrow> ('k, 'j, 'r) service \<Rightarrow> bool" where
  "justified good errors s \<longleftrightarrow>
     (\<forall>k r. offered s k = Some r \<longrightarrow> (\<exists>j. good j r \<and> (phase s k = Asked j \<or> phase s k = Gave_up j \<or> (\<exists>r'. phase s k = Got j r'))))
     \<and> (\<forall>k j r. phase s k = Got j r \<longrightarrow> r \<in> errors \<or> offered s k = Some r)"

lemma justified_reach:
  assumes "(call_step good errors)\<^sup>*\<^sup>* idle s"
  shows "justified good errors s"
  using assms
proof (induction rule: rtranclp_induct)
  case base
  show ?case by (simp add: justified_def idle_def)
next
  case (step s t)
  from step.hyps(2) show ?case
    using step.IH by (cases rule: call_step.cases) (fastforce simp: justified_def)+
qed

lemma got_justified:
  assumes "(call_step good errors)\<^sup>*\<^sup>* idle s" and "phase s k = Got j r"
  shows "r \<in> errors \<or> good j r"
  using justified_reach [OF assms(1)] assms(2) unfolding justified_def by fastforce

lemma step_final:
  assumes "call_step good errors s t"
  shows "phase s k = Got j r \<Longrightarrow> phase t k = Got j r" and "offered s k = Some r \<Longrightarrow> offered t k = Some r"
  using assms by (auto elim!: call_step_E)

lemma steps_final:
  assumes "(call_step good errors)\<^sup>*\<^sup>* s t"
  shows "phase s k = Got j r \<Longrightarrow> phase t k = Got j r" and "offered s k = Some r \<Longrightarrow> offered t k = Some r"
  using assms by (induction rule: rtranclp_induct) (simp_all add: step_final)

text \<open>Several offers in a row.\<close>

lemma offers:
  assumes "distinct (map fst rs)" and "\<And>k r. (k, r) \<in> set rs \<Longrightarrow> (\<exists>j. phase s k = Asked j \<and> good j r) \<and> offered s k = None"
  shows "(call_step good errors)\<^sup>*\<^sup>* s (s\<lparr>offered := offered s ++ map_of rs\<rparr>)"
  using assms
proof (induction rs arbitrary: s)
  case (Cons p rs)
  obtain k r where p: "p = (k, r)" by (cases p)
  let ?s = "s\<lparr>offered := (offered s)(k \<mapsto> r)\<rparr>"
  obtain j where "phase s k = Asked j" "good j r" "offered s k = None" using Cons.prems(2) [of k r] p by auto
  then have "call_step good errors s ?s" by (intro call_step.offer) auto
  moreover have "(call_step good errors)\<^sup>*\<^sup>* ?s (?s\<lparr>offered := offered ?s ++ map_of rs\<rparr>)"
    using Cons.prems p by (intro Cons.IH) (force simp: rev_image_eqI)+
  moreover have "?s\<lparr>offered := offered ?s ++ map_of rs\<rparr> = s\<lparr>offered := offered s ++ map_of (p # rs)\<rparr>"
    using Cons.prems(1) p by (simp add: map_add_upd_left dom_map_of_conv_image_fst fun_upd_def [symmetric])
  ultimately show ?case by (metis converse_rtranclp_into_rtranclp)
qed simp

section \<open>Programs that implement the service\<close>

locale call_service =
  simulation cstep cinit "call_step good errors" idle abs inv
  for cstep :: "'s \<Rightarrow> 's \<Rightarrow> bool" and cinit :: 's and good :: "'j \<Rightarrow> 'r \<Rightarrow> bool" and errors :: "'r set"
    and abs :: "'s \<Rightarrow> ('k, 'j, 'r) service" and inv :: "'s \<Rightarrow> bool"
begin

lemma answer_good:
  assumes "cstep\<^sup>*\<^sup>* cinit s" and "phase (abs s) k = Got j r"
  shows "r \<in> errors \<or> good j r"
  using reach [OF assms(1)] got_justified [OF _ assms(2)] by blast

lemma answer_final:
  assumes "cstep\<^sup>*\<^sup>* cinit s" and "cstep\<^sup>*\<^sup>* s t" and "phase (abs s) k = Got j r"
  shows "phase (abs t) k = Got j r"
  using steps [OF assms(2)] reach [OF assms(1)] steps_final(1) [OF _ assms(3)] by blast

lemma offer_final:
  assumes "cstep\<^sup>*\<^sup>* cinit s" and "cstep\<^sup>*\<^sup>* s t" and "offered (abs s) k = Some r"
  shows "offered (abs t) k = Some r"
  using steps [OF assms(2)] reach [OF assms(1)] steps_final(2) [OF _ assms(3)] by blast

end

end
