(* ===== verification/Queue_Calls.thy ===== *)
theory Queue_Calls
  imports Queue Call_Service
begin

text \<open>
  The worker pool (\<open>Queue\<close>) implements the service of \<open>Call_Service\<close>: a call of \<^verbatim>\<open>submit\<close> is asked with its
  job, the answer on its oneshot channel is the offer, and the errors are the two that \<^verbatim>\<open>submit\<close> makes up itself.
  A good answer is one that the job itself gives. The channel, the workers and the depth counter
  are hidden.
\<close>

section \<open>The abstraction\<close>

fun call_phase :: "'j \<Rightarrow> 'j call \<Rightarrow> ('j, api_response) phase" where
  "call_phase job (Returned r) = Got job r"
| "call_phase job Dropped_call = Gave_up job"
| "call_phase job c = Asked job"

fun oneshot_offer :: "oneshot \<Rightarrow> api_response option" where
  "oneshot_offer (Answer r) = Some r"
| "oneshot_offer s = None"

definition queue_calls :: "('c, 'j) queue \<Rightarrow> (ticket, 'j, api_response) service" where
  "queue_calls q =
     \<lparr>phase = (\<lambda>t. if t < length (q_calls q) then call_phase (q_jobs q ! t) (q_calls q ! t) else Fresh),
      offered = (\<lambda>t. if t < length (q_calls q) then oneshot_offer (q_oneshots q ! t) else None)\<rparr>"

definition pool_errors :: "api_response set" where
  "pool_errors = {api_error 500 ''worker pool unavailable'', api_error 500 ''worker shut down''}"

section \<open>Simulation\<close>

lemma queue_calls_call:
  assumes "t < length (q_calls q)" and "q_calls q' = (q_calls q)[t := c]" and "q_jobs q' = q_jobs q" and "q_oneshots q' = q_oneshots q"
  shows "queue_calls q' = (queue_calls q)\<lparr>phase := (phase (queue_calls q))(t := call_phase (q_jobs q ! t) c)\<rparr>"
  using assms by (simp add: queue_calls_def fun_eq_iff nth_list_update)

lemma queue_calls_oneshot:
  assumes "t < length (q_calls q)" and "length (q_oneshots q) = length (q_calls q)"
    and "q_oneshots q' = (q_oneshots q)[t := s]" and "q_jobs q' = q_jobs q" and "q_calls q' = q_calls q"
  shows "queue_calls q' = (queue_calls q)\<lparr>offered := (offered (queue_calls q))(t := oneshot_offer s)\<rparr>"
  using assms by (simp add: queue_calls_def fun_eq_iff nth_list_update)

lemma queue_calls_same:
  assumes "q_calls q' = q_calls q" and "q_jobs q' = q_jobs q" and "q_oneshots q' = q_oneshots q"
  shows "queue_calls q' = queue_calls q"
  using assms by (simp add: queue_calls_def fun_eq_iff)

lemma queue_calls_count:
  assumes "length (q_oneshots q) = length (q_calls q)" and "length (q_jobs q) = length (q_calls q)"
  shows "queue_calls (submit_count job q) =
    (queue_calls q)\<lparr>phase := (phase (queue_calls q))(length (q_calls q) := Asked job)\<rparr>"
  using assms by (simp add: queue_calls_def submit_count_def fun_eq_iff nth_append)

lemma queue_calls_send:
  assumes "t < length (q_calls q)" and "q_calls q ! t = Counted job"
  shows "queue_calls (submit_send ops t job q) = queue_calls q"
  using assms by (cases "chan_try_send ops (t, job) (q_chan q)")
    (simp_all add: submit_send_def queue_calls_def fun_eq_iff nth_list_update)

text \<open>A call that ends changes its own phase only.\<close>

lemma simulated_return:
  assumes "t < length (q_calls q)" and "q_calls q ! t = Awaiting" and "oneshot_result (q_oneshots q ! t) = Some r"
  shows "call_step runs pool_errors (queue_calls q) (queue_calls (submit_return t r q))"
proof -
  have q': "queue_calls (submit_return t r q) = (queue_calls q)\<lparr>phase := (phase (queue_calls q))(t := Got (q_jobs q ! t) r)\<rparr>"
    unfolding submit_return_def by (subst queue_calls_call [OF assms(1), where c = "Returned r"]) simp_all
  show ?thesis
  proof (cases "q_oneshots q ! t")
    case (Answer v)
    with assms show ?thesis unfolding q' by (intro call_step.get) (simp_all add: queue_calls_def oneshot_result_def)
  next
    case Closed
    with assms show ?thesis unfolding q' by (intro call_step.fail) (simp_all add: queue_calls_def oneshot_result_def pool_errors_def)
  qed (use assms in \<open>simp add: oneshot_result_def\<close>)
qed

lemma simulated_refused:
  assumes "t < length (q_calls q)" and "call_phase (q_jobs q ! t) (q_calls q ! t) = Asked (q_jobs q ! t)"
  shows "call_step runs pool_errors (queue_calls q) (queue_calls (submit_refused t q))"
    and "call_step runs pool_errors (queue_calls q) (queue_calls (submit_dropped t q))"
proof -
  have phase: "phase (queue_calls q) t = Asked (q_jobs q ! t)" using assms by (simp add: queue_calls_def)
  show "call_step runs pool_errors (queue_calls q) (queue_calls (submit_refused t q))"
    unfolding submit_refused_def by (subst queue_calls_call [OF assms(1)], simp, simp, simp, simp only: call_phase.simps, rule call_step.fail)
      (use phase in \<open>simp_all add: pool_errors_def\<close>)
  show "call_step runs pool_errors (queue_calls q) (queue_calls (submit_dropped t q))"
    unfolding submit_dropped_def by (subst queue_calls_call [OF assms(1)], simp, simp, simp, simp only: call_phase.simps, rule call_step.give_up)
      (rule phase)
qed

context job_channel begin

text \<open>A worker that answers makes the offer; one that panics makes none.\<close>

lemma simulated_respond:
  assumes "pool_ok items receivers runs panics n q" and "w < length (q_workers q)" and "q_workers q ! w = Running t job" and "runs job r"
  shows "call_step runs pool_errors (queue_calls q) (queue_calls (worker_respond w t r q))"
proof -
  have ok: "shape_ok receivers n q" "order_ok items q" "held_ok q" "returns_ok receivers q" using assms(1) by (simp_all add: pool_ok_def)
  have t: "q_jobs q ! t = job" "q_oneshots q ! t = Open" "t < length (q_calls q)"
    using held_facts [OF ok(2,3) assms(2), of t job] assms(3) by simp_all
  have "call_ok (receivers (q_chan q) = 0) Open (q_calls q ! t)" using ok(4) t by (auto simp: returns_ok_def)
  then have "call_phase job (q_calls q ! t) \<in> {Asked job, Gave_up job}"
    using running_not_closed [OF ok(1) assms(2,3)] by (cases "q_calls q ! t") (simp_all add: oneshot_result_def)
  then have "call_step runs pool_errors (queue_calls q) ((queue_calls q)\<lparr>offered := (offered (queue_calls q))(t \<mapsto> r)\<rparr>)"
    using t by (intro call_step.offer [where k = t and j = job] assms(4)) (simp_all add: queue_calls_def)
  moreover have "queue_calls (worker_respond w t r q) = (queue_calls q)\<lparr>offered := (offered (queue_calls q))(t \<mapsto> r)\<rparr>"
    unfolding worker_respond_def using t ok(1) [unfolded shape_ok_def]
    by (subst queue_calls_oneshot [where t = t and s = "Answer r"]) simp_all
  ultimately show ?thesis by simp
qed

lemma simulated_panic:
  assumes "pool_ok items receivers runs panics n q" and "w < length (q_workers q)" and "q_workers q ! w = Running t job"
  shows "queue_calls (worker_panic ops w t q) = queue_calls q"
proof -
  have ok: "shape_ok receivers n q" "order_ok items q" "held_ok q" using assms(1) by (simp_all add: pool_ok_def)
  have t: "q_oneshots q ! t = Open" "t < length (q_calls q)" using held_facts [OF ok(2,3) assms(2), of t job] assms(3) by simp_all
  have "queue_calls (worker_panic ops w t q) = (queue_calls q)\<lparr>offered := (offered (queue_calls q))(t := None)\<rparr>"
    unfolding worker_panic_def using t ok(1) [unfolded shape_ok_def] by (subst queue_calls_oneshot [where t = t and s = Closed]) simp_all
  moreover have "offered (queue_calls q) t = None" using t by (simp add: queue_calls_def)
  ultimately show ?thesis by (simp add: fun_upd_idem)
qed

lemma queue_simulated:
  assumes ok: "pool_ok items receivers runs panics n q" and "qstep ops runs panics q q'"
  shows "(call_step runs pool_errors)\<^sup>=\<^sup>= (queue_calls q) (queue_calls q')"
  using assms(2)
proof cases
  case (count job)
  have len: "length (q_oneshots q) = length (q_calls q)" "length (q_jobs q) = length (q_calls q)"
    using ok by (simp_all add: pool_ok_def shape_ok_def)
  have "call_step runs pool_errors (queue_calls q) (queue_calls q')"
    unfolding count(1) queue_calls_count [OF len] by (rule call_step.ask) (simp add: queue_calls_def)
  then show ?thesis ..
next
  case (send t job)
  then show ?thesis by (simp add: queue_calls_send)
next
  case (refused t)
  then show ?thesis using simulated_refused(1) [OF refused(2), of runs] by simp
next
  case (returns t r)
  then show ?thesis using simulated_return [OF returns(2-4), of runs] by simp
next
  case (dropped t)
  then show ?thesis using simulated_refused(2) [OF dropped(2), of runs] by simp
next
  case (recv w t job c)
  then have "queue_calls q' = queue_calls q" by (intro queue_calls_same) (simp_all add: worker_recv_def)
  then show ?thesis by simp
next
  case (begins w t job)
  then have "queue_calls q' = queue_calls q" by (intro queue_calls_same) (simp_all add: worker_begin_def)
  then show ?thesis by simp
next
  case (respond w t job r)
  then show ?thesis using simulated_respond [OF ok respond(2-4)] by simp
next
  case (panic w t job)
  then show ?thesis using simulated_panic [OF ok panic(2,3)] by simp
qed

end

sublocale job_channel \<subseteq> pool_service: call_service "qstep ops runs panics" "start ops n" runs pool_errors queue_calls
    "pool_ok items receivers runs panics n" for runs panics n
proof unfold_locales
  show "pool_ok items receivers runs panics n (start ops n)" by (rule pool_start)
  show "queue_calls (start ops n) = idle" by (simp add: queue_calls_def start_def idle_def)
  fix q q' assume q: "pool_ok items receivers runs panics n q" "qstep ops runs panics q q'"
  then show "pool_ok items receivers runs panics n q'" by (blast intro: pool_step)
  from queue_simulated [OF q] show "(call_step runs pool_errors)\<^sup>*\<^sup>* (queue_calls q) (queue_calls q')" by auto
qed

lemma phase_Returned:
  "t < length (q_calls q) \<Longrightarrow> q_calls q ! t = Returned r \<Longrightarrow> phase (queue_calls q) t = Got (q_jobs q ! t) r"
  by (simp add: queue_calls_def)

context job_channel begin

lemma pool_calls:
  assumes "qreach ops runs panics n q"
  shows "(call_step runs pool_errors)\<^sup>*\<^sup>* idle (queue_calls q)"
    and "qstep ops runs panics q q' \<Longrightarrow> (call_step runs pool_errors)\<^sup>=\<^sup>= (queue_calls q) (queue_calls q')"
    and "phase (queue_calls q) t = Got job r \<Longrightarrow> r \<in> pool_errors \<or> runs job r"
    and "phase (queue_calls q) t = Got job r \<Longrightarrow> (qstep ops runs panics)\<^sup>*\<^sup>* q q' \<Longrightarrow> phase (queue_calls q') t = Got job r"
  using assms [unfolded qreach_def] pool_service.reach pool_service.answer_good pool_service.answer_final
    queue_simulated [OF pool_reach [OF assms]] by blast+

end

section \<open>Properties\<close>

text \<open>C18. The worker pool implements the call service: over every channel that keeps its laws and with any number of
  workers, what has happened to the calls is a run of the specification, and every further step is one step of it
  or none. What a call has returned is an answer that its own job gives or one of the two errors, and it
  never changes.\<close>

theorem queue_implements_calls:
  assumes "job_channel ops items receivers" and "qreach ops runs panics n q"
  shows "(call_step runs pool_errors)\<^sup>*\<^sup>* idle (queue_calls q)
    \<and> (\<forall>q'. qstep ops runs panics q q' \<longrightarrow> (call_step runs pool_errors)\<^sup>=\<^sup>= (queue_calls q) (queue_calls q'))
    \<and> (\<forall>t r q'. t < length (q_calls q) \<and> q_calls q ! t = Returned r \<and> (qstep ops runs panics)\<^sup>*\<^sup>* q q' \<longrightarrow>
         (r \<in> pool_errors \<or> runs (q_jobs q ! t) r) \<and> phase (queue_calls q') t = Got (q_jobs q ! t) r)"
  using job_channel.pool_calls [OF assms] phase_Returned by metis

theorem queue_implements_calls_witness:
  "(call_step demo_runs pool_errors)\<^sup>*\<^sup>* idle (queue_calls demo_done)
    \<and> (\<exists>r. q_calls demo_done ! 0 = Returned r \<and> (r \<in> pool_errors \<or> demo_runs (q_jobs demo_done ! 0) r))"
proof -
  have "q_calls demo_done ! 0 = Returned (api_success (JNum 5))" "0 < length (q_calls demo_done)"
    by (simp_all add: demo_done_def demo_sent_eq worker_recv_def worker_begin_def worker_respond_def submit_return_def)
  then show ?thesis using queue_implements_calls [OF list_jobs.job_channel_axioms demo_done_reach] by blast
qed

end
