(* ===== verification/Zygote_Calls.thy ===== *)
theory Zygote_Calls
  imports Zygote_Run Call_Service
begin

text \<open>
  The manager of the zygote (\<open>Zygote_Run\<close>) implements the service of \<open>Call_Service\<close>: a call of \<^verbatim>\<open>run\<close> is asked
  when it is made, what the reader sends on its channel is the offer, and the errors are the three that
  \<^verbatim>\<open>run\<close> makes up itself. An answer is good if it is text: both of its strings are valid UTF-8.
\<close>

section \<open>Text\<close>

definition is_text :: "string \<Rightarrow> bool" where
  "is_text s = utf8_valid (str_bytes s)"

lemma is_text_lossy [simp]: "is_text (lossy bs)"
  by (simp add: is_text_def lossy_def from_utf8_lossy_valid)

lemma is_text_ascii: "list_all (\<lambda>c. char_byte c < 0x80) s \<Longrightarrow> is_text s"
  unfolding is_text_def by (rule utf8_valid_ascii) (auto simp: str_bytes_def list_all_iff)

fun text_response :: "response \<Rightarrow> bool" where
  "text_response (out, err, code) = (is_text out \<and> is_text err)"

lemma digit_ascii: "digit_val c \<noteq> None \<Longrightarrow> char_byte c < 0x80"
  by (auto simp: digit_val_def Let_def char_byte_def word_less_nat_alt unat_of_nat split: if_splits)

lemma messages_text [simp]:
  "is_text []" "is_text ''zygote stopped''" "is_text ''zygote connection lost''" "is_text (limit_message mx)"
proof -
  have "list_all (\<lambda>c. char_byte c < 0x80) (nat_digits mx)"
    using digit_ascii nat_digits_digit by (fastforce simp: list_all_iff)
  then show "is_text (limit_message mx)"
    by (intro is_text_ascii) (simp add: limit_message_def char_byte_def)
qed (rule is_text_ascii, simp add: char_byte_def)+

lemma errors_text: "v \<in> error_responses \<Longrightarrow> text_response v"
  by (auto simp: error_responses_def not_running_response_def write_failed_response_def timeout_response_def char_byte_def
      intro!: is_text_ascii)

section \<open>What the reader sends\<close>

definition sends_text :: "zygote \<Rightarrow> zygote \<Rightarrow> bool" where
  "sends_text z z' \<longleftrightarrow> (\<exists>new. delivered z' = delivered z @ new \<and> (\<forall>(c, v) \<in> set new. text_response v))"

lemma sends_text_refl: "delivered z' = delivered z \<Longrightarrow> sends_text z z'"
  by (auto simp: sends_text_def)

lemma sends_text_trans: "sends_text a b \<Longrightarrow> sends_text b c \<Longrightarrow> sends_text a c"
  unfolding sends_text_def by fastforce

lemma sends_text_frame: "sends_text z (handle_frame mx m (z\<lparr>frame_buf := b\<rparr>))"
  by (auto simp: sends_text_def handle_frame_def match_send_def send_opt_def Let_def split: prod.split option.split)

lemma sends_text_lost: "sends_text z (connection_lost z)" "sends_text z (stop z)"
  by (auto simp: sends_text_def connection_lost_def stop_def fail_pending_def delivered_fail_entries)

lemma sends_text_read: "on_read mx res z = (z', ok) \<Longrightarrow> sends_text z z'"
  by (rule on_read_invariant)
    (auto intro: sends_text_refl sends_text_trans [OF _ sends_text_frame] sends_text_trans [OF _ sends_text_lost(1)]
      sends_text_trans [OF _ sends_text_refl])

section \<open>The abstraction\<close>

fun run_phase :: "bytes \<Rightarrow> run_pc \<Rightarrow> (bytes, response) phase" where
  "run_phase job NotCalled = Fresh"
| "run_phase job (Returned v) = Got job v"
| "run_phase job pc = Asked job"

definition zygote_calls :: "(chan \<Rightarrow> bytes) \<Rightarrow> zsys \<Rightarrow> (chan, bytes, response) service" where
  "zygote_calls payload s = \<lparr>phase = (\<lambda>c. run_phase (payload c) (pcs s c)), offered = map_of (delivered (mgr s))\<rparr>"

definition good_answer :: "bytes \<Rightarrow> response \<Rightarrow> bool" where
  "good_answer job = text_response"

lemma zygote_calls_pc:
  "delivered z = delivered (mgr s) \<Longrightarrow>
    zygote_calls payload (set_pc c pc z s) = (zygote_calls payload s)\<lparr>phase := (phase (zygote_calls payload s))(c := run_phase (payload c) pc)\<rparr>"
  by (simp add: zygote_calls_def fun_eq_iff)

lemma zygote_calls_same:
  assumes "delivered z = delivered (mgr s)" and "run_phase (payload c) pc = run_phase (payload c) (pcs s c)"
  shows "zygote_calls payload (set_pc c pc z s) = zygote_calls payload s"
  using assms by (simp add: zygote_calls_def fun_eq_iff)

lemma holds_asked: "holds pc = Some r \<Longrightarrow> run_phase job pc = Asked job"
  by (cases pc) simp_all

text \<open>What is sent in one step goes to calls that are in progress and have been sent nothing before.\<close>

lemma offers_simulated:
  assumes "zreach mx payload s" and "accounts z = accounts (mgr s)" and "sends_text (mgr s) z"
    and "mgr t = z" and "pcs t = pcs s"
  shows "(call_step good_answer errs)\<^sup>*\<^sup>* (zygote_calls payload s) (zygote_calls payload t)"
proof -
  obtain new where new: "delivered z = delivered (mgr s) @ new" "\<And>c v. (c, v) \<in> set new \<Longrightarrow> text_response v"
    using assms(3) by (auto simp: sends_text_def)
  have "mset (tx_list (pending_map (mgr s))) = mset (tx_list (pending_map z)) + mset (map fst new)"
    using assms(2) by (simp add: accounts_def new(1))
  then have tx: "set (map fst new) \<subseteq> set (tx_list (pending_map (mgr s)))"
    by (metis mset_subset_eq_add_right set_mset_mono set_mset_mset)
  have "count (accounts z) c \<le> 1" for c
    using zreach_senders_ok [OF assms(1)] assms(2) unfolding senders_ok_def by (metis (full_types) nle_le order_trans zero_le_one)
  then have dist: "distinct (map fst (delivered (mgr s) @ new))"
    by (intro distinct_if_count_le_1) (metis accounts_def new(1) count_le_of_subset mset_subset_eq_add_right)
  have asked: "\<exists>j. phase (zygote_calls payload s) c = Asked j \<and> good_answer j v" "offered (zygote_calls payload s) c = None"
    if "(c, v) \<in> set new" for c v
  proof -
    have "c \<in> set (tx_list (pending_map (mgr s)))" using tx that by force
    then obtain r p where "(r, p) \<in> set (pending_map (mgr s))" "p_tx p = Some c"
      by (auto simp: tx_list_def List.map_filter_def)
    then have "map_of (pending_map (mgr s)) r = Some p"
      using zreach_table_wf [OF assms(1)] by (simp add: table_wf_def)
    then have "holds (pcs s c) = Some r" using zreach_owners_ok [OF assms(1)] \<open>p_tx p = Some c\<close> unfolding owners_ok_def by blast
    then show "\<exists>j. phase (zygote_calls payload s) c = Asked j \<and> good_answer j v"
      using new(2) [OF that] by (simp add: zygote_calls_def holds_asked good_answer_def)
    show "offered (zygote_calls payload s) c = None"
      using dist that by (force simp: zygote_calls_def map_of_eq_None_iff)
  qed
  have "distinct (map fst new)" using dist by simp
  then have "(call_step good_answer errs)\<^sup>*\<^sup>* (zygote_calls payload s)
      ((zygote_calls payload s)\<lparr>offered := offered (zygote_calls payload s) ++ map_of new\<rparr>)"
    by (rule offers) (use asked in blast)
  moreover have "map_of (delivered (mgr s)) ++ map_of new = map_of new ++ map_of (delivered (mgr s))"
    using dist by (intro map_add_comm) (auto simp: dom_map_of_conv_image_fst)
  ultimately show ?thesis by (simp add: zygote_calls_def assms(4,5) new(1))
qed

lemma returns_offered:
  assumes "zreach mx payload s" and "pcs s c = Received r v"
  shows "offered (zygote_calls payload s) c = Some v"
proof -
  have "count (accounts (mgr s)) d \<le> 1" for d
    using zreach_senders_ok [OF assms(1)] unfolding senders_ok_def by (metis (full_types) nle_le order_trans zero_le_one)
  then have "distinct (map fst (delivered (mgr s)))"
    by (intro distinct_if_count_le_1) (metis accounts_def count_le_of_subset mset_subset_eq_add_right)
  moreover have "(c, v) \<in> set (delivered (mgr s))"
    using zreach_responses_ok [OF assms(1)] assms(2) unfolding responses_ok_def by blast
  ultimately show ?thesis by (simp add: zygote_calls_def)
qed

lemma zstep_simulated:
  assumes "zreach mx payload s" and "zstep mx payload s t"
  shows "(call_step good_answer error_responses)\<^sup>*\<^sup>* (zygote_calls payload s) (zygote_calls payload t)"
proof -
  let ?a = "zygote_calls payload s"
  note wf = zreach_table_wf [OF assms(1)]
  have errs: "not_running_response \<in> error_responses" "write_failed_response \<in> error_responses" "timeout_response \<in> error_responses"
    by (simp_all add: error_responses_def)
  have fails: "call_step good_answer error_responses ?a (zygote_calls payload (set_pc c (Returned v) z s))"
    if "run_phase (payload c) (pcs s c) = Asked (payload c)" "v \<in> error_responses" "delivered z = delivered (mgr s)" for c v z
    using call_step.fail [of ?a c "payload c" v] that by (simp add: zygote_calls_pc) (simp add: zygote_calls_def)
  have asks: "call_step good_answer error_responses ?a (?a\<lparr>phase := (phase ?a)(c := Asked (payload c))\<rparr>)" if "pcs s c = NotCalled" for c
    by (rule call_step.ask) (simp add: zygote_calls_def that)
  show ?thesis
    using assms(2)
  proof cases
    case (not_running c)
    let ?b = "?a\<lparr>phase := (phase ?a)(c := Asked (payload c))\<rparr>"
    have "call_step good_answer error_responses ?b (?b\<lparr>phase := (phase ?b)(c := Got (payload c) not_running_response)\<rparr>)"
      by (rule call_step.fail) (simp_all add: errs)
    then have "(call_step good_answer error_responses)\<^sup>*\<^sup>* ?a (?b\<lparr>phase := (phase ?b)(c := Got (payload c) not_running_response)\<rparr>)"
      using asks [OF not_running(2)] by (meson converse_rtranclp_into_rtranclp r_into_rtranclp)
    then show ?thesis unfolding not_running(1) by (simp add: zygote_calls_pc)
  next
    case (admitted c)
    then show ?thesis using asks [of c] by (simp add: zygote_calls_pc r_into_rtranclp)
  next
    case (numbered c r z)
    then have "zygote_calls payload t = ?a" by (auto simp: zygote_calls_def take_id_def fun_eq_iff)
    then show ?thesis by simp
  next
    case (registered c r)
    then show ?thesis by (simp add: zygote_calls_same register_def)
  next
    case (sent c r)
    then show ?thesis by (simp add: zygote_calls_same)
  next
    case (send_failed c r)
    then show ?thesis by (intro r_into_rtranclp) (simp add: fails errs)
  next
    case (received c r v)
    then show ?thesis by (simp add: zygote_calls_same)
  next
    case (expired c r)
    then show ?thesis by (simp add: zygote_calls_same)
  next
    case (return_received c r v)
    have "call_step good_answer error_responses ?a (?a\<lparr>phase := (phase ?a)(c := Got (payload c) v)\<rparr>)"
      by (rule call_step.get) (simp_all add: returns_offered [OF assms(1) return_received(2)], simp add: zygote_calls_def return_received(2))
    then show ?thesis unfolding return_received(1) by (simp add: zygote_calls_pc r_into_rtranclp)
  next
    case (return_expired c r)
    then show ?thesis by (intro r_into_rtranclp) (simp add: fails errs expire_def)
  next
    case (reader res z alive)
    show ?thesis
      by (rule offers_simulated [OF assms(1) accounts_on_read [OF reader(3) wf] sends_text_read [OF reader(3)]])
        (simp_all add: reader(1))
  next
    case stopped
    show ?thesis
      by (rule offers_simulated [OF assms(1) accounts_stop sends_text_lost(2)]) (simp_all add: stopped)
  qed
qed

interpretation zygote_service: call_service "zstep mx payload" init_zsys good_answer error_responses
    "zygote_calls payload" "zreach mx payload" for mx payload
proof unfold_locales
  show "zreach mx payload init_zsys" by (rule zreach.zinit)
  show "zygote_calls payload init_zsys = idle" by (simp add: zygote_calls_def idle_def)
qed (rule zreach.zmore, assumption+, rule zstep_simulated)

lemma zreach_steps: "zreach mx payload s \<Longrightarrow> (zstep mx payload)\<^sup>*\<^sup>* init_zsys s"
  by (induction rule: zreach.induct) (auto intro: rtranclp.rtrancl_into_rtrancl)

section \<open>Properties\<close>

text \<open>C12. The manager of the zygote implements the call service: however calls, reads, timeouts, failures and the
  stop interleave, what happened to the calls is a run of the specification, and so is every further
  step. So a call is offered at most one answer, while it is in progress, and returns that answer or one of the
  three errors.\<close>

theorem zygote_implements_calls:
  assumes "zreach mx payload s"
  shows "(call_step good_answer error_responses)\<^sup>*\<^sup>* idle (zygote_calls payload s)
    \<and> (\<forall>t. zstep mx payload s t \<longrightarrow> (call_step good_answer error_responses)\<^sup>*\<^sup>* (zygote_calls payload s) (zygote_calls payload t))
    \<and> (\<forall>c. offered (zygote_calls payload s) c = map_of (delivered (mgr s)) c)
    \<and> (\<forall>c v. pcs s c = Returned v \<longleftrightarrow> phase (zygote_calls payload s) c = Got (payload c) v)"
proof -
  have "pcs s c = Returned v \<longleftrightarrow> phase (zygote_calls payload s) c = Got (payload c) v" for c v
    by (cases "pcs s c") (simp_all add: zygote_calls_def)
  with zygote_service.reach [OF zreach_steps [OF assms]] zstep_simulated [OF assms] show ?thesis
    by (simp add: zygote_calls_def)
qed

theorem zygote_implements_calls_witness:
  "(call_step good_answer error_responses)\<^sup>*\<^sup>* idle (zygote_calls (\<lambda>c. []) waiting_zsys)"
  using zygote_implements_calls [OF zreach_waiting [of 100]] by simp



end
