(* ===== verification/Queue_Drain.thy ===== *)
theory Queue_Drain
  imports Queue
begin

text \<open>
  The worker pool drains. Once no new call is submitted, every step of the pool, whoever takes it, uses up
  some of a finite amount of work; and where no step is left, no call waits. So every schedule leads to
  the end, and no assumption about the scheduler is needed.
\<close>

section \<open>Work\<close>

text \<open>A step in which no call is submitted.\<close>

definition drain_step ::
  "('c, 'j message) chan_ops \<Rightarrow> ('j \<Rightarrow> api_response \<Rightarrow> bool) \<Rightarrow> ('j \<Rightarrow> bool) \<Rightarrow> ('c, 'j) queue \<Rightarrow> ('c, 'j) queue \<Rightarrow> bool" where
  "drain_step ops runs panics q q' \<longleftrightarrow> qstep ops runs panics q q' \<and> length (q_calls q') = length (q_calls q)"

text \<open>The steps that a call, a message and a worker may still cause.\<close>

fun call_work :: "'j call \<Rightarrow> nat" where
  "call_work (Counted job) = 5"
| "call_work Refused = 1"
| "call_work Awaiting = 1"
| "call_work (Returned r) = 0"
| "call_work Dropped_call = 0"

fun worker_work :: "'j worker \<Rightarrow> nat" where
  "worker_work (Received t job) = 2"
| "worker_work (Running t job) = 1"
| "worker_work Waiting = 0"
| "worker_work Gone = 0"

definition work :: "('c \<Rightarrow> 'j message list) \<Rightarrow> ('c, 'j) queue \<Rightarrow> nat" where
  "work items q =
     sum_list (map call_work (q_calls q)) + 3 * length (items (q_chan q)) + sum_list (map worker_work (q_workers q))"

lemma sum_list_map_update:
  fixes f :: "'a \<Rightarrow> nat"
  shows "i < length xs \<Longrightarrow> sum_list (map f (xs[i := y])) + f (xs ! i) = sum_list (map f xs) + f y"
proof (induction xs arbitrary: i)
  case (Cons x xs)
  then show ?case by (cases i) auto
qed simp

lemma call_work_bound: "sum_list (map call_work cs) + 4 * length (filter (\<lambda>c. \<not> is_counted c) cs) \<le> 5 * length cs"
proof (induction cs)
  case (Cons c cs)
  then show ?case by (cases c) simp_all
qed simp

lemma worker_work_bound: "sum_list (map worker_work ws) \<le> 2 * length (filter (\<lambda>w. held w \<noteq> None) ws)"
proof (induction ws)
  case (Cons w ws)
  then show ?case by (cases w) simp_all
qed simp

lemma pool_parts:
  assumes "pool_ok items receivers runs panics n q"
  shows "shape_ok receivers n q" "order_ok items q" "held_ok q" "oneshots_ok runs panics q" "returns_ok receivers q"
  using assms unfolding pool_ok_def by blast+

text \<open>A relation whose runs from a state are bounded has a run that ends.\<close>

lemma bounded_run_ends:
  fixes R :: "'s \<Rightarrow> 's \<Rightarrow> bool"
  assumes "\<And>k y. (R ^^ k) x y \<Longrightarrow> k \<le> b"
  shows "\<exists>k y. (R ^^ k) x y \<and> (\<nexists>z. R y z)"
proof -
  let ?P = "\<lambda>k. \<exists>y. (R ^^ k) x y"
  have "?P 0" by simp
  then have last: "?P (Greatest ?P)" "\<And>k. ?P k \<Longrightarrow> k \<le> Greatest ?P"
    using GreatestI_nat [of ?P 0 b] Greatest_le_nat [of ?P _ b] assms by blast+
  then obtain y where "(R ^^ Greatest ?P) x y" by blast
  moreover from this last(2) have "\<nexists>z. R y z" by (metis not_less_eq_eq order_refl relpowp_Suc_I)
  ultimately show ?thesis by blast
qed

context job_channel begin

lemma drain_uses_work:
  assumes "shape_ok receivers n q" and "drain_step ops runs panics q q'"
  shows "work items q' < work items q"
proof -
  note calls = sum_list_map_update [where f = call_work and xs = "q_calls q"]
  note workers = sum_list_map_update [where f = worker_work and xs = "q_workers q"]
  have "qstep ops runs panics q q'" and len: "length (q_calls q') = length (q_calls q)"
    using assms(2) by (simp_all add: drain_step_def)
  then show ?thesis
  proof cases
    case (count job)
    with len show ?thesis by (simp add: submit_count_def)
  next
    case (send t job)
    show ?thesis
    proof (cases "chan_try_send ops (t, job) (q_chan q)")
      case None
      with send calls [of t Refused] show ?thesis by (simp add: work_def submit_send_def)
    next
      case (Some c)
      with send calls [of t Awaiting] send_cases(1) [OF Some] show ?thesis by (simp add: work_def submit_send_def)
    qed
  next
    case (refused t)
    with calls [of t "Returned (api_error 500 ''worker pool unavailable'')"] show ?thesis by (simp add: work_def submit_refused_def)
  next
    case (returns t r)
    with calls [of t "Returned r"] show ?thesis by (simp add: work_def submit_return_def)
  next
    case (dropped t)
    with calls [of t Dropped_call] show ?thesis by (simp add: work_def submit_dropped_def)
  next
    case (recv w t job c)
    have "0 < receivers (q_chan q)" using waiting_receiver [OF assms(1) recv(2)] recv(3) by simp
    from recv_cases(1) [OF recv(4) this] workers [OF recv(2), of "Received t job"] recv
    show ?thesis by (simp add: work_def worker_recv_def)
  next
    case (begins w t job)
    with workers [of w "Running t job"] show ?thesis by (simp add: work_def worker_begin_def)
  next
    case (respond w t job r)
    with workers [of w Waiting] show ?thesis by (simp add: work_def worker_respond_def)
  next
    case (panic w t job)
    with workers [of w Gone] drop_rx(2) show ?thesis by (simp add: work_def worker_panic_def)
  qed
qed

lemma drain_keeps_pool:
  assumes "pool_ok items receivers runs panics n q" and "drain_step ops runs panics q q'"
  shows "pool_ok items receivers runs panics n q'"
  using assms pool_step unfolding drain_step_def by blast

lemma drain_bounded:
  assumes "pool_ok items receivers runs panics n q" and "(drain_step ops runs panics ^^ k) q q'"
  shows "k + work items q' \<le> work items q \<and> pool_ok items receivers runs panics n q'"
  using assms(2)
proof (induction k arbitrary: q')
  case 0
  with assms(1) show ?case by simp
next
  case (Suc k)
  then obtain p where p: "(drain_step ops runs panics ^^ k) q p" "drain_step ops runs panics p q'" by auto
  have ok: "k + work items p \<le> work items q" "pool_ok items receivers runs panics n p" using Suc.IH [OF p(1)] by simp_all
  then have "work items q' < work items p" using drain_uses_work [OF _ p(2), of n] by (simp add: pool_ok_def)
  with ok drain_keeps_pool [OF ok(2) p(2)] show ?case by simp
qed

text \<open>A call that has not returned leaves something to do.\<close>

lemma worker_can_step:
  assumes "alive q" and "w < length (q_workers q)" and "\<forall>job. \<exists>r. runs job r" and "items (q_chan q) \<noteq> [] \<or> held (q_workers q ! w) \<noteq> None"
    and "shape_ok receivers n q"
  shows "\<exists>q'. drain_step ops runs panics q q'"
proof (cases "q_workers q ! w")
  case Waiting
  then obtain m ms where i: "items (q_chan q) = m # ms" using assms(4) by (cases "items (q_chan q)") auto
  obtain t job where "m = (t, job)" by (cases m)
  moreover have "0 < receivers (q_chan q)" using waiting_receiver [OF assms(5,2)] Waiting by simp
  ultimately obtain c where "chan_recv ops (q_chan q) = Some ((t, job), c)" using recv_first [OF _ i] by blast
  from qstep.recv [OF assms(2) Waiting this] show ?thesis unfolding drain_step_def
    by (intro exI [of _ "worker_recv w t job c q"]) (simp add: worker_recv_def)
next
  case (Received t job)
  from qstep.begins [OF assms(2) Received] show ?thesis unfolding drain_step_def by (intro exI [of _ "worker_begin w t job q"]) (simp add: worker_begin_def)
next
  case (Running t job)
  obtain r where "runs job r" using assms(3) by blast
  from qstep.respond [OF assms(2) Running, of runs r ops panics] this show ?thesis
    unfolding drain_step_def by (intro exI [of _ "worker_respond w t r q"]) (simp add: worker_respond_def)
next
  case Gone
  then show ?thesis using assms(1) nth_mem [OF assms(2)] unfolding alive_def by (metis is_gone.simps(1))
qed

lemma drained_when_stuck:
  assumes ok: "pool_ok items receivers runs panics n q" and "alive q" and "0 < n" and total: "\<forall>job. \<exists>r. runs job r"
    and stuck: "\<nexists>q'. drain_step ops runs panics q q'" and t: "t < length (q_calls q)"
  shows "q_calls q ! t = Dropped_call \<or> (\<exists>r. q_calls q ! t = Returned r)"
proof (cases "q_calls q ! t")
  case (Counted job)
  from qstep.send [OF t Counted] have "drain_step ops runs panics q (submit_send ops t job q)"
    by (simp add: drain_step_def submit_send_def split: option.split)
  with stuck show ?thesis by blast
next
  case Refused
  from qstep.refused [OF t Refused] have "drain_step ops runs panics q (submit_refused t q)"
    by (simp add: drain_step_def submit_refused_def)
  with stuck show ?thesis by blast
next
  case Awaiting
  have ord: "order_ok items q" and held: "held_ok q" and shape: "shape_ok receivers n q" and w: "0 < length (q_workers q)"
    using ok assms(3) by (simp_all add: pool_ok_def shape_ok_def)
  note idle = worker_can_step [OF assms(2) _ total _ shape]
  have empty: "items (q_chan q) = []" using idle [OF w] stuck by blast
  have "t \<in> set (q_taken q)"
    using awaiting_is_sent [OF ord t Awaiting] ord empty by (simp add: order_ok_def fifo_ok_def)
  moreover have "\<not> holds (q_workers q) t"
  proof
    assume "holds (q_workers q) t"
    then obtain w m where "w < length (q_workers q)" "held (q_workers q ! w) = Some m" unfolding holds_def by blast
    with idle [of w] stuck show False by blast
  qed
  ultimately have "q_oneshots q ! t \<noteq> Open" using held_ok_holds [OF held] by blast
  then obtain r where r: "oneshot_result (q_oneshots q ! t) = Some r"
    by (cases "q_oneshots q ! t") (simp_all add: oneshot_result_def)
  from qstep.returns [OF t Awaiting r] have "drain_step ops runs panics q (submit_return t r q)"
    by (simp add: drain_step_def submit_return_def)
  with stuck show ?thesis by blast
qed simp_all

text \<open>Every message and every busy worker belongs to a call of its own, so that the work left is bounded by the calls.\<close>

lemma busy_bound:
  assumes "held_ok q"
  shows "length (filter (\<lambda>w. held w \<noteq> None) (q_workers q)) \<le> card (set (q_taken q))"
proof -
  let ?W = "{w. w < length (q_workers q) \<and> held (q_workers q ! w) \<noteq> None}"
  let ?f = "\<lambda>w. fst (the (held (q_workers q ! w)))"
  have "inj_on ?f ?W"
  proof (rule inj_onI)
    fix v w assume vw: "v \<in> ?W" "w \<in> ?W" "?f v = ?f w"
    then obtain m m' where "held (q_workers q ! v) = Some m" "held (q_workers q ! w) = Some m'" by blast
    with held_okD(4) [OF assms, of v m w m'] vw show "v = w" by (cases "v = w") simp_all
  qed
  moreover have "?f ` ?W \<subseteq> set (q_taken q)"
  proof (rule image_subsetI)
    fix w assume "w \<in> ?W"
    then obtain m where "w < length (q_workers q)" "held (q_workers q ! w) = Some m" by blast
    with held_okD(1) [OF assms] show "?f w \<in> set (q_taken q)" by simp
  qed
  ultimately have "card ?W \<le> card (set (q_taken q))" by (intro card_inj_on_le) simp_all
  then show ?thesis by (simp add: length_filter_conv_card)
qed

lemma work_bound:
  assumes "pool_ok items receivers runs panics n q"
  shows "work items q \<le> 5 * length (q_calls q)"
proof -
  let ?busy = "length (filter (\<lambda>w. held w \<noteq> None) (q_workers q))" and ?plain = "length (filter (\<lambda>c. \<not> is_counted c) (q_calls q))"
  have sent: "q_taken q @ map fst (items (q_chan q)) = q_sent q" "distinct (q_sent q)"
      "\<forall>t\<in>set (q_sent q). t < length (q_calls q) \<and> \<not> is_counted (q_calls q ! t)" 
    using pool_parts(2) [OF assms] unfolding order_ok_def fifo_ok_def sent_called_def by blast+
  have taken: "distinct (q_taken q)" using sent(2) unfolding sent(1) [symmetric] by simp
  have "card (set (q_sent q)) \<le> card {t. t < length (q_calls q) \<and> \<not> is_counted (q_calls q ! t)}"
    by (rule card_mono) (use sent(3) in auto)
  moreover have "card (set (q_sent q)) = card (set (q_taken q)) + length (items (q_chan q))"
    unfolding distinct_card [OF sent(2)] distinct_card [OF taken] by (simp flip: sent(1))
  ultimately have few: "length (items (q_chan q)) + ?busy \<le> ?plain"
    using busy_bound [OF pool_parts(3) [OF assms]] by (simp add: length_filter_conv_card)
  show ?thesis using few call_work_bound [of "q_calls q"] worker_work_bound [of "q_workers q"] unfolding work_def by linarith
qed

text \<open>What a call has returned, when no job panics.\<close>

lemma returned_answer:
  assumes "pool_ok items receivers runs panics n q" and "alive q" and "0 < n" and "\<forall>job. \<not> panics job"
    and t: "t < length (q_calls q)" "q_calls q ! t = Returned r"
  shows "q_oneshots q ! t = Answer r" and "t \<in> set (q_taken q)" and "runs (q_jobs q ! t) r"
proof -
  have "receivers (q_chan q) = length (filter (\<lambda>w. \<not> is_gone w) (q_workers q))" "length (q_workers q) = n"
    using pool_parts(1) [OF assms(1)] unfolding shape_ok_def by blast+
  moreover have "filter (\<lambda>w. \<not> is_gone w) (q_workers q) = q_workers q" using assms(2) by (simp add: alive_def)
  ultimately have "0 < receivers (q_chan q)" using assms(3) by simp
  moreover have "call_ok (receivers (q_chan q) = 0) (q_oneshots q ! t) (q_calls q ! t)"
    using pool_parts(5) [OF assms(1)] t(1) unfolding returns_ok_def by blast
  moreover have "oneshot_ok runs panics (t \<in> set (q_taken q)) (q_jobs q ! t) (q_oneshots q ! t)"
    using pool_parts(4) [OF assms(1)] t(1) unfolding oneshots_ok_def by blast
  ultimately have "q_oneshots q ! t = Answer r \<and> t \<in> set (q_taken q) \<and> runs (q_jobs q ! t) r"
    using assms(4) t(2) by (cases "q_oneshots q ! t") (simp_all add: oneshot_result_def)
  then show "q_oneshots q ! t = Answer r" "t \<in> set (q_taken q)" "runs (q_jobs q ! t) r" by blast+
qed

end

section \<open>Draining\<close>

text \<open>If no further call is submitted, every schedule ends, after at most five steps for each call; and when it
  has ended, every call has returned with an answer of its own job, unless its client went away. This
  needs a worker, and that jobs end and do not panic; nothing is assumed about the scheduler.\<close>

lemma queue_drains:
  assumes "job_channel ops items receivers" and "qreach ops runs panics n q" and "0 < n"
    and "\<forall>job. \<exists>r. runs job r" and "\<forall>job. \<not> panics job" and "(drain_step ops runs panics ^^ k) q q'"
  shows "k \<le> 5 * length (q_calls q)
    \<and> ((\<nexists>q''. drain_step ops runs panics q' q'') \<and> t < length (q_calls q') \<longrightarrow>
        q_calls q' ! t = Dropped_call \<or> (\<exists>r. q_calls q' ! t = Returned r \<and> runs (q_jobs q' ! t) r))"
proof -
  note pool = job_channel.pool_reach [OF assms(1,2)]
  have ok: "k + work items q' \<le> work items q" "pool_ok items receivers runs panics n q'"
    using job_channel.drain_bounded [OF assms(1) pool assms(6)] by simp_all
  have "(drain_step ops runs panics)\<^sup>*\<^sup>* q q'" using assms(6) by (rule relpowp_imp_rtranclp)
  then have "(qstep ops runs panics)\<^sup>*\<^sup>* q q'" by (rule rtranclp_mono [THEN predicate2D, rotated]) (auto simp: drain_step_def)
  then have "qreach ops runs panics n q'" using assms(2) unfolding qreach_def by simp
  then have alive: "alive q'" by (rule job_channel.alive_reach [OF assms(1) _ assms(5)])
  show ?thesis
    using ok(1) job_channel.work_bound [OF assms(1) pool] job_channel.drained_when_stuck [OF assms(1) ok(2) alive assms(3,4)]
      job_channel.returned_answer(3) [OF assms(1) ok(2) alive assms(3,5)] by (metis le_add1 order_trans)
qed

end
