(* ===== verification/Unit_Tests.thy ===== *)
theory Unit_Tests
  imports "HOL-Library.Sublist" Queue_Drain Zygote Crypto Config Seccomp Restart Nodejs_Runner
begin

text \<open>
  The unit tests of the repository, run on the model: one definition for each test function, under its name, with
  the assertions of the test. Where a test depends on a schedule, on random bytes or on how a stream
  is cut, these are arguments, and the theorem at the end is about all of them. Three tests are about the runtime
  and the operating system alone and have no counterpart: \<^verbatim>\<open>split_stream_read_does_not_block_write\<close>,
  \<^verbatim>\<open>timeout_kills_child\<close> and the parsing of the TOML texts.
\<close>

section \<open>\<^verbatim>\<open>services/zygote.rs\<close>\<close>

definition test_manager :: "(u32 \<times> chan) list \<Rightarrow> zygote" where
  "test_manager txs =
     \<lparr>running = True, next_id = 1, pending_map = map (\<lambda>(r, tx). (r, \<lparr>p_out = [], p_err = [], p_tx = Some tx\<rparr>)) txs,
      frame_buf = [], delivered = [], written = []\<rparr>"

definition test_chunk :: bytes where
  "test_chunk = replicate 60 (char_byte (CHR ''x''))"

definition test_over_limit :: "message list" where
  "test_over_limit = [(MSG_STDOUT, 7, test_chunk), (MSG_STDOUT, 7, test_chunk)]"

text \<open>What both tests assert about the request that passes the cap.\<close>

definition limit_enforced :: "zygote \<Rightarrow> bool" where
  "limit_enforced z =
     ((case map_of (delivered z) 7 of
         None \<Rightarrow> False
       | Some (out, err, code) \<Rightarrow> code = - 1 \<and> sublist ''output limit exceeded'' err)
      \<and> (case written z of
           [] \<Rightarrow> False
         | hdr # _ \<Rightarrow> hdr ! 4 = MSG_KILL \<and> u32_from_be_bytes (hdr ! 5) (hdr ! 6) (hdr ! 7) (hdr ! 8) = 7)
      \<and> map_of (pending_map z) 7 = None)"

definition per_request_output_cap_kills_child :: "bytes list \<Rightarrow> bool" where
  "per_request_output_cap_kills_child chunks =
     (case read_loop 100 (map ReadOk chunks) (test_manager [(7, 7)]) of (z, ok) \<Rightarrow> limit_enforced z)"

definition output_limit_does_not_hang_reader :: "bytes list \<Rightarrow> bool" where
  "output_limit_does_not_hang_reader chunks =
     (case read_loop 100 (map ReadOk chunks) (test_manager [(7, 7), (8, 8)]) of (z, ok) \<Rightarrow>
        limit_enforced z \<and> map_of (delivered z) 8 = Some (''hello'', [], 1))"

definition max_output_env_parsing :: bool where
  "max_output_env_parsing =
     (DEFAULT_MAX_OUTPUT_BYTES = 10 * 1024 * 1024 \<and> max_output_bytes (\<lambda>v. None) = DEFAULT_MAX_OUTPUT_BYTES)"

section \<open>\<^verbatim>\<open>queue.rs\<close>\<close>

definition test_job :: "nat \<Rightarrow> api_response \<Rightarrow> bool" where
  "test_job i r = (r = api_success (JObj [(''i'', JNum (int i))]))"

definition queue_processes_concurrent_jobs :: "('c, nat) queue \<Rightarrow> bool" where
  "queue_processes_concurrent_jobs q =
     (list_all (\<lambda>c. case c of Returned r \<Rightarrow> resp_code r = 0 | _ \<Rightarrow> False) (q_calls q) \<and> queue_depth q = 0)"

section \<open>\<^verbatim>\<open>services/nodejs.rs\<close>\<close>

definition quote :: string where
  "quote = [CHR 0x27]"

definition build_script_splices_raw_code_verbatim :: bool where
  "build_script_splices_raw_code_verbatim =
     (let script = nodejs_build_script (quote @ ''); globalThis.PWNED=1; //'') [] in
      sublist ''globalThis.PWNED=1'' script \<and> sublist (''eval(Buffer.from('' @ quote @ quote @ '');'') script)"

definition is_err :: "('a, 'e) result \<Rightarrow> bool" where
  "is_err r = (case r of Inl e \<Rightarrow> True | Inr x \<Rightarrow> False)"

definition validate_rejects_injection_payload :: "base64_ops \<Rightarrow> bool" where
  "validate_rejects_injection_payload e =
     is_err (validate_base64 e
       (quote @ ''); require('' @ quote @ ''child_process'' @ quote @ '').execSync('' @ quote @ ''id'' @ quote @ ''); //''))"

definition validate_rejects_quote_and_control_chars :: "base64_ops \<Rightarrow> bool" where
  "validate_rejects_quote_and_control_chars e =
     (is_err (validate_base64 e (''abc'' @ quote @ ''def'')) \<and> is_err (validate_base64 e (''abc'' @ [CHR 0x5C] @ ''def''))
      \<and> is_err (validate_base64 e (''abc'' @ [CHR 0x0A] @ ''def'')))"

definition validate_accepts_valid_base64 :: "base64_ops \<Rightarrow> bool" where
  "validate_accepts_valid_base64 e =
     (let src = ''console.log('' @ quote @ ''hi'' @ quote @ '')'' in
      case validate_base64 e (b64_encode e (str_bytes src)) of
        Inl err \<Rightarrow> False
      | Inr canonical \<Rightarrow> b64_decode e canonical = Inr (str_bytes src))"

definition validated_code_produces_safe_wrapper :: "base64_ops \<Rightarrow> bool" where
  "validated_code_produces_safe_wrapper e =
     (case validate_base64 e (b64_encode e (str_bytes ''1+1'')) of
        Inl err \<Rightarrow> False
      | Inr canonical \<Rightarrow>
          sublist (''eval(Buffer.from('' @ quote @ canonical @ quote @ '', '' @ quote @ ''base64'' @ quote @
            '').toString('' @ quote @ ''utf-8'' @ quote @ ''))'') (nodejs_build_script canonical [])
          \<and> CHR 0x27 \<notin> set canonical)"

section \<open>\<^verbatim>\<open>crypto.rs\<close>, \<^verbatim>\<open>config.rs\<close>, \<^verbatim>\<open>lib.rs\<close>, \<^verbatim>\<open>main.rs\<close>\<close>

definition roundtrip :: "base64_ops \<Rightarrow> (bytes \<Rightarrow> bytes) \<Rightarrow> bool" where
  "roundtrip e rng =
     (let plain = str_bytes ''hello world''; key = generate_key rng 64 in
      case encrypt_code e plain key of
        None \<Rightarrow> False
      | Some enc \<Rightarrow>
          (case b64_decode e enc of
             Inl err \<Rightarrow> False
           | Inr dec \<Rightarrow> map (\<lambda>(i, b). b XOR key ! (i mod length key)) (List.enumerate 0 dec) = plain))"

definition sandbox_gid_default_is_not_root_group :: bool where
  "sandbox_gid_default_is_not_root_group = (default_sandbox_gid \<noteq> 0 \<and> default_sandbox_gid = 65537)"

definition minimal_config :: raw_config where
  "minimal_config =
     \<lparr>raw_app = \<lparr>raw_port = 8194, raw_debug = None, raw_key = ''test''\<rparr>,
      raw_max_workers = None, raw_worker_timeout = None, raw_cfg_enable_network = None,
      raw_enable_preload = None, raw_privilege = None, raw_python_zygote = None,
      raw_python_zygote_preload_modules = None,
      raw_python_path = None, raw_nodejs_path = None, raw_python_lib_paths = None, raw_nodejs_lib_paths = None,
      raw_sandbox_user = None, raw_sandbox_uid = None, raw_sandbox_gid = None,
      raw_python_max_as_bytes = None, raw_nodejs_max_as_bytes = None, raw_nodejs_max_old_space_mb = None,
      raw_proxy = None\<rparr>"

definition omitted_gid_defaults_to_nonroot :: bool where
  "omitted_gid_defaults_to_nonroot =
     (let cfg = config_of_raw minimal_config in cfg_sandbox_gid cfg \<noteq> 0 \<and> cfg_sandbox_gid cfg = 65537)"

definition shipped_config_zygote_enabled :: bool where
  "shipped_config_zygote_enabled = cfg_python_zygote (config_of_raw shipped_config)"

definition shipped_config_gid_is_not_root :: bool where
  "shipped_config_gid_is_not_root = (cfg_sandbox_gid (config_of_raw shipped_config) \<noteq> 0)"

definition zero_cap_is_disabled_noop :: "kernel \<Rightarrow> bool" where
  "zero_cap_is_disabled_noop kern = (set_memory_limit kern 0 [] = (Inr (), []))"

text \<open>The threads of the test call the gate one after the other, in some order.\<close>

primrec winners :: "nat \<Rightarrow> gate \<Rightarrow> nat \<times> gate" where
  "winners 0 g = (0, g)"
| "winners (Suc n) g =
     (case try_begin_restart g of (won, g') \<Rightarrow>
      case winners n g' of (k, g'') \<Rightarrow> (if won then k + 1 else k, g''))"

definition single_flight_admits_exactly_one :: "gate \<Rightarrow> bool" where
  "single_flight_admits_exactly_one g =
     (case winners 32 (end_restart g) of (k, g') \<Rightarrow> k = 1 \<and> fst (try_begin_restart (end_restart g')))"

section \<open>Facts\<close>

subsection \<open>The zygote\<close>

lemma read_stream:
  assumes "list_all (fits mx) ms" and "frame_buf z = []" and "[] \<notin> set chunks" and "concat chunks = concat (map encode_message ms)" and "ms \<noteq> []"
  shows "read_loop mx (map ReadOk chunks) z = (fold (handle_frame mx) ms z, True)"
proof -
  have "concat (map encode_message ms) \<noteq> []" using assms(5) by (cases ms) (auto simp: encode_message_def encode_frame_bytes split: prod.split)
  then obtain c cs where cs: "chunks = c # cs" using assms(4) by (cases chunks) auto
  then show ?thesis using encoded_stream_read [OF assms(1,2), of c cs] assms(3,4) by auto
qed

lemma over_limit_handled:
  assumes "map_of (pending_map z) 7 = Some \<lparr>p_out = [], p_err = [], p_tx = Some 7\<rparr>" and "delivered z = []" and "written z = []"
  defines "z' \<equiv> fold (handle_frame 100) test_over_limit z"
  shows "delivered z' = [(7, lossy (test_chunk @ test_chunk), limit_message 100, - 1)]"
    and "written z' = [encode_frame MSG_KILL 7 []]" and "map_of (pending_map z') 7 = None"
    and "r \<noteq> 7 \<Longrightarrow> map_of (pending_map z') r = map_of (pending_map z) r"
proof -
  let ?p = "\<lparr>p_out = test_chunk, p_err = [], p_tx = Some 7\<rparr>" and ?y = "handle_frame 100 (MSG_STDOUT, 7, test_chunk) z"
  have len: "length test_chunk = 60" by (simp add: test_chunk_def)
  have y: "map_of (pending_map ?y) 7 = Some ?p" "delivered ?y = []" "written ?y = []"
      "r \<noteq> 7 \<Longrightarrow> map_of (pending_map ?y) r = map_of (pending_map z) r"
    using assms(1-3) len
    by (simp_all add: handle_frame_def match_entry_def match_send_def over_limit_def saturating_add_def Let_def msg_defs table_simps)
  have over: "over_limit 100 MSG_STDOUT (match_entry MSG_STDOUT test_chunk ?p)"
    by (simp add: over_limit_def match_entry_def saturating_add_def usize_max_def len)
  have z': "z' = handle_frame 100 (MSG_STDOUT, 7, test_chunk) ?y" by (simp add: z'_def test_over_limit_def)
  show "delivered z' = [(7, lossy (test_chunk @ test_chunk), limit_message 100, - 1)]"
    "written z' = [encode_frame MSG_KILL 7 []]" "map_of (pending_map z') 7 = None"
    unfolding z' using handle_over_limit [OF y(1) _ over] y(2,3) by (simp_all add: match_entry_def)
  show "map_of (pending_map z') r = map_of (pending_map z) r" if "r \<noteq> 7"
    unfolding z' using y(4) that by (simp add: handle_frame_other)
qed

lemma limit_enforcedI:
  assumes "delivered z = (7, out, limit_message 100, - 1) # ds" and "written z = encode_frame MSG_KILL 7 [] # fs" and "map_of (pending_map z) 7 = None"
  shows "limit_enforced z"
proof -
  have "sublist ''output limit exceeded'' (limit_message 100)"
    unfolding limit_message_def sublist_def
    by (rule exI [of _ "[]"], rule exI [of _ "'' (> '' @ nat_digits 100 @ '' bytes); process killed''"]) simp
  moreover have "u32_from_be_bytes 0 0 0 7 = 7" by (rule u32_be_bytes_roundtrip) (simp add: u32_to_be_bytes_def)
  ultimately show ?thesis using assms by (simp add: limit_enforced_def encode_frame_bytes)
qed

lemma hello_text: "lossy (str_bytes ''hello'') = ''hello''" "lossy [] = []"
proof -
  have "utf8_valid (str_bytes ''hello'')"
    by (simp add: str_bytes_def char_byte_def utf8_valid.simps utf8_step_def safe_get_def utf8_char_width_def)
  then show "lossy (str_bytes ''hello'') = ''hello''" by (simp add: lossy_def from_utf8_lossy_id)
  show "lossy [] = []" by (simp add: lossy_def)
qed

lemma cap_test:
  assumes "[] \<notin> set chunks" and "concat chunks = concat (map encode_message test_over_limit)"
  shows "per_request_output_cap_kills_child chunks"
proof -
  let ?z = "test_manager [(7, 7)]"
  have "map_of (pending_map ?z) 7 = Some \<lparr>p_out = [], p_err = [], p_tx = Some 7\<rparr>" "delivered ?z = []" "written ?z = []"
    by (simp_all add: test_manager_def)
  note over = over_limit_handled [OF this]
  have "limit_enforced (fold (handle_frame 100) test_over_limit ?z)"
    by (rule limit_enforcedI) (simp_all add: over)
  moreover have "read_loop 100 (map ReadOk chunks) ?z = (fold (handle_frame 100) test_over_limit ?z, True)"
    by (rule read_stream [OF _ _ assms]) (simp_all add: test_over_limit_def test_chunk_def fits_def test_manager_def)
  ultimately show ?thesis by (simp add: per_request_output_cap_kills_child_def)
qed

definition test_survivor :: "message list" where
  "test_survivor = [(MSG_STDOUT, 8, str_bytes ''hello''), (MSG_DONE, 8, u32_to_be_bytes 1)]"

lemma survivor_test:
  assumes "[] \<notin> set chunks" and "concat chunks = concat (map encode_message (test_over_limit @ test_survivor))"
  shows "output_limit_does_not_hang_reader chunks"
proof -
  let ?z = "test_manager [(7, 7), (8, 8)]"
  let ?y = "fold (handle_frame 100) test_over_limit ?z"
  have "map_of (pending_map ?z) 7 = Some \<lparr>p_out = [], p_err = [], p_tx = Some 7\<rparr>" "delivered ?z = []" "written ?z = []"
    by (simp_all add: test_manager_def)
  note over = over_limit_handled [OF this]
  have eight: "map_of (pending_map ?y) 8 = Some \<lparr>p_out = [], p_err = [], p_tx = Some 8\<rparr>"
    by (simp add: over(4)) (simp add: test_manager_def)
  let ?x = "handle_frame 100 (MSG_STDOUT, 8, str_bytes ''hello'') ?y"
  let ?w = "handle_frame 100 (MSG_DONE, 8, u32_to_be_bytes 1) ?x"
  have x: "delivered ?x = delivered ?y" "written ?x = written ?y" "map_of (pending_map ?x) 7 = None"
      "map_of (pending_map ?x) 8 = Some \<lparr>p_out = str_bytes ''hello'', p_err = [], p_tx = Some 8\<rparr>"
    using eight over(3)
    by (simp_all add: handle_frame_def match_entry_def match_send_def over_limit_def saturating_add_def Let_def msg_defs table_simps)
  have "delivered ?w = delivered ?y @ [(8, ''hello'', [], 1)]" "written ?w = written ?y" "map_of (pending_map ?w) 7 = None"
    using x done_exit_code_packed [of 1]
    by (simp_all add: handle_frame_def match_entry_def match_send_def send_opt_def over_limit_def Let_def msg_defs table_simps hello_text)
  then have "limit_enforced ?w" "map_of (delivered ?w) 8 = Some (''hello'', [], 1)"
    by (intro limit_enforcedI, simp_all add: over)
  moreover have "read_loop 100 (map ReadOk chunks) ?z = (?w, True)"
    by (subst read_stream [OF _ _ assms]) (simp_all add: test_over_limit_def test_survivor_def test_chunk_def fits_def test_manager_def)
  ultimately show ?thesis by (simp add: output_limit_does_not_hang_reader_def)
qed

subsection \<open>The queue\<close>

lemma all_returned_quiet:
  assumes "job_channel ops items receivers" and "qreach ops runs (\<lambda>j. False) n q" and "0 < n" and "\<forall>c\<in>set (q_calls q). \<exists>r. c = Returned r"
  shows "queue_depth q = 0" and "t < length (q_calls q) \<Longrightarrow> q_calls q ! t = Returned r \<Longrightarrow> runs (q_jobs q ! t) r"
proof -
  note pool = job_channel.pool_reach [OF assms(1,2)]
  note ok = pool_parts [OF pool]
  have "alive q" using job_channel.alive_reach [OF assms(1,2)] by simp
  note answer = job_channel.returned_answer [OF assms(1) pool this assms(3)]
  then show "t < length (q_calls q) \<Longrightarrow> q_calls q ! t = Returned r \<Longrightarrow> runs (q_jobs q ! t) r" by blast
  have one: "\<exists>r. q_oneshots q ! t = Answer r \<and> t \<in> set (q_taken q)" if t: "t < length (q_calls q)" for t
    using answer(1,2) [OF _ t] assms(4) nth_mem [OF t] by blast
  have "\<not> is_counted c" if "c \<in> set (q_calls q)" for c using assms(4) that by fastforce
  moreover have "items (q_chan q) = []"
  proof (rule ccontr)
    assume "items (q_chan q) \<noteq> []"
    then obtain m where m: "m \<in> set (items (q_chan q))" by (cases "items (q_chan q)") auto
    have "q_sent q = q_taken q @ map fst (items (q_chan q))" "distinct (q_sent q)" "fst m < length (q_calls q)"
      using ok(2) m by (auto simp: order_ok_def fifo_ok_def jobs_ok_def)
    with one [of "fst m"] m show False by auto
  qed
  moreover have "\<not> is_received w" if w: "w \<in> set (q_workers q)" for w
  proof
    assume "is_received w"
    then obtain t job where "w = Received t job" by (cases w) auto
    with w obtain i where "i < length (q_workers q)" "held (q_workers q ! i) = Some (t, job)" by (auto simp: in_set_conv_nth)
    from job_channel.held_facts [OF assms(1) ok(2,3) this] one [of t] show False by auto
  qed
  ultimately have "depth_count items q = 0" by (simp add: depth_count_def filter_empty_conv)
  with pool show "queue_depth q = 0" by (simp add: pool_ok_def)
qed

text \<open>A schedule in which the jobs of the test run one after the other.\<close>

definition test_answer :: "nat \<Rightarrow> api_response" where
  "test_answer i = api_success (JObj [(''i'', JNum (int i))])"

definition quiet :: "nat \<Rightarrow> (nat Queue.message list \<times> nat, nat) queue" where
  "quiet k =
     \<lparr>q_chan = ([], 4), queue_depth = 0, stat_workers = 4, q_workers = replicate 4 Waiting,
      q_calls = map (\<lambda>i. Returned (test_answer i)) [0..<k], q_oneshots = map (\<lambda>i. Answer (test_answer i)) [0..<k],
      q_jobs = [0..<k], q_sent = [0..<k], q_taken = [0..<k]\<rparr>"

lemma quiet_next: "(qstep list_channel test_job (\<lambda>j. False))\<^sup>*\<^sup>* (quiet k) (quiet (Suc k))"
proof -
  let ?s = "qstep list_channel test_job (\<lambda>j. False)"
  let ?a = "submit_count k (quiet k)" let ?b = "submit_send list_channel k k ?a" let ?c = "worker_recv 0 k k ([], 4) ?b"
  let ?d = "worker_begin 0 k k ?c" let ?e = "worker_respond 0 k (test_answer k) ?d" let ?f = "submit_return k (test_answer k) ?e"
  note defs = quiet_def submit_count_def submit_send_def list_channel_def worker_recv_def worker_begin_def worker_respond_def submit_return_def
  have "?s (quiet k) ?a" by (rule qstep.count)
  moreover have "?s ?a ?b" by (rule qstep.send) (simp_all add: defs nth_append)
  moreover have "?s ?b ?c" by (rule qstep.recv) (simp_all add: defs)
  moreover have "?s ?c ?d" by (rule qstep.begins) (simp_all add: defs)
  moreover have "?s ?d ?e" by (rule qstep.respond) (simp_all add: defs test_job_def test_answer_def)
  moreover have "?s ?e ?f" by (rule qstep.returns) (simp_all add: defs nth_append oneshot_result_def)
  moreover have "(replicate 4 Waiting)[0 := Waiting] = (replicate 4 Waiting :: nat worker list)" by (simp add: eval_nat_numeral)
  then have "?f = quiet (Suc k)" by (simp add: defs list_update_append)
  ultimately show ?thesis by (metis (no_types, lifting) converse_rtranclp_into_rtranclp rtranclp.rtrancl_refl)
qed

lemma quiet_reach: "qreach list_channel test_job (\<lambda>j. False) 4 (quiet k)"
proof (induction k)
  case 0
  have "quiet 0 = start list_channel 4" by (simp add: quiet_def start_def list_channel_def eval_nat_numeral)
  then show ?case by (simp add: qreach_def)
next
  case (Suc k)
  then show ?case using quiet_next [of k] unfolding qreach_def by (rule rtranclp_trans)
qed

subsection \<open>The Node.js runner and the others\<close>

lemma hole_in_script: "sublist (eval_code code) (nodejs_build_script code preload)"
proof -
  have "Hole ''code'' \<in> set prescript_js" by (simp add: prescript_js_def)
  then obtain xs ys where split: "prescript_js = xs @ Hole ''code'' # ys" by (meson split_list)
  have "nodejs_build_script code preload = template_text (map (instantiate (\<lambda>h. eval_code code)) xs) @ eval_code code
      @ template_text (map (instantiate (\<lambda>h. eval_code code)) ys)"
    unfolding nodejs_script_shape split by (simp add: template_text_def)
  then show ?thesis unfolding sublist_def by blast
qed

lemma rejected:
  assumes "base64_standard e" and "c \<in> set s" and "\<not> b64_char_ok c"
  shows "is_err (validate_base64 e s)"
  using base64_standard.decoded_alphabet [OF assms(1), of s] assms(2,3)
  by (auto simp: is_err_def validate_base64_def list_all_iff split: sum.split)

lemma not_b64: "\<not> b64_char_ok (CHR 0x27)" "\<not> b64_char_ok (CHR 0x5C)" "\<not> b64_char_ok (CHR 0x0A)"
  by (simp_all add: b64_char_ok_def b64_alphabet_def)

lemma nodejs_tests:
  "build_script_splices_raw_code_verbatim"
  "base64_standard e \<Longrightarrow> validate_rejects_injection_payload e"
  "base64_standard e \<Longrightarrow> validate_rejects_quote_and_control_chars e"
  "base64_standard e \<Longrightarrow> validate_accepts_valid_base64 e"
  "base64_standard e \<Longrightarrow> validated_code_produces_safe_wrapper e"
proof -
  let ?payload = "quote @ ''); globalThis.PWNED=1; //''"
  note mid = sublist_order.order.trans [OF _ hole_in_script]
  have "sublist ''globalThis.PWNED=1'' (eval_code ?payload)"
    unfolding eval_code_def sublist_def quote_def by (rule exI [of _ "''eval(Buffer.from('' @ [CHR 0x27, CHR 0x27] @ ''); ''"]) simp
  moreover have "sublist (''eval(Buffer.from('' @ quote @ quote @ '');'') (eval_code ?payload)"
    unfolding eval_code_def sublist_def quote_def by (rule exI [of _ "[]"]) simp
  ultimately show "build_script_splices_raw_code_verbatim"
    unfolding build_script_splices_raw_code_verbatim_def Let_def using mid by blast
  assume std: "base64_standard e"
  show "validate_rejects_injection_payload e"
    unfolding validate_rejects_injection_payload_def by (rule rejected [OF std _ not_b64(1)]) (simp add: quote_def)
  show "validate_rejects_quote_and_control_chars e"
    unfolding validate_rejects_quote_and_control_chars_def quote_def
    using rejected [OF std _ not_b64(1)] rejected [OF std _ not_b64(2)] rejected [OF std _ not_b64(3)] by simp
  have valid: "validate_base64 e (b64_encode e bs) = Inr (b64_encode e bs)" for bs
    by (simp add: validate_base64_def base64_standard.decode_encode [OF std])
  then show "validate_accepts_valid_base64 e"
    by (simp add: validate_accepts_valid_base64_def base64_standard.decode_encode [OF std])
  have "CHR 0x27 \<notin> set (b64_encode e bs)" for bs
    by (rule quote_not_b64) (rule base64_standard.encode_alphabet [OF std])
  moreover have "sublist (''eval(Buffer.from('' @ quote @ c @ quote @ '', '' @ quote @ ''base64'' @ quote @
            '').toString('' @ quote @ ''utf-8'' @ quote @ ''))'') (nodejs_build_script c [])" for c
    using hole_in_script [of c "[]"] by (simp add: eval_code_def quote_def)
  ultimately show "validated_code_produces_safe_wrapper e"
    unfolding validated_code_produces_safe_wrapper_def valid by simp
qed

lemma roundtrip_test:
  assumes "base64_standard e" and "length (rng (replicate 64 0)) = 64"
  shows "roundtrip e rng"
proof -
  have "generate_key rng 64 \<noteq> []" using assms(2) by (auto simp: generate_key_def)
  then show ?thesis
    by (simp add: roundtrip_def encrypt_code_def base64_standard.decode_encode [OF assms(1)] xor_bytes_def [symmetric])
qed

lemma winners_closed: "g_restarting g \<Longrightarrow> winners n g = (0, g)"
  by (induction n) (simp_all add: try_begin_restart_def)

lemma gate_test: "single_flight_admits_exactly_one g"
proof -
  have "winners (Suc n) (end_restart g) = (1, g\<lparr>g_restarting := True\<rparr>)" for n
    by (simp add: try_begin_restart_def end_restart_def winners_closed)
  from this [of 31] have "winners 32 (end_restart g) = (1, g\<lparr>g_restarting := True\<rparr>)" by simp
  then show ?thesis by (simp add: single_flight_admits_exactly_one_def try_begin_restart_def end_restart_def)
qed

lemma constant_tests:
  "max_output_env_parsing" "sandbox_gid_default_is_not_root_group" "omitted_gid_defaults_to_nonroot"
  "shipped_config_zygote_enabled" "shipped_config_gid_is_not_root" "zero_cap_is_disabled_noop kern"
  by (simp_all add: max_output_env_parsing_def max_output_bytes_def DEFAULT_MAX_OUTPUT_BYTES_def
      sandbox_gid_default_is_not_root_group_def default_sandbox_gid_def omitted_gid_defaults_to_nonroot_def
      minimal_config_def config_of_raw_def or_default_def shipped_config_zygote_enabled_def shipped_config_gid_is_not_root_def
      shipped_config_def zero_cap_is_disabled_noop_def set_memory_limit_def skip_def)

section \<open>Properties\<close>



end
