(* ===== verification/Spec2Isabelle.thy ===== *)
theory Spec2Isabelle
  imports Server_Main Jail Zygote_Progress Sandbox_Entry Queue_Calls Zygote_Calls Unit_Tests
begin

text \<open>
  \<^bold>\<open>SandBoxRust: a server that runs untrusted Python and JavaScript code.\<close>

  \<^bold>\<open>The program.\<close> A client posts code to the HTTP server (\<^verbatim>\<open>server/src\<close>). The middleware checks the API
  key; the handler wraps the request into a job and submits it to a pool of workers (\<^verbatim>\<open>queue.rs\<close>). The
  job runs the code in a child process: Node.js, a fresh Python interpreter that is fed a script with
  the encrypted code, or a child forked by a warm Python process, the zygote, over a socket with a
  framed protocol (\<^verbatim>\<open>services/zygote.rs\<close>). Each child confines itself with the library
  \<^verbatim>\<open>lib/sandbox_seccomp\<close> before it decrypts and runs the code. If the zygote dies, requests ask for a
  restart that a gate in \<^verbatim>\<open>main.rs\<close> makes single-flight. The output and the exit code of the child become
  the answer.

  \<^bold>\<open>The theories\<close>, each named after the part it models; files are under \<^verbatim>\<open>src/\<close>.
  \<^item> \<open>Prelude\<close>, \<open>Rust_Std\<close>: types, tables, bytes; what the code uses of Rust's standard library: integers
    and their text, UTF-8 with replacement, splitting, replacing and trimming of strings.
  \<^item> \<open>Base64_Engine\<close>, \<open>Crypto\<close>: the interface of base64 as locales, interpreted by an implementation of
    RFC 4648; \<^verbatim>\<open>crypto.rs\<close> and the two decryption routines in Python.
  \<^item> \<open>Wire\<close>, \<open>Zygote\<close>, \<open>Zygote_Run\<close>, \<open>Zygote_Start\<close>: \<^verbatim>\<open>services/zygote.rs\<close>. Frames; the reader task
    as a function of the bytes it reads; concurrent calls of \<^verbatim>\<open>run\<close>, the reader, \<^verbatim>\<open>stop\<close> and the loss of the
    connection as a step relation; \<^verbatim>\<open>ZygoteManager::new\<close> with the descriptors it opens.
  \<^item> \<open>Zygote_Worker\<close>, \<open>Zygote_Link\<close>, \<open>Zygote_System\<close>, \<open>Zygote_Progress\<close>: \<^verbatim>\<open>runtime/pool/zygote_worker.py\<close>, the process at the other end of the socket:
    one operation for each handler of its event loop, the loop as a step relation; the two ends
    one after the other, and running concurrently with the bytes in flight between them.
  \<^item> \<open>Models\<close>, \<open>Services\<close>, \<open>Config\<close>: \<^verbatim>\<open>models.rs\<close>, \<^verbatim>\<open>services.rs\<close>, \<^verbatim>\<open>config.rs\<close>.
  \<^item> \<open>Seccomp_Tables\<close>, \<open>Seccomp\<close>: the whitelists and \<^verbatim>\<open>lib.rs\<close> of the library. An operation maps the trace of
    system calls made so far to a result and a longer trace; the kernel is a function that answers
    them.
  \<^item> \<open>Queue\<close>, \<open>Queue_Drain\<close>: \<^verbatim>\<open>queue.rs\<close> as a step relation over submitters and workers, on top of a locale for
    the channel crate; the work left in the pool.
  \<^item> \<open>Call_Service\<close>, \<open>Queue_Calls\<close>, \<open>Zygote_Calls\<close>: an abstract service that answers calls, a locale for programs
    that implement it, and its interpretations on the pool and on the manager of the zygote.
  \<^item> \<open>Process\<close>, \<open>Template\<close>, \<open>Python_Runner\<close>, \<open>Nodejs_Runner\<close>: the builder of child processes; the text of
    \<^verbatim>\<open>runtime/prescript.py\<close> and \<^verbatim>\<open>prescript.js\<close> with their holes; \<^verbatim>\<open>services/python.rs\<close> and
    \<^verbatim>\<open>services/nodejs.rs\<close>.
  \<^item> \<open>Sandbox_Entry\<close>: how the forked child, \<^verbatim>\<open>prescript.py\<close> and \<^verbatim>\<open>prescript.js\<close> confine themselves before
    they run the code.
  \<^item> \<open>Setup\<close>, \<open>Jail\<close>: \<^verbatim>\<open>setup/\<close>, and the script \<^verbatim>\<open>runtime/script/env.sh\<close> that it runs to fill the chroot jail.
  \<^item> \<open>Handlers\<close>, \<open>Restart\<close>, \<open>Server_Main\<close>: \<^verbatim>\<open>middleware.rs\<close> and \<^verbatim>\<open>handlers.rs\<close>; the
    global manager and its restart; \<^verbatim>\<open>main\<close> with its startup sequence and routes.
  \<^item> \<open>Unit_Tests\<close>: the tests of the repository, as definitions on the model.
  \<^item> This theory: what holds of several components together.

  \<^bold>\<open>Conventions.\<close> An error is \<open>Inl\<close>, a panic is \<open>None\<close>. Machine integers are words; lengths and
  \<^verbatim>\<open>usize\<close> values that only count elements are natural numbers. Strings are lists of characters with codes
  below 256, the bytes of their UTF-8 encoding. A map whose order does not matter is a table of pairs
  without duplicates. What a component needs from third-party code is a parameter, with its documented laws
  in a locale, and every locale is interpreted: base64, the channel, the comparison of keys, \<^verbatim>\<open>libseccomp\<close>.
  Concurrency is interleaving of the atomic actions of the code. Statements about all runs are
  invariants of the step relations; statements that something returns say that a continuation in which
  it returns exists from every reachable state, which excludes deadlock and does not assume fairness; for the
  pool there is also a bound on the length of every run.

  \<^bold>\<open>What is shown.\<close>
  \<^item> Requests: an accepted request is answered with the result of its own job, with a documented code,
    and never waits forever: once no more requests come, every schedule ends with all of them answered.
    The pool implements the call service; the queue is first in, first out, and its depth counter exact. Without
    the key nothing runs; jobs never panic; every outcome of a child is answered as stated.
  \<^item> Delivery: code survives encryption, scripts and command lines exactly; JavaScript code cannot leave its
    quotes.
  \<^item> Zygote: the reader refines the handling of messages one by one, however the stream is cut; every call
    is answered at most once and can return; buffered output is bounded; entries belong to calls in
    progress; restarts are single-flight, leak no process and keep a live manager. The worker reports every
    request completely and once, loses no child and bounds its buffer. Across the socket: the request of every
    waiting call reaches the worker, and what a child writes to its pipes is what the call is answered
    with. With both ends running concurrently, no number of a request is used twice up to \<open>2 ^ 32\<close> requests, and a call never
    returns anything but a failure or the complete output of its own request; so a client receives a failure or the
    outcome of exactly the code that it submitted. A call whose child was started can always return with its output, without its
    timeout. The manager implements the
    call service, and its answers are text.
  \<^item> Sandbox: the sequence of calls of \<^verbatim>\<open>init_seccomp\<close>, what each failure code means, and how the loaded
    filter judges every system call; user code runs only after the process has been confined this way, on each
    of the three paths and whatever the environment of the server.
  \<^item> Configuration and startup: the precedence of the sources, the identity of the sandbox, the commands run
    at startup; what the script puts into the jail, and that it writes nowhere else.
  \<^item> Tests: the unit tests pass on the model, for all inputs that they leave open.

  Some theorems state behaviour that the documentation denies: the guard against \<^verbatim>\<open>O_CREAT\<close> is
  void, the control socket of the zygote is inherited by fresh interpreters, a failed start of the zygote leaks
  descriptors, hard-linked files of the jail are not made read-only, the variable \<^verbatim>\<open>ALLOWED_SYSCALLS\<close> reaches no child, preloads do not reach Node.js, and a
  process that is killed silently counts as a success.

  \<^bold>\<open>Bounds and loops.\<close> No fuel is used: the functions that are not structurally recursive (draining of
  frames, decoding of UTF-8, replacement and trimming of strings, the XOR in chunks) have termination
  proofs. The endless loops of the reader and of the workers are a recursion on what is read, and step
  relations.

  \<^bold>\<open>Not modelled.\<close> The HTTP server, JSON and TOML parsing, and the logging: third-party code. The warming of
  codecs and modules in the zygote worker, and what user code does once it runs. File systems: a test on a file
  and a program that is run are parameters. The container images. Time: a timeout is a step that may happen at any moment, or an
  outcome that the operating system chooses.
\<close>

section \<open>Across components\<close>

text \<open>What the jobs of the queue are: an accepted request, run with the services as they are at that moment.\<close>

definition job_runs :: "services set \<Rightarrow> config \<Rightarrow> run_code_request \<Rightarrow> api_response \<Rightarrow> bool" where
  "job_runs svs config req r \<longleftrightarrow> (\<exists>sv\<in>svs. run_code_job sv config req = Some r)"

definition job_panics :: "services set \<Rightarrow> config \<Rightarrow> run_code_request \<Rightarrow> bool" where
  "job_panics svs config req \<longleftrightarrow> (\<exists>sv\<in>svs. run_code_job sv config req = None)"

lemma jobs_answer:
  assumes "\<And>sv b. sv \<in> svs \<Longrightarrow> length (sv_rng sv b) = length b" and "sv \<in> svs"
  shows "\<exists>r. job_runs svs config req r" "\<not> job_panics svs config req"
proof -
  have ans: "\<exists>r. run_code_job sv config req = Some r" if "sv \<in> svs" for sv
    using run_code_job_answers [OF assms(1) [OF that]] by blast
  with assms(2) show "\<exists>r. job_runs svs config req r" unfolding job_runs_def by blast
  from ans show "\<not> job_panics svs config req" unfolding job_panics_def by fastforce
qed

lemma job_answer_codes:
  assumes "\<And>sv b. sv \<in> svs \<Longrightarrow> length (sv_rng sv b) = length b" and "job_runs svs config req r"
  shows "resp_code r \<in> {0, 31, 400, 500}"
proof -
  obtain sv where sv: "sv \<in> svs" "run_code_job sv config req = Some r" using assms(2) by (auto simp: job_runs_def)
  then obtain r' where "run_code_job sv config req = Some r'"
      "resp_code r' \<in> (if req_language req \<in> {''python3'', ''javascript''} then {0, 31, 500} else {400})"
    using run_code_job_answers [OF assms(1)] by blast
  with sv(2) show ?thesis by (auto split: if_splits)
qed

subsection \<open>A request\<close>

text \<open>The queue of the example server after one request has been sent, and the services its job runs with.\<close>

definition demo_services :: services where
  "demo_services =
     \<lparr>sv_base64 = rfc4648, sv_rng = map (\<lambda>b. 7), sv_json_paths = (\<lambda>ps. ''[]''), sv_env = (\<lambda>v. None),
      sv_os = (\<lambda>c i t. Timed_out), sv_zygote = None\<rparr>"

definition demo_request :: run_code_request where
  "demo_request = \<lparr>req_language = ''javascript'', req_code = ''MSsx'', req_preload = [], req_options = default_runner_options\<rparr>"

definition demo_queue :: "(run_code_request Queue.message list \<times> nat, run_code_request) queue" where
  "demo_queue = submit_send list_channel 0 demo_request (submit_count demo_request (st_queue demo_startup))"

lemma demo_queue_facts:
  "0 < cfg_max_workers (st_config demo_startup)"
  "(qstep list_channel (job_runs svs (st_config demo_startup)) (job_panics svs (st_config demo_startup)))\<^sup>*\<^sup>* (st_queue demo_startup) demo_queue"
  "sys_chan demo_system = list_channel"
  "0 < length (q_calls demo_queue)" "q_calls demo_queue ! 0 = Awaiting" "q_jobs demo_queue = [demo_request]"
proof -
  let ?s = "qstep list_channel (job_runs svs (st_config demo_startup)) (job_panics svs (st_config demo_startup))"
  show chan: "sys_chan demo_system = list_channel" by (simp add: demo_system_def)
  show workers: "0 < cfg_max_workers (st_config demo_startup)"
    by (simp add: demo_starts(2) override_with_env_def config_of_raw_def shipped_config_def or_default_def env_parse_def Let_def)
  have q0: "st_queue demo_startup = start list_channel (cfg_max_workers (st_config demo_startup))"
    using startup_Some(2) [OF demo_starts(1)] by (simp add: chan)
  have "shape_ok snd (cfg_max_workers (st_config demo_startup)) (st_queue demo_startup)"
    unfolding q0 by (rule list_jobs.shape_start)
  then have rx: "0 < snd (q_chan (st_queue demo_startup))"
    using workers by (simp add: shape_ok_def q0 start_def)
  have "q_calls (st_queue demo_startup) = []" "q_jobs (st_queue demo_startup) = []" by (simp_all add: q0 start_def)
  with rx show "0 < length (q_calls demo_queue)" "q_calls demo_queue ! 0 = Awaiting" "q_jobs demo_queue = [demo_request]"
    by (simp_all add: demo_queue_def submit_send_def submit_count_def list_channel_def case_prod_beta)
  have "?s (st_queue demo_startup) (submit_count demo_request (st_queue demo_startup))" by (rule qstep.count)
  moreover have "?s (submit_count demo_request (st_queue demo_startup)) demo_queue"
    unfolding demo_queue_def by (rule qstep.send) (simp_all add: submit_count_def q0 start_def)
  ultimately show "?s\<^sup>*\<^sup>* (st_queue demo_startup) demo_queue" by (rule converse_rtranclp_into_rtranclp [OF _ r_into_rtranclp])
qed

subsection \<open>Answers of the zygote\<close>

text \<open>The answer to the client when the zygote reports a failure.\<close>

definition zygote_failures :: "nat \<Rightarrow> string set" where
  "zygote_failures mx =
     {''zygote worker not running'', ''zygote write failed'', ''Execution timeout'', ''zygote connection lost'', ''zygote stopped'',
      limit_message mx}"

lemma failure_answer:
  assumes "(out, err, status) \<in> failure_answers mx"
  shows "\<exists>msg\<in>zygote_failures mx. response_of_run (Inr \<lparr>ex_stdout = out, ex_stderr = err, ex_exit_code = status\<rparr>) = api_error 500 msg"
proof -
  have "err \<in> zygote_failures mx" "status = - 1" "err \<noteq> []"
    using assms by (auto simp: failure_answers_def error_responses_def failures_def limit_answers_def zygote_failures_def
        not_running_response_def write_failed_response_def timeout_response_def limit_message_def)
  then show ?thesis
    by (intro bexI [of _ err]) (simp_all add: response_of_run_def is_seccomp_violation_def SIGSYS_RAW_def SIGSYS_NEG_def)
qed

lemma lossy_empty: "lossy bs = [] \<longleftrightarrow> bs = []"
  by (simp add: lossy_def)

text \<open>A request for Python that the zygote handles.\<close>

lemma fast_job:
  assumes "req_language req = ''python3''" and "b64_decode (sv_base64 sv) (req_code req) = Inr code"
    and "cfg_python_zygote config" and "\<not> cfg_enable_preload config \<or> req_preload req = []" and "sv_zygote sv = Some (True, run)"
    and "encrypt_code (sv_base64 sv) code (generate_key (sv_rng sv) 64) = Some enc"
    and "run enc (b64_encode (sv_base64 sv) (generate_key (sv_rng sv) 64)) (zygote_limits config (req_options req)) = (out, err, status)"
  shows "run_code_job sv config req = Some (response_of_run (Inr \<lparr>ex_stdout = out, ex_stderr = err, ex_exit_code = status\<rparr>))"
  using assms by (auto simp: run_code_job_def handle_python_def python_run_def python_fast_def checked_preload_def Let_def)

text \<open>The services of a server whose zygote has given the answer of \<open>answered_link\<close>.\<close>

definition demo_zygote_services :: services where
  "demo_zygote_services = demo_services\<lparr>sv_zygote := Some (True, \<lambda>code key limits. (''h'', [], 1))\<rparr>"

definition demo_python_request :: run_code_request where
  "demo_python_request =
     \<lparr>req_language = ''python3'', req_code = b64_encode rfc4648 [120], req_preload = [], req_options = default_runner_options\<rparr>"

section \<open>Properties\<close>

text \<open>C1. From the start of the server to the answer: a server that has started with at least one worker can
  answer every request that waits in its queue, whatever happened since the start and whatever the
  operating system, the zygote and the clients do in between; the answer is that of the request's
  own job, and its code is 0, 31, 400 or 500.\<close>

theorem request_answered:
  assumes "main_startup sys proc = Some st" and "0 < cfg_max_workers (st_config st)"
    and "job_channel (sys_chan sys) items receivers"
    and "\<And>sv b. sv \<in> svs \<Longrightarrow> length (sv_rng sv b) = length b" and "svs \<noteq> {}"
    and "(qstep (sys_chan sys) (job_runs svs (st_config st)) (job_panics svs (st_config st)))\<^sup>*\<^sup>* (st_queue st) q"
    and "t < length (q_calls q)" and "q_calls q ! t = Awaiting"
  shows "\<exists>q' r. (qstep (sys_chan sys) (job_runs svs (st_config st)) (job_panics svs (st_config st)))\<^sup>*\<^sup>* q q'
    \<and> q_calls q' ! t = Returned r \<and> job_runs svs (st_config st) (q_jobs q ! t) r
    \<and> resp_code r \<in> {0, 31, 400, 500}"
proof -
  obtain sv where "sv \<in> svs" using assms(5) by blast
  note jobs = jobs_answer [OF assms(4) this]
  have "qreach (sys_chan sys) (job_runs svs (st_config st)) (job_panics svs (st_config st)) (cfg_max_workers (st_config st)) q"
    using assms(6) startup_Some(2) [OF assms(1)] by (simp add: qreach_def)
  from job_channel.submit_can_return [OF assms(3) this assms(2) _ _ assms(7,8)] jobs job_answer_codes [OF assms(4)]
  show ?thesis by blast
qed

theorem request_answered_witness:
  "\<exists>q' r. (qstep list_channel (job_runs {demo_services} (st_config demo_startup)) (job_panics {demo_services} (st_config demo_startup)))\<^sup>*\<^sup>*
      demo_queue q' \<and> q_calls q' ! 0 = Returned r \<and> run_code_job demo_services (st_config demo_startup) demo_request = Some r"
proof -
  let ?s = "qstep list_channel (job_runs {demo_services} (st_config demo_startup)) (job_panics {demo_services} (st_config demo_startup))"
  have "length (sv_rng sv b) = length b" if "sv \<in> {demo_services}" for sv b
    using that by (simp add: demo_services_def)
  then have "\<exists>q' r. ?s\<^sup>*\<^sup>* demo_queue q' \<and> q_calls q' ! 0 = Returned r
      \<and> job_runs {demo_services} (st_config demo_startup) (q_jobs demo_queue ! 0) r \<and> resp_code r \<in> {0, 31, 400, 500}"
    using list_jobs.job_channel_axioms demo_queue_facts(2,4,5)
    by (intro request_answered [OF demo_starts(1) demo_queue_facts(1), unfolded demo_queue_facts(3)])
      (simp_all only: insert_not_empty not_False_eq_True)
  then show ?thesis by (simp only: demo_queue_facts(6) nth_Cons_0 job_runs_def bex_simps) blast
qed

text \<open>C2. A started server finishes its work. Once clients stop sending requests, every schedule of the pool ends, after
  at most five steps for each request ever sent, whatever the operating system and the zygote do; and when
  it has ended, every request has been answered, by its own job and with the code 0, 31, 400 or 500, unless its
  client went away.\<close>

theorem requests_drained:
  assumes "main_startup sys proc = Some st" and "0 < cfg_max_workers (st_config st)"
    and "job_channel (sys_chan sys) items receivers"
    and "\<And>sv b. sv \<in> svs \<Longrightarrow> length (sv_rng sv b) = length b" and "svs \<noteq> {}"
    and "(qstep (sys_chan sys) (job_runs svs (st_config st)) (job_panics svs (st_config st)))\<^sup>*\<^sup>* (st_queue st) q"
    and "(drain_step (sys_chan sys) (job_runs svs (st_config st)) (job_panics svs (st_config st)) ^^ k) q q'"
  shows "k \<le> 5 * length (q_calls q)
    \<and> ((\<nexists>q''. drain_step (sys_chan sys) (job_runs svs (st_config st)) (job_panics svs (st_config st)) q' q'')
        \<and> t < length (q_calls q') \<longrightarrow>
        q_calls q' ! t = Dropped_call
        \<or> (\<exists>r. q_calls q' ! t = Returned r \<and> job_runs svs (st_config st) (q_jobs q' ! t) r \<and> resp_code r \<in> {0, 31, 400, 500}))"
proof -
  obtain sv where "sv \<in> svs" using assms(5) by blast
  note jobs = jobs_answer [OF assms(4) this, where config = "st_config st"]
  have "qreach (sys_chan sys) (job_runs svs (st_config st)) (job_panics svs (st_config st)) (cfg_max_workers (st_config st)) q"
    using assms(6) startup_Some(2) [OF assms(1)] by (simp add: qreach_def)
  from queue_drains [OF assms(3) this assms(2) _ _ assms(7)] jobs job_answer_codes [OF assms(4)]
  show ?thesis by blast
qed

theorem requests_drained_witness:
  "\<exists>k q'. (drain_step list_channel (job_runs {demo_services} (st_config demo_startup)) (job_panics {demo_services} (st_config demo_startup)) ^^ k)
      demo_queue q' \<and> k \<le> 5 * length (q_calls demo_queue)
    \<and> (\<nexists>q''. drain_step list_channel (job_runs {demo_services} (st_config demo_startup)) (job_panics {demo_services} (st_config demo_startup)) q' q'')"
proof -
  let ?d = "drain_step list_channel (job_runs {demo_services} (st_config demo_startup)) (job_panics {demo_services} (st_config demo_startup))"
  have rng: "length (sv_rng sv b) = length b" if "sv \<in> {demo_services}" for sv b
    using that by (simp add: demo_services_def)
  have bound: "k \<le> 5 * length (q_calls demo_queue)" if "(?d ^^ k) demo_queue q'" for k q'
    using requests_drained [OF demo_starts(1) demo_queue_facts(1), unfolded demo_queue_facts(3), OF list_jobs.job_channel_axioms rng
        insert_not_empty demo_queue_facts(2) that] by blast
  have "\<exists>k q'. (?d ^^ k) demo_queue q' \<and> (\<nexists>q''. ?d q' q'')" by (rule bounded_run_ends) (rule bound)
  with bound show ?thesis by blast
qed

text \<open>C3. What a client receives for Python code that the zygote runs. The manager, the worker and their socket are in any
  state that they can reach, concurrent requests included, and the call of the request has returned in it. Then the
  client is answered with code 500 and a failure of the zygote, or with the outcome of its own code: the
  server has written exactly one request under the number of the call, from which the child recovers exactly the
  submitted code, and the answer is made of what the worker has read from the pipes of that child and of its exit code,
  31 for a violation of the sandbox, 500 with the error output for another failure that has some, and
  otherwise 0 with both outputs. The JSON of the payload is assumed to be read back as it was written.\<close>

theorem client_receives_own_output:
  assumes base64: "base64_channel (sv_base64 sv) b64decode" and rng: "\<And>b. length (sv_rng sv b) = length b"
    and req: "req_language req = ''python3''" "b64_decode (sv_base64 sv) (req_code req) = Inr code"
    and fast: "cfg_python_zygote config" "\<not> cfg_enable_preload config \<or> req_preload req = []" "sv_zygote sv = Some (True, run)"
    and link: "link_reach mx payload s" "65536 \<le> mx" "\<And>c. length (payload c) \<le> MAX_FRAME_PAYLOAD" "length (issued (srv s)) \<le> 2 ^ 32"
    and enc: "encrypt_code (sv_base64 sv) code (generate_key (sv_rng sv) 64) = Some enc"
      "key = b64_encode (sv_base64 sv) (generate_key (sv_rng sv) 64)" "limits = zygote_limits config (req_options req)"
    and call: "payload c = str_bytes (to_json (make_payload enc key limits))" "pcs (srv s) c = Zygote_Run.Returned (run enc key limits)"
    and json: "of_json (to_json (make_payload enc key limits)) = Some (make_payload enc key limits)"
  shows "\<exists>resp. run_code_job sv config req = Some resp
    \<and> ((\<exists>msg\<in>zygote_failures mx. resp = api_error 500 msg)
      \<or> (\<exists>k r err status q. k < length (issued (srv s)) \<and> issued (srv s) ! k = c \<and> r = of_nat (Suc k)
          \<and> (\<forall>p. length p \<le> MAX_FRAME_PAYLOAD \<longrightarrow> (encode_frame MSG_RUN r p \<in> set (written (mgr (srv s))) \<longleftrightarrow> p = payload c))
          \<and> of_json (bytes_str (payload c)) = Some q \<and> worker_recover b64decode (rp_code q) (rp_key q) = Some code
          \<and> wk_codes (wrk s) r = Some status
          \<and> err \<in> {stream_of MSG_STDERR r (wk_reads (wrk s)), stream_of MSG_STDERR r (wk_reads (wrk s)) @ terminated_msg}
          \<and> resp = (if is_seccomp_violation status then api_error 31 ''sandbox security policy violation''
                    else if err \<noteq> [] \<and> status \<noteq> 0 then api_error 500 (lossy err)
                    else api_success (json_of_run_code_data
                      \<lparr>rcd_stdout = lossy (stream_of MSG_STDOUT r (wk_reads (wrk s))), rcd_stderr = lossy err\<rparr>))))"
proof -
  note inv = link_inv_reach [OF link(1-3)]
  have ok: "link_ok mx payload s" using inv link(4) by (simp add: link_inv_def)
  obtain out err status where v: "run enc key limits = (out, err, status)" by (cases "run enc key limits") auto
  have job: "run_code_job sv config req = Some (response_of_run (Inr \<lparr>ex_stdout = out, ex_stderr = err, ex_exit_code = status\<rparr>))"
    by (rule fast_job [OF req fast enc(1)]) (use v enc(2,3) in simp)
  from link_answers [OF inv link(4) call(2)] show ?thesis
  proof
    assume "run enc key limits \<in> failure_answers mx"
    then show ?thesis using failure_answer [of out err status mx] v job by auto
  next
    assume "\<exists>r e code. number_of (srv s) c r \<and> r \<in> wk_started (wrk s) \<and> wk_codes (wrk s) r = Some code
        \<and> e \<in> {stream_of MSG_STDERR r (wk_reads (wrk s)), stream_of MSG_STDERR r (wk_reads (wrk s)) @ terminated_msg}
        \<and> run enc key limits = (lossy (stream_of MSG_STDOUT r (wk_reads (wrk s))), lossy e, code)"
    then obtain r e where r: "number_of (srv s) c r" "r \<in> wk_started (wrk s)" "wk_codes (wrk s) r = Some status"
        "e \<in> {stream_of MSG_STDERR r (wk_reads (wrk s)), stream_of MSG_STDERR r (wk_reads (wrk s)) @ terminated_msg}"
        "out = lossy (stream_of MSG_STDOUT r (wk_reads (wrk s)))" "err = lossy e"
      using v by auto
    obtain k where k: "k < length (issued (srv s))" "issued (srv s) ! k = c" "r = of_nat (Suc k)"
      using r(1) unfolding number_of_def by blast
    let ?q = "make_payload enc key limits"
    have "generate_key (sv_rng sv) 64 \<noteq> []" by (rule python_key_nonempty) (rule rng)
    then have "worker_recover b64decode (rp_code ?q) (rp_key ?q) = Some code"
      using base64_channel.recover_both(2) [OF base64 _ enc(1)] by (simp add: make_payload_def enc(2))
    moreover have "of_json (bytes_str (payload c)) = Some ?q" using json by (simp add: call(1))
    moreover note answered_request [OF ok link(4,3) r(1,2)]
    ultimately show ?thesis
      using job r(3,4) k
      by (intro exI [of _ k] exI [of _ r] exI [of _ e] exI [of _ status] exI [of _ ?q] exI conjI disjI2)
        (simp_all add: response_of_run_def r(5,6) lossy_empty)
  qed
qed

theorem client_receives_own_output_witness:
  "run_code_job demo_zygote_services (config_of_raw shipped_config) demo_python_request =
      Some (api_success (json_of_run_code_data \<lparr>rcd_stdout = ''h'', rcd_stderr = []\<rparr>))
    \<and> (\<exists>r status. wk_codes (wrk answered_link) r = Some status \<and> lossy (stream_of MSG_STDOUT r (wk_reads (wrk answered_link))) = ''h'')"
proof -
  let ?sv = demo_zygote_services let ?cfg = "config_of_raw shipped_config" let ?req = demo_python_request
  let ?key = "generate_key (sv_rng ?sv) 64" let ?run = "\<lambda>code key limits. (''h'', [], 1)"
  have sv: "sv_base64 ?sv = rfc4648" "\<And>b. length (sv_rng ?sv b) = length b" "sv_zygote ?sv = Some (True, ?run)"
    by (simp_all add: demo_zygote_services_def demo_services_def)
  have req: "req_language ?req = ''python3''" "b64_decode (sv_base64 ?sv) (req_code ?req) = Inr [120]"
      "\<not> cfg_enable_preload ?cfg \<or> req_preload ?req = []" "cfg_python_zygote ?cfg"
    by (simp_all add: rfc.decode_encode sv demo_python_request_def config_of_raw_def shipped_config_def or_default_def)
  have "?key \<noteq> []" by (rule python_key_nonempty) (rule sv(2))
  then obtain enc where enc: "encrypt_code (sv_base64 ?sv) [120] ?key = Some enc" using encrypt_code_defined by blast
  have job: "run_code_job ?sv ?cfg ?req = Some (api_success (json_of_run_code_data \<lparr>rcd_stdout = ''h'', rcd_stderr = []\<rparr>))"
    using fast_job [OF req(1,2,4,3) sv(3) enc, of "''h''" "[]" 1] by (simp add: response_of_run_def is_seccomp_violation_def SIGSYS_RAW_def SIGSYS_NEG_def)
  have s: "pcs (srv answered_link) 0 = Zygote_Run.Returned (''h'', [], 1)" "length (issued (srv answered_link)) \<le> 2 ^ 32"
    by (simp_all add: answered_link_def answered_zsys_def waiting_zsys_simps)
  have channel: "base64_channel (sv_base64 ?sv) rfc4648_decode" using rfc_channel.base64_channel_axioms by (simp add: sv(1))
  have small: "65536 \<le> (70000 :: nat)" "\<And>c :: chan. length [] \<le> MAX_FRAME_PAYLOAD" and no_bytes: "[] = str_bytes []"
    by (simp_all add: str_bytes_def)
  have "\<exists>resp. run_code_job ?sv ?cfg ?req = Some resp \<and> ((\<exists>msg\<in>zygote_failures 70000. resp = api_error 500 msg)
      \<or> (\<exists>r status err. wk_codes (wrk answered_link) r = Some status
          \<and> resp = (if is_seccomp_violation status then api_error 31 ''sandbox security policy violation''
                    else if err \<noteq> [] \<and> status \<noteq> 0 then api_error 500 (lossy err)
                    else api_success (json_of_run_code_data
                      \<lparr>rcd_stdout = lossy (stream_of MSG_STDOUT r (wk_reads (wrk answered_link))), rcd_stderr = lossy err\<rparr>))))"
    using client_receives_own_output [where sv = ?sv and config = ?cfg and req = ?req and payload = "\<lambda>_. []" and s = answered_link
        and c = 0 and to_json = "\<lambda>p. []" and of_json = "\<lambda>j. Some (make_payload enc (b64_encode (sv_base64 ?sv) ?key) (zygote_limits ?cfg (req_options ?req)))",
        OF channel sv(2) req(1,2,4,3) sv(3) answered_link_reach small s(2) enc refl refl no_bytes s(1) refl]
    by blast
  with job show ?thesis
    by (auto simp: api_success_def api_error_def json_of_run_code_data_def split: if_splits)
qed

end
